(* ===== verification/Prelude.thy ===== *)
theory Prelude
  imports Main "HOL-Library.Word" "HOL-Library.Multiset"
begin

text \<open>
  Shared vocabulary of the development.
  \<^item> The machine integers of the C code: \<^verbatim>\<open>uint32_t\<close> and
    \<^verbatim>\<open>int\<close> quantities are \<open>32 word\<close> (the same 32 bits; a signed
    comparison reads them with \<open>sint\<close>), \<^verbatim>\<open>uint64_t\<close> is \<open>64 word\<close>.
  \<^item> What a C statement may do besides producing a value: a fault. A computation is a
    value of \<open>'a res\<close>: \<open>Inr\<close> the result, \<open>Inl\<close> the fault that stops the program
    (undefined behaviour, a failed assertion).
  \<^item> The predicate \<open>sat E m P\<close>: the computation \<open>m\<close> either ends with a value that
    satisfies \<open>P\<close>, or faults with a fault of \<open>E\<close>. With \<open>E = {}\<close> this is total
    correctness. Its rules turn a composed computation into a verification condition.
  \<^item> Bounds-checked array accesses, checked division, the loop over a list of indices.
\<close>

subsection \<open>Machine integers and faults\<close>

type_synonym u32 = "32 word"
type_synonym u64 = "64 word"

text \<open>
  \<open>InvalidPtr\<close>: a read or write through a pointer to no live object;
  \<open>OutOfBounds\<close>: an array access outside the array; \<open>DivByZero\<close>: an integer division
  by zero; \<open>UninitRead\<close>: use of a local array cell that was never written;
  \<open>AssertFail\<close>: a failed \<^verbatim>\<open>assert\<close>; \<open>Diverge\<close>: a list traversal that
  does not come back to the head of the list; \<open>OutOfMemory\<close>: a write through the result
  of an unchecked \<^verbatim>\<open>malloc\<close> that returned no memory.
\<close>

datatype fault = InvalidPtr | OutOfBounds | DivByZero | UninitRead | AssertFail | Diverge | OutOfMemory

type_synonym 'a res = "fault + 'a"

named_theorems wp \<open>verification conditions of computations\<close>

definition rbind :: "'a res \<Rightarrow> ('a \<Rightarrow> 'b res) \<Rightarrow> 'b res" where
  "rbind m f = (case m of Inl e \<Rightarrow> Inl e | Inr x \<Rightarrow> f x)"

definition sat :: "fault set \<Rightarrow> 'a res \<Rightarrow> ('a \<Rightarrow> bool) \<Rightarrow> bool" where
  "sat E m P \<longleftrightarrow> (case m of Inl e \<Rightarrow> e \<in> E | Inr x \<Rightarrow> P x)"

text \<open>An array read with its bounds check, an unsigned division with its zero check.\<close>

definition idx :: "'a list \<Rightarrow> nat \<Rightarrow> 'a res" where
  "idx xs i = (if i < length xs then Inr (xs ! i) else Inl OutOfBounds)"

definition put :: "'a list \<Rightarrow> nat \<Rightarrow> 'a \<Rightarrow> 'a list res" where
  "put xs i v = (if i < length xs then Inr (xs[i := v]) else Inl OutOfBounds)"

definition udiv :: "u32 \<Rightarrow> u32 \<Rightarrow> u32 res" where
  "udiv a b = (if b = 0 then Inl DivByZero else Inr (a div b))"

text \<open>An array index computed as a signed \<^verbatim>\<open>int\<close>: a negative one is out of bounds.\<close>

definition idx_int :: "'a list \<Rightarrow> int \<Rightarrow> 'a res" where
  "idx_int xs i = (if 0 \<le> i then idx xs (nat i) else Inl OutOfBounds)"

definition put_int :: "'a list \<Rightarrow> int \<Rightarrow> 'a \<Rightarrow> 'a list res" where
  "put_int xs i v = (if 0 \<le> i then put xs (nat i) v else Inl OutOfBounds)"

text \<open>The loop whose body runs for each element of a list, threading a state.\<close>

primrec for_each :: "('x \<Rightarrow> 's \<Rightarrow> 's res) \<Rightarrow> 'x list \<Rightarrow> 's \<Rightarrow> 's res" where
  "for_each f [] s = Inr s"
| "for_each f (x # xs) s = rbind (f x s) (for_each f xs)"

subsection \<open>Computations\<close>

lemma rbind_simps [simp]:
  "rbind (Inl e) f = Inl e"
  "rbind (Inr x) f = f x"
  by (simp_all add: rbind_def)

lemma rbind_cong [fundef_cong]:
  "m = m' \<Longrightarrow> (\<And>x. m' = Inr x \<Longrightarrow> f x = f' x) \<Longrightarrow> rbind m f = rbind m' f'"
  by (cases m') auto

lemma rbind_eq_Inr: "rbind m f = Inr y \<longleftrightarrow> (\<exists>x. m = Inr x \<and> f x = Inr y)"
  by (cases m) auto

lemma rbind_eq_Inl: "rbind m f = Inl e \<longleftrightarrow> m = Inl e \<or> (\<exists>x. m = Inr x \<and> f x = Inl e)"
  by (cases m) auto

lemma rbind_assoc: "rbind (rbind m f) g = rbind m (\<lambda>x. rbind (f x) g)"
  by (cases m) auto

lemma sat_simps [simp, wp]:
  "sat E (Inl e) P \<longleftrightarrow> e \<in> E"
  "sat E (Inr x) P \<longleftrightarrow> P x"
  by (simp_all add: sat_def)

lemma sat_rbind [simp, wp]: "sat E (rbind m f) P \<longleftrightarrow> sat E m (\<lambda>x. sat E (f x) P)"
  by (cases m) auto

lemma sat_if [wp]: "sat E (if b then m else n) P \<longleftrightarrow> (if b then sat E m P else sat E n P)"
  by simp

lemma sat_mono: "sat E m P \<Longrightarrow> (\<And>x. m = Inr x \<Longrightarrow> P x \<Longrightarrow> Q x) \<Longrightarrow> sat E m Q"
  by (cases m) auto

lemma sat_weaken: "sat E m P \<Longrightarrow> E \<subseteq> F \<Longrightarrow> (\<And>x. P x \<Longrightarrow> Q x) \<Longrightarrow> sat F m Q"
  by (cases m) auto

lemma sat_conj: "sat E m (\<lambda>x. P x \<and> Q x) \<longleftrightarrow> sat E m P \<and> sat E m Q"
  by (cases m) auto

lemma sat_total: "sat {} m P \<longleftrightarrow> (\<exists>x. m = Inr x \<and> P x)"
  by (cases m) auto

lemma satD: "sat E m P \<Longrightarrow> m = Inr x \<Longrightarrow> P x"
  by simp

lemma idx_sat [wp]: "sat E (idx xs i) P \<longleftrightarrow> (if i < length xs then P (xs ! i) else OutOfBounds \<in> E)"
  by (simp add: idx_def)

lemma put_sat [wp]: "sat E (put xs i v) P \<longleftrightarrow> (if i < length xs then P (xs[i := v]) else OutOfBounds \<in> E)"
  by (simp add: put_def)

lemma udiv_sat [wp]: "sat E (udiv a b) P \<longleftrightarrow> (if b = 0 then DivByZero \<in> E else P (a div b))"
  by (simp add: udiv_def)

lemma idx_Inr [simp]: "i < length xs \<Longrightarrow> idx xs i = Inr (xs ! i)"
  by (simp add: idx_def)

lemma put_Inr [simp]: "i < length xs \<Longrightarrow> put xs i v = Inr (xs[i := v])"
  by (simp add: put_def)

lemma idx_eq_Inr: "idx xs i = Inr x \<longleftrightarrow> i < length xs \<and> x = xs ! i"
  by (auto simp: idx_def)

lemma put_eq_Inr: "put xs i v = Inr ys \<longleftrightarrow> i < length xs \<and> ys = xs[i := v]"
  by (auto simp: put_def)

lemma idx_int_Inr [simp]: "0 \<le> i \<Longrightarrow> nat i < length xs \<Longrightarrow> idx_int xs i = Inr (xs ! nat i)"
  by (simp add: idx_int_def)

lemma put_int_Inr [simp]: "0 \<le> i \<Longrightarrow> nat i < length xs \<Longrightarrow> put_int xs i v = Inr (xs[nat i := v])"
  by (simp add: put_int_def)

lemma udiv_Inr [simp]: "b \<noteq> 0 \<Longrightarrow> udiv a b = Inr (a div b)"
  by (simp add: udiv_def)

lemma for_each_append: "for_each f (xs @ ys) s = rbind (for_each f xs s) (for_each f ys)"
proof (induction xs arbitrary: s)
  case (Cons x xs)
  then have "for_each f (xs @ ys) = (\<lambda>s. rbind (for_each f xs s) (for_each f ys))" by blast
  then show ?case by (simp add: rbind_assoc)
qed simp

lemma for_each_cong:
  "(\<And>x s. x \<in> set xs \<Longrightarrow> f x s = g x s) \<Longrightarrow> for_each f xs s = for_each g xs s"
proof (induction xs arbitrary: s)
  case (Cons x xs)
  then have "for_each f xs = for_each g xs" by (intro ext Cons.IH) auto
  then show ?case using Cons.prems by simp
qed simp

text \<open>The loop rule: an invariant the body keeps for each element of the list.\<close>

lemma for_each_sat:
  assumes "P s" and "\<And>x s. x \<in> set xs \<Longrightarrow> P s \<Longrightarrow> sat E (f x s) P"
  shows "sat E (for_each f xs s) P"
  using assms
proof (induction xs arbitrary: s)
  case Nil
  then show ?case by simp
next
  case (Cons x xs)
  from Cons.prems(1) have "sat E (f x s) P" by (intro Cons.prems(2)) auto
  then show ?case
    by (auto intro!: Cons.IH Cons.prems(2) elim!: sat_mono)
qed

text \<open>The loop rule with the part of the list already done, for postconditions that grow.\<close>

lemma for_each_sat_prefix:
  assumes "P [] s"
    and "\<And>ys x zs s. xs = ys @ x # zs \<Longrightarrow> P ys s \<Longrightarrow> sat E (f x s) (P (ys @ [x]))"
  shows "sat E (for_each f xs s) (P xs)"
proof -
  have gen: "sat E (for_each f zs s) (P xs)" if "P ys s" and "xs = ys @ zs" for ys zs s
    using that
  proof (induction zs arbitrary: ys s)
    case Nil
    then show ?case by simp
  next
    case (Cons z zs)
    from Cons.prems(2,1) have "sat E (f z s) (P (ys @ [z]))" by (rule assms(2))
    moreover have "sat E (for_each f zs t) (P xs)" if "P (ys @ [z]) t" for t
      using that Cons.prems(2) by (intro Cons.IH [of "ys @ [z]"]) auto
    ultimately show ?case by (auto elim!: sat_mono)
  qed
  show ?thesis using gen [of "[]" s xs] assms(1) by simp
qed

subsection \<open>Lists and words\<close>

lemma sum_list_update_word:
  fixes f :: "'a \<Rightarrow> 'b::comm_ring_1"
  shows "i < length xs \<Longrightarrow> (\<Sum>x\<leftarrow>xs[i := v]. f x) = (\<Sum>x\<leftarrow>xs. f x) - f (xs ! i) + f v"
  by (induction xs arbitrary: i) (auto simp: nth_Cons' algebra_simps split: nat.splits)

lemma upt_splitD:
  assumes "[a..<b] = ks @ i # zs"
  shows "ks = [a..<i]" "a \<le> i" "i < b"
proof -
  have len: "length ks < b - a" using arg_cong [OF assms, of length] by simp
  have "i = [a..<b] ! length ks" by (simp add: assms)
  with len have i: "i = a + length ks" by simp
  have "ks = take (length ks) [a..<b]" by (simp add: assms)
  with len i show "ks = [a..<i]" by simp
  show "a \<le> i" "i < b" using len i by simp_all
qed

lemma nth_update_if: "xs[i := x] ! j = (if i = j \<and> j < length xs then x else xs ! j)"
  by (cases "i = j") (auto simp: list_update_beyond)

lemma unat_of_nat_small [simp]: "n < 2 ^ 32 \<Longrightarrow> unat (of_nat n :: u32) = n"
  by (simp add: unat_of_nat take_bit_nat_eq_self)

lemma of_nat_u32_inj: "m < 2 ^ 32 \<Longrightarrow> n < 2 ^ 32 \<Longrightarrow> (of_nat m :: u32) = of_nat n \<longleftrightarrow> m = n"
  by (metis unat_of_nat_small)

lemma sint_small:
  assumes "uint (w :: u32) < 2147483648"
  shows "sint w = uint w"
proof -
  have "- (2 ^ 31) \<le> uint w" by (rule order_trans [OF _ uint_ge_0]) simp
  then show ?thesis using assms by (simp add: sint_uint signed_take_bit_int_eq_self)
qed

lemma mset_remove_middle: "mset (xs @ x # ys) = add_mset x (mset (xs @ ys))"
  by simp

subsection \<open>Searches\<close>

text \<open>A loop that searches a sequence of positions and stops at the first success.\<close>

fun find_first :: "(nat \<Rightarrow> 'b option res) \<Rightarrow> nat list \<Rightarrow> (nat \<times> 'b) option res" where
  "find_first f [] = Inr None"
| "find_first f (i # is) =
     rbind (f i) (\<lambda>r. case r of None \<Rightarrow> find_first f is | Some x \<Rightarrow> Inr (Some (i, x)))"

lemma find_first_sat:
  assumes "\<And>i. i \<in> set is \<Longrightarrow> sat E (f i) (\<lambda>r. \<forall>x. r = Some x \<longrightarrow> P i x)"
  shows "sat E (find_first f is) (\<lambda>r. \<forall>i x. r = Some (i, x) \<longrightarrow> i \<in> set is \<and> P i x)"
  using assms
proof (induction "is")
  case (Cons i js)
  have rest: "sat E (find_first f js) (\<lambda>r. \<forall>k x. r = Some (k, x) \<longrightarrow> k \<in> set (i # js) \<and> P k x)"
    by (rule sat_mono [OF Cons.IH]) (use Cons.prems in auto)
  have "sat E (f i) (\<lambda>r. \<forall>x. r = Some x \<longrightarrow> P i x)" using Cons.prems [of i] by simp
  then show ?case
    using rest by (auto elim!: sat_mono split: option.splits)
qed simp

lemma find_first_call:
  assumes "\<And>i. i \<in> set is \<Longrightarrow> sat E (f i) (\<lambda>r. \<forall>x. r = Some x \<longrightarrow> P i x)"
    and "sat E (g None) Q" and "\<And>i x. i \<in> set is \<Longrightarrow> P i x \<Longrightarrow> sat E (g (Some (i, x))) Q"
  shows "sat E (rbind (find_first f is) g) Q"
  unfolding sat_rbind
proof (rule sat_mono [OF find_first_sat [of "is" E f P]])
  fix r assume "\<forall>i x. r = Some (i, x) \<longrightarrow> i \<in> set is \<and> P i x"
  then show "sat E (g r) Q" using assms(2,3) by (cases r) auto
qed (rule assms(1))

lemma find_first_filter:
  "(\<And>i. i \<in> set is \<Longrightarrow> f i = Inr (if Q i then Some x else None))
   \<Longrightarrow> find_first f is = Inr (case filter Q is of [] \<Rightarrow> None | i # _ \<Rightarrow> Some (i, x))"
  by (induction "is") auto

end
