(* ===== verification/List_Head.thy ===== *)
theory List_Head
  imports Prelude
begin

text \<open>
  The intrusive doubly linked lists of \<^verbatim>\<open>include/list.h\<close>, on an explicit store of
  \<^verbatim>\<open>struct list_head\<close> objects. A node is the address of a list head: the field
  \<^verbatim>\<open>load_q\<close> of a stream, the field \<^verbatim>\<open>list\<close> of a load (given by its mapping
  and its position in the mapping's array), the field \<^verbatim>\<open>req_q\<close> of the rebalancer,
  the field \<^verbatim>\<open>list\<close> of a request, or one of the two poison addresses, which hold no
  object. The operations write the links in the order of the source; \<open>dlist h q xs\<close> says
  that the store \<open>h\<close> holds a circular list with head \<open>q\<close> and elements \<open>xs\<close>, and
  the lemmas show that each operation performs the corresponding list operation and leaves
  all other nodes alone.
\<close>

type_synonym lptr = "nat \<times> nat"

datatype node =
    LIST_POISON1
  | LIST_POISON2
  | LoadQ nat
  | LoadNode lptr
  | ReqQ
  | ReqNode nat

record list_head =
  lh_next :: node
  lh_prev :: node

type_synonym links = "node \<rightharpoonup> list_head"

definition get_next :: "links \<Rightarrow> node \<Rightarrow> node res" where
  "get_next h x = (case h x of None \<Rightarrow> Inl InvalidPtr | Some l \<Rightarrow> Inr (lh_next l))"

definition get_prev :: "links \<Rightarrow> node \<Rightarrow> node res" where
  "get_prev h x = (case h x of None \<Rightarrow> Inl InvalidPtr | Some l \<Rightarrow> Inr (lh_prev l))"

definition set_next :: "links \<Rightarrow> node \<Rightarrow> node \<Rightarrow> links res" where
  "set_next h x v = (case h x of None \<Rightarrow> Inl InvalidPtr | Some l \<Rightarrow> Inr (h(x \<mapsto> l\<lparr>lh_next := v\<rparr>)))"

definition set_prev :: "links \<Rightarrow> node \<Rightarrow> node \<Rightarrow> links res" where
  "set_prev h x v = (case h x of None \<Rightarrow> Inl InvalidPtr | Some l \<Rightarrow> Inr (h(x \<mapsto> l\<lparr>lh_prev := v\<rparr>)))"

definition INIT_LIST_HEAD :: "links \<Rightarrow> node \<Rightarrow> links" where
  "INIT_LIST_HEAD h x = h(x \<mapsto> \<lparr>lh_next = x, lh_prev = x\<rparr>)"

definition list_add_between :: "links \<Rightarrow> node \<Rightarrow> node \<Rightarrow> node \<Rightarrow> links res" where
  "list_add_between h new prv nxt =
     rbind (set_prev h nxt new) (\<lambda>h.
     rbind (set_next h new nxt) (\<lambda>h.
     rbind (set_prev h new prv) (\<lambda>h.
     set_next h prv new)))"

definition list_add :: "links \<Rightarrow> node \<Rightarrow> node \<Rightarrow> links res" where
  "list_add h new q = rbind (get_next h q) (\<lambda>nxt. list_add_between h new q nxt)"

definition list_add_tail :: "links \<Rightarrow> node \<Rightarrow> node \<Rightarrow> links res" where
  "list_add_tail h new q = rbind (get_prev h q) (\<lambda>prv. list_add_between h new prv q)"

definition list_del_between :: "links \<Rightarrow> node \<Rightarrow> node \<Rightarrow> links res" where
  "list_del_between h prv nxt =
     rbind (set_prev h nxt prv) (\<lambda>h. set_next h prv nxt)"

definition list_del_entry :: "links \<Rightarrow> node \<Rightarrow> links res" where
  "list_del_entry h entry =
     rbind (get_prev h entry) (\<lambda>p. rbind (get_next h entry) (\<lambda>n. list_del_between h p n))"

definition list_del :: "links \<Rightarrow> node \<Rightarrow> links res" where
  "list_del h entry =
     rbind (get_prev h entry) (\<lambda>p. rbind (get_next h entry) (\<lambda>n.
     rbind (list_del_between h p n) (\<lambda>h.
     rbind (set_next h entry LIST_POISON1) (\<lambda>h. set_prev h entry LIST_POISON2))))"

definition list_del_init :: "links \<Rightarrow> node \<Rightarrow> links res" where
  "list_del_init h entry = rbind (list_del_entry h entry) (\<lambda>h. Inr (INIT_LIST_HEAD h entry))"

definition list_empty :: "links \<Rightarrow> node \<Rightarrow> bool res" where
  "list_empty h q = rbind (get_next h q) (\<lambda>n. Inr (n = q))"

definition list_splice_between :: "links \<Rightarrow> node \<Rightarrow> node \<Rightarrow> node \<Rightarrow> links res" where
  "list_splice_between h lst prv nxt =
     rbind (get_next h lst) (\<lambda>first.
     rbind (get_prev h lst) (\<lambda>last.
     rbind (set_prev h first prv) (\<lambda>h.
     rbind (set_next h prv first) (\<lambda>h.
     rbind (set_next h last nxt) (\<lambda>h.
     set_prev h nxt last)))))"

definition list_splice :: "links \<Rightarrow> node \<Rightarrow> node \<Rightarrow> links res" where
  "list_splice h lst q =
     rbind (list_empty h lst) (\<lambda>e.
     if \<not> e then rbind (get_next h q) (\<lambda>n. list_splice_between h lst q n) else Inr h)"

text \<open>
  The macros \<^verbatim>\<open>list_for_each\<close> and \<^verbatim>\<open>list_for_each_safe\<close> with a body that does
  not change the links: the nodes the loop visits, in order. The traversal of a store that is
  no list need not end, so it has a budget of visited nodes, beyond which the result is
  \<open>Diverge\<close>. The budget \<open>list_bound\<close> exceeds the length of any list whose elements are
  counted by a \<^verbatim>\<open>uint32_t\<close>, as the elements of the load queues are.
\<close>

fun list_walk :: "nat \<Rightarrow> links \<Rightarrow> node \<Rightarrow> node \<Rightarrow> node list res" where
  "list_walk fuel h q pos =
     (if pos = q then Inr []
      else if fuel = 0 then Inl Diverge
      else rbind (get_next h pos) (\<lambda>n.
           rbind (list_walk (fuel - 1) h q n) (\<lambda>ns. Inr (pos # ns))))"

declare list_walk.simps [simp del]

definition list_bound :: nat where
  "list_bound = 2 ^ 32"

definition list_for_each :: "links \<Rightarrow> node \<Rightarrow> node list res" where
  "list_for_each h q = rbind (get_next h q) (\<lambda>n. list_walk list_bound h q n)"

text \<open>The macro \<^verbatim>\<open>list_entry\<close> at its two container types.\<close>

definition list_entry_load :: "node \<Rightarrow> lptr res" where
  "list_entry_load x = (case x of LoadNode l \<Rightarrow> Inr l | _ \<Rightarrow> Inl InvalidPtr)"

definition list_entry_req :: "node \<Rightarrow> nat res" where
  "list_entry_req x = (case x of ReqNode r \<Rightarrow> Inr r | _ \<Rightarrow> Inl InvalidPtr)"

subsection \<open>Circular lists in the store\<close>

definition nexts :: "links \<Rightarrow> node \<Rightarrow> node option" where
  "nexts h x = map_option lh_next (h x)"

definition prevs :: "links \<Rightarrow> node \<Rightarrow> node option" where
  "prevs h x = map_option lh_prev (h x)"

primrec seg :: "(node \<Rightarrow> node option) \<Rightarrow> node \<Rightarrow> node list \<Rightarrow> node \<Rightarrow> bool" where
  "seg f a [] b \<longleftrightarrow> f a = Some b"
| "seg f a (x # xs) b \<longleftrightarrow> f a = Some x \<and> seg f x xs b"

definition dlist :: "links \<Rightarrow> node \<Rightarrow> node list \<Rightarrow> bool" where
  "dlist h q xs \<longleftrightarrow>
     distinct (q # xs) \<and> seg (nexts h) q xs q \<and> seg (prevs h) q (rev xs) q"

lemma seg_append [simp]: "seg f a (xs @ y # ys) b \<longleftrightarrow> seg f a xs y \<and> seg f y ys b"
  by (induction xs arbitrary: a) auto

lemma seg_cong: "(\<And>n. n \<in> insert a (set xs) \<Longrightarrow> f n = g n) \<Longrightarrow> seg f a xs b = seg g a xs b"
  by (induction xs arbitrary: a) auto

lemma seg_fun_upd [simp]: "x \<noteq> a \<Longrightarrow> x \<notin> set xs \<Longrightarrow> seg (f(x := v)) a xs b = seg f a xs b"
  by (rule seg_cong) auto

lemma seg_redirect:
  "distinct (a # xs) \<Longrightarrow> seg f a xs b \<Longrightarrow> seg (f(last (a # xs) \<mapsto> c)) a xs c"
  by (induction xs arbitrary: a) auto

lemma seg_hd: "seg f a xs b \<Longrightarrow> f a = Some (hd (xs @ [b]))"
  by (cases xs) auto

lemma seg_dom: "seg f a xs b \<Longrightarrow> n \<in> insert a (set xs) \<Longrightarrow> f n \<noteq> None"
  by (induction xs arbitrary: a) auto

lemma dlist_dom: "dlist h q xs \<Longrightarrow> n \<in> insert q (set xs) \<Longrightarrow> \<exists>l. h n = Some l"
  by (auto simp: dlist_def nexts_def dest!: seg_dom [where n = n])

lemma dlist_Nil_iff: "dlist h q [] \<longleftrightarrow> h q = Some \<lparr>lh_next = q, lh_prev = q\<rparr>"
  by (cases "h q") (auto simp: dlist_def nexts_def prevs_def)

lemma dlist_init: "dlist (INIT_LIST_HEAD h q) q []"
  by (simp add: dlist_Nil_iff INIT_LIST_HEAD_def)

lemma dlist_cong:
  "(\<And>n. n \<in> insert q (set xs) \<Longrightarrow> h n = h' n) \<Longrightarrow> dlist h q xs = dlist h' q xs"
  using seg_cong [of q xs "nexts h" "nexts h'" q]
    seg_cong [of q "rev xs" "prevs h" "prevs h'" q]
  by (auto simp: dlist_def nexts_def prevs_def)

lemma dlist_frame:
  assumes "dlist h p zs" and "\<forall>m. m \<notin> A \<longrightarrow> h' m = h m" and "insert p (set zs) \<inter> A = {}"
  shows "dlist h' p zs"
proof -
  have "h n = h' n" if "n \<in> insert p (set zs)" for n using that assms(2,3) by auto
  then show ?thesis using assms(1) dlist_cong by blast
qed

lemma dlist_fun_upd [simp]: "x \<noteq> q \<Longrightarrow> x \<notin> set xs \<Longrightarrow> dlist (h(x := v)) q xs = dlist h q xs"
  by (rule dlist_cong) auto

lemma get_next_Some: "get_next h x = Inr n \<longleftrightarrow> nexts h x = Some n"
  by (auto simp: get_next_def nexts_def split: option.splits)

lemma get_prev_Some: "get_prev h x = Inr n \<longleftrightarrow> prevs h x = Some n"
  by (auto simp: get_prev_def prevs_def split: option.splits)

lemma set_next_ok:
  assumes "h x \<noteq> None"
  obtains h' where "set_next h x v = Inr h'" "nexts h' = (nexts h)(x \<mapsto> v)" "prevs h' = prevs h"
    "\<And>n. n \<noteq> x \<Longrightarrow> h' n = h n" "h' x \<noteq> None"
  using assms by (fastforce simp: set_next_def nexts_def prevs_def fun_eq_iff)

lemma set_prev_ok:
  assumes "h x \<noteq> None"
  obtains h' where "set_prev h x v = Inr h'" "prevs h' = (prevs h)(x \<mapsto> v)" "nexts h' = nexts h"
    "\<And>n. n \<noteq> x \<Longrightarrow> h' n = h n" "h' x \<noteq> None"
  using assms by (fastforce simp: set_prev_def nexts_def prevs_def fun_eq_iff)


lemma hd_snoc_rev: "hd (rev xs @ [q]) = last (q # xs)" and last_Cons_rev: "last (q # rev ys) = hd (ys @ [q])"
  by (cases xs; cases ys; simp add: hd_append hd_rev)+

lemma last_Cons_in: "last (a # xs) \<in> insert a (set xs)"
  by auto

lemma hd_snoc_in: "hd (ys @ [q]) \<in> insert q (set ys)"
  by (cases ys) auto

lemma seg_insert:
  assumes "distinct (a # xs @ ys)" and "seg f a (xs @ ys) b" and "new \<notin> insert a (set (xs @ ys))"
  shows "seg (f(new \<mapsto> hd (ys @ [b]), last (a # xs) \<mapsto> new)) a (xs @ new # ys) b"
proof -
  define p where "p = last (a # xs)"
  have p: "p \<in> insert a (set xs)" by (simp add: p_def)
  let ?f = "f(new \<mapsto> hd (ys @ [b]))"
  have "seg ?f a xs (hd (ys @ [b]))"
    using assms by (cases ys) auto
  then have "seg (?f(p \<mapsto> new)) a xs new"
    unfolding p_def using assms(1) by (intro seg_redirect) auto
  moreover have "p \<notin> set ys" "new \<noteq> p" using assms(1,3) p by auto
  then have "seg (?f(p \<mapsto> new)) new ys b"
    using assms(2,3) by (cases ys) auto
  ultimately show ?thesis by (simp add: p_def del: last.simps)
qed

lemma seg_delete:
  assumes "distinct (a # xs @ x # ys)" and "seg f a (xs @ x # ys) b"
  shows "seg (f(last (a # xs) \<mapsto> hd (ys @ [b]))) a (xs @ ys) b"
proof -
  define p where "p = last (a # xs)"
  have p: "p \<in> insert a (set xs)" by (simp add: p_def)
  have redir: "seg (f(p \<mapsto> c)) a xs c" for c
    unfolding p_def using assms by (intro seg_redirect [where b = x]) auto
  show ?thesis
  proof (cases ys)
    case Nil
    then show ?thesis using redir [of b] by (simp add: p_def del: last.simps)
  next
    case (Cons y zs)
    have "p \<notin> set ys" using assms(1) p by auto
    then have "seg (f(p \<mapsto> y)) y zs b"
      using assms(2) Cons by auto
    then show ?thesis using Cons redir [of y] by (simp add: p_def del: last.simps)
  qed
qed

text \<open>The two primitive link operations, on a list split at the place they work on.\<close>

lemma list_add_between_dlist:
  assumes d: "dlist h q (xs @ ys)" and new: "new \<notin> insert q (set (xs @ ys))" "h new \<noteq> None"
  obtains h' where "list_add_between h new (last (q # xs)) (hd (ys @ [q])) = Inr h'"
    "dlist h' q (xs @ new # ys)"
    "\<And>m. m \<notin> insert new (insert q (set (xs @ ys))) \<Longrightarrow> h' m = h m"
proof -
  define p where "p = last (q # xs)"
  define n where "n = hd (ys @ [q])"
  have pin: "p \<in> insert q (set (xs @ ys))" "n \<in> insert q (set (xs @ ys))"
    using last_Cons_in [of q xs] hd_snoc_in [of ys q] by (auto simp: p_def n_def)
  then have "h p \<noteq> None" "h n \<noteq> None"
    using dlist_dom [OF d] by blast+
  have neq: "new \<noteq> p" "new \<noteq> n" using pin new(1) by auto
  obtain h1 where h1: "set_prev h n new = Inr h1" "prevs h1 = (prevs h)(n \<mapsto> new)"
    "nexts h1 = nexts h" "\<And>m. m \<noteq> n \<Longrightarrow> h1 m = h m" "h1 n \<noteq> None"
    using set_prev_ok [of h n] \<open>h n \<noteq> None\<close> by metis
  have "h1 new \<noteq> None" using new(2) neq h1(4) by simp
  then obtain h2 where h2: "set_next h1 new n = Inr h2" "nexts h2 = (nexts h1)(new \<mapsto> n)"
    "prevs h2 = prevs h1" "\<And>m. m \<noteq> new \<Longrightarrow> h2 m = h1 m" "h2 new \<noteq> None"
    using set_next_ok by metis
  from h2(5) obtain h3 where h3: "set_prev h2 new p = Inr h3" "prevs h3 = (prevs h2)(new \<mapsto> p)"
    "nexts h3 = nexts h2" "\<And>m. m \<noteq> new \<Longrightarrow> h3 m = h2 m"
    using set_prev_ok by metis
  have "h3 p \<noteq> None"
    using h3(4) h2(4) h1(4,5) neq \<open>h p \<noteq> None\<close> by metis
  then obtain h4 where h4: "set_next h3 p new = Inr h4" "nexts h4 = (nexts h3)(p \<mapsto> new)"
    "prevs h4 = prevs h3" "\<And>m. m \<noteq> p \<Longrightarrow> h4 m = h3 m"
    using set_next_ok by metis
  have "list_add_between h new p n = Inr h4"
    by (simp add: list_add_between_def h1(1) h2(1) h3(1) h4(1))
  moreover have "dlist h4 q (xs @ new # ys)"
  proof -
    have "distinct (q # xs @ ys)" "seg (nexts h) q (xs @ ys) q" "seg (prevs h) q (rev ys @ rev xs) q"
      using d by (auto simp: dlist_def)
    moreover have "nexts h4 = (nexts h)(new \<mapsto> n, p \<mapsto> new)"
      by (simp add: h4(2) h3(3) h2(2) h1(3))
    moreover have "prevs h4 = (prevs h)(new \<mapsto> hd (rev xs @ [q]), last (q # rev ys) \<mapsto> new)"
      unfolding h4(3) h3(2) h2(3) h1(2) hd_snoc_rev last_Cons_rev p_def [symmetric] n_def [symmetric]
      using neq by (intro fun_upd_twist) simp
    ultimately have "seg (nexts h4) q (xs @ new # ys) q" "seg (prevs h4) q (rev ys @ new # rev xs) q"
      using new(1) seg_insert [of q xs ys "nexts h" q new]
        seg_insert [of q "rev ys" "rev xs" "prevs h" q new]
      unfolding p_def n_def by (auto simp del: seg_append last.simps)
    then show ?thesis
      using d new(1) by (auto simp: dlist_def)
  qed
  moreover have "h4 m = h m" if "m \<notin> insert new (insert q (set (xs @ ys)))" for m
  proof -
    have "m \<noteq> p" "m \<noteq> n" "m \<noteq> new" using that pin by auto
    then show ?thesis by (simp add: h4(4) h3(4) h2(4) h1(4))
  qed
  ultimately show ?thesis unfolding p_def n_def by (rule that)
qed

lemma list_del_between_dlist:
  assumes d: "dlist h q (xs @ x # ys)"
  obtains h' where "list_del_between h (last (q # xs)) (hd (ys @ [q])) = Inr h'"
    "dlist h' q (xs @ ys)" "h' x = h x"
    "\<And>m. m \<notin> insert q (set (xs @ ys)) \<Longrightarrow> h' m = h m"
proof -
  define p where "p = last (q # xs)"
  define n where "n = hd (ys @ [q])"
  have pin: "p \<in> insert q (set (xs @ ys))" "n \<in> insert q (set (xs @ ys))"
    using last_Cons_in [of q xs] hd_snoc_in [of ys q] by (auto simp: p_def n_def)
  then have "h p \<noteq> None" "h n \<noteq> None"
    using dlist_dom [OF d] by force+
  obtain h1 where h1: "set_prev h n p = Inr h1" "prevs h1 = (prevs h)(n \<mapsto> p)"
    "nexts h1 = nexts h" "\<And>m. m \<noteq> n \<Longrightarrow> h1 m = h m" "h1 n \<noteq> None"
    using set_prev_ok [of h n] \<open>h n \<noteq> None\<close> by metis
  have "h1 p \<noteq> None" using \<open>h p \<noteq> None\<close> h1(4,5) by metis
  then obtain h2 where h2: "set_next h1 p n = Inr h2" "nexts h2 = (nexts h1)(p \<mapsto> n)"
    "prevs h2 = prevs h1" "\<And>m. m \<noteq> p \<Longrightarrow> h2 m = h1 m"
    using set_next_ok by metis
  have frame: "h2 m = h m" if "m \<notin> insert q (set (xs @ ys))" for m
  proof -
    have "m \<noteq> p" "m \<noteq> n" using that pin by auto
    then show ?thesis by (simp add: h2(4) h1(4))
  qed
  have dist: "distinct (q # xs @ x # ys)" "distinct (q # rev ys @ x # rev xs)"
    using d by (auto simp: dlist_def)
  have seg: "seg (nexts h) q (xs @ x # ys) q" "seg (prevs h) q (rev ys @ x # rev xs) q"
    using d by (auto simp: dlist_def)
  have "seg (nexts h2) q (xs @ ys) q"
    unfolding h2(2) h1(3) p_def n_def by (rule seg_delete [OF dist(1) seg(1)])
  moreover have "seg (prevs h2) q (rev ys @ rev xs) q"
    using seg_delete [OF dist(2) seg(2)]
    by (simp only: h2(3) h1(2) hd_snoc_rev last_Cons_rev p_def n_def)
  ultimately have "dlist h2 q (xs @ ys)"
    using dist(1) by (auto simp: dlist_def)
  moreover have "list_del_between h p n = Inr h2"
    by (simp add: list_del_between_def h1(1) h2(1))
  moreover have "h2 x = h x"
    by (rule frame) (use dist(1) in auto)
  ultimately show ?thesis using frame unfolding p_def n_def by (metis that)
qed

lemma dlist_neighbours:
  assumes "dlist h q (xs @ x # ys)"
  shows "nexts h x = Some (hd (ys @ [q]))" and "prevs h x = Some (last (q # xs))"
  using assms by (auto simp: dlist_def dest: seg_hd simp: hd_snoc_rev)


subsection \<open>The operations on lists\<close>

lemma list_add_dlist:
  assumes "dlist h q xs" and "new \<notin> insert q (set xs)" and "h new \<noteq> None"
  shows "sat {} (list_add h new q)
    (\<lambda>h'. dlist h' q (new # xs) \<and> (\<forall>m. m \<notin> insert new (insert q (set xs)) \<longrightarrow> h' m = h m))"
proof -
  have "nexts h q = Some (hd (xs @ [q]))" using assms(1) by (auto simp: dlist_def dest: seg_hd)
  then have "get_next h q = Inr (hd (xs @ [q]))" by (simp add: get_next_Some)
  with assms list_add_between_dlist [of h q "[]" xs new] show ?thesis
    by (auto simp: list_add_def sat_total)
qed

lemma list_add_tail_dlist:
  assumes "dlist h q xs" and "new \<notin> insert q (set xs)" and "h new \<noteq> None"
  shows "sat {} (list_add_tail h new q)
    (\<lambda>h'. dlist h' q (xs @ [new]) \<and> (\<forall>m. m \<notin> insert new (insert q (set xs)) \<longrightarrow> h' m = h m))"
proof -
  have "prevs h q = Some (last (q # xs))"
    using assms(1) by (auto simp: dlist_def hd_snoc_rev dest: seg_hd)
  then have "get_prev h q = Inr (last (q # xs))" by (simp add: get_prev_Some)
  with assms list_add_between_dlist [of h q xs "[]" new] show ?thesis
    by (auto simp: list_add_tail_def sat_total simp del: last.simps)
qed

lemma list_del_entry_dlist:
  assumes "dlist h q (xs @ x # ys)"
  shows "sat {} (list_del_entry h x)
    (\<lambda>h'. dlist h' q (xs @ ys) \<and> h' x = h x \<and> (\<forall>m. m \<notin> insert q (set (xs @ ys)) \<longrightarrow> h' m = h m))"
proof -
  have "get_next h x = Inr (hd (ys @ [q]))" "get_prev h x = Inr (last (q # xs))"
    using dlist_neighbours [OF assms] by (simp_all add: get_next_Some get_prev_Some)
  then show ?thesis
    using list_del_between_dlist [OF assms] unfolding list_del_entry_def sat_total
    by (metis rbind_simps(2))
qed

lemma list_del_init_dlist:
  assumes "dlist h q (xs @ x # ys)"
  shows "sat {} (list_del_init h x)
    (\<lambda>h'. dlist h' q (xs @ ys) \<and> dlist h' x [] \<and>
      (\<forall>m. m \<notin> insert x (insert q (set (xs @ ys))) \<longrightarrow> h' m = h m))"
proof -
  have x: "x \<notin> insert q (set (xs @ ys))" using assms by (auto simp: dlist_def)
  have *: "dlist (INIT_LIST_HEAD h' x) q (xs @ ys)" if "dlist h' q (xs @ ys)" for h'
    using that x by (simp add: INIT_LIST_HEAD_def)
  show ?thesis
    unfolding list_del_init_def sat_rbind
    by (rule sat_mono [OF list_del_entry_dlist [OF assms]])
      (use * in \<open>auto simp: dlist_init INIT_LIST_HEAD_def dlist_Nil_iff\<close>)
qed

lemma list_del_dlist:
  assumes "dlist h q (xs @ x # ys)"
  shows "sat {} (list_del h x)
    (\<lambda>h'. dlist h' q (xs @ ys) \<and> h' x = Some \<lparr>lh_next = LIST_POISON1, lh_prev = LIST_POISON2\<rparr> \<and>
      (\<forall>m. m \<notin> insert x (insert q (set (xs @ ys))) \<longrightarrow> h' m = h m))"
proof -
  have x: "x \<notin> insert q (set (xs @ ys))" using assms by (auto simp: dlist_def)
  obtain l where l: "h x = Some l" using dlist_dom [OF assms, of x] by auto
  have entry: "get_next h x = Inr (hd (ys @ [q]))" "get_prev h x = Inr (last (q # xs))"
    using dlist_neighbours [OF assms] by (simp_all add: get_next_Some get_prev_Some)
  obtain h' where h': "list_del_between h (last (q # xs)) (hd (ys @ [q])) = Inr h'"
    "dlist h' q (xs @ ys)" "h' x = h x" "\<And>m. m \<notin> insert q (set (xs @ ys)) \<Longrightarrow> h' m = h m"
    by (rule list_del_between_dlist [OF assms]) blast
  let ?h = "h'(x \<mapsto> \<lparr>lh_next = LIST_POISON1, lh_prev = LIST_POISON2\<rparr>)"
  have "dlist ?h q (xs @ ys)"
    using h'(2) x by simp
  moreover have "list_del h x = Inr ?h"
    using h'(1,3) l by (cases l) (simp add: list_del_def entry set_next_def set_prev_def del: last.simps)
  ultimately show ?thesis using h'(4) by (auto simp: sat_total)
qed

lemma list_empty_dlist: "dlist h q xs \<Longrightarrow> list_empty h q = Inr (xs = [])"
proof -
  assume d: "dlist h q xs"
  then have "get_next h q = Inr (hd (xs @ [q]))"
    by (auto simp: get_next_Some dlist_def dest: seg_hd)
  with d show ?thesis by (cases xs) (auto simp: list_empty_def dlist_def)
qed

lemma list_walk_seg:
  "seg (nexts h) x xs q \<Longrightarrow> q \<notin> insert x (set xs) \<Longrightarrow> length xs < fuel
   \<Longrightarrow> list_walk fuel h q x = Inr (x # xs)"
proof (induction xs arbitrary: x fuel)
  case Nil
  then show ?case
    by (subst list_walk.simps) (auto simp: get_next_Some [symmetric] list_walk.simps [of _ h q q])
next
  case (Cons y ys)
  then have "list_walk (fuel - 1) h q y = Inr (y # ys)" by (intro Cons.IH) auto
  with Cons.prems show ?case
    by (subst list_walk.simps) (auto simp: get_next_Some [symmetric])
qed

lemma list_for_each_dlist:
  assumes "dlist h q xs" and "length xs \<le> list_bound"
  shows "list_for_each h q = Inr xs"
proof (cases xs)
  case Nil
  with assms show ?thesis
    by (auto simp: list_for_each_def dlist_def get_next_Some [symmetric] list_walk.simps [of _ h q q])
next
  case (Cons x ys)
  with assms have "get_next h q = Inr x" "list_walk list_bound h q x = Inr (x # ys)"
    by (auto simp: dlist_def get_next_Some intro!: list_walk_seg)
  with Cons show ?thesis by (simp add: list_for_each_def)
qed


text \<open>
  Splicing the elements of one list in front of those of another. The nodes of the source
  list keep their links, but its head still points at them: it is not a list any more.
\<close>

lemma seg_splice:
  assumes "distinct (b # us @ xs @ vs)" and "xs \<noteq> []" and "a \<notin> set xs"
    and "seg f b (us @ vs) b" and "seg f a xs a"
  shows "seg (f(last (b # us) \<mapsto> hd xs, last xs \<mapsto> hd (vs @ [b]))) b (us @ xs @ vs) b"
proof -
  obtain x zs where xs: "xs = x # zs" using assms(2) by (cases xs) auto
  define p l n where "p = last (b # us)" and "l = last xs" and "n = hd (vs @ [b])"
  have "p \<in> insert b (set us)" "l \<in> set xs"
    using last_Cons_in [of b us] assms(2) by (auto simp: p_def l_def)
  then have pl: "p \<notin> set (xs @ vs)" "l \<notin> insert b (set (us @ vs))" "p \<noteq> l"
    using assms(1) by auto
  let ?g = "f(p \<mapsto> x, l \<mapsto> n)"
  have "seg f b us n" using assms(4) by (cases vs) (auto simp: n_def)
  then have "seg (f(p \<mapsto> x)) b us x"
    unfolding p_def using assms(1) by (intro seg_redirect) auto
  then have 1: "seg ?g b us x" using pl by simp
  have "seg f x zs a" using assms(5) xs by simp
  then have "seg (f(last (x # zs) \<mapsto> n)) x zs n"
    using assms(1) xs by (intro seg_redirect) auto
  then have "seg ((f(l \<mapsto> n))(p \<mapsto> x)) x zs n"
    using pl xs by (simp add: l_def)
  then have 2: "seg ?g x zs n" using pl(3) by (simp add: fun_upd_twist)
  have 3: "seg ?g v ws b" if "vs = v # ws" for v ws
    using assms(4) pl that by auto
  have "seg ?g b (us @ x # zs @ vs) b"
    using 1 2 3 by (cases vs) (auto simp: n_def)
  then show ?thesis by (simp only: xs p_def l_def n_def append_Cons list.sel)
qed

lemma list_splice_dlist:
  assumes "dlist h q1 xs" and "dlist h q2 ys" and "insert q1 (set xs) \<inter> insert q2 (set ys) = {}"
  shows "sat {} (list_splice h q1 q2)
    (\<lambda>h'. dlist h' q2 (xs @ ys) \<and> (\<forall>m. m \<notin> insert q2 (set (xs @ ys)) \<longrightarrow> h' m = h m))"
proof (cases "xs = []")
  case True
  with assms show ?thesis by (simp add: list_splice_def list_empty_dlist)
next
  case False
  define f l n where "f = hd xs" and "l = last xs" and "n = hd (ys @ [q2])"
  have in_xs: "f \<in> set xs" "l \<in> set xs" "n \<in> insert q2 (set ys)"
    using False hd_snoc_in [of ys q2] by (auto simp: f_def l_def n_def)
  then have neq: "f \<noteq> q2" "f \<noteq> n" "l \<noteq> q2" "l \<noteq> n" "f \<noteq> q1" "l \<noteq> q1" using assms(1,3)
    by (auto simp: dlist_def)
  have live: "h f \<noteq> None" "h l \<noteq> None" "h q2 \<noteq> None" "h n \<noteq> None"
    using in_xs dlist_dom [OF assms(1)] dlist_dom [OF assms(2)] by force+
  have ptrs: "get_next h q1 = Inr f" "get_prev h q1 = Inr l" "get_next h q2 = Inr n"
    using assms(1,2) False
    by (auto simp: get_next_Some get_prev_Some dlist_def f_def l_def n_def hd_snoc_rev dest!: seg_hd)
  obtain h1 where h1: "set_prev h f q2 = Inr h1" "prevs h1 = (prevs h)(f \<mapsto> q2)" "nexts h1 = nexts h"
    "\<And>m. m \<noteq> f \<Longrightarrow> h1 m = h m" "h1 f \<noteq> None"
    using set_prev_ok [of h f] live by metis
  have "h1 q2 \<noteq> None" using live neq h1(4) by metis
  then obtain h2 where h2: "set_next h1 q2 f = Inr h2" "nexts h2 = (nexts h1)(q2 \<mapsto> f)"
    "prevs h2 = prevs h1" "\<And>m. m \<noteq> q2 \<Longrightarrow> h2 m = h1 m" "h2 q2 \<noteq> None"
    using set_next_ok [of h1 q2] by metis
  have "h2 l \<noteq> None" using live neq h1(4,5) h2(4) by metis
  then obtain h3 where h3: "set_next h2 l n = Inr h3" "nexts h3 = (nexts h2)(l \<mapsto> n)"
    "prevs h3 = prevs h2" "\<And>m. m \<noteq> l \<Longrightarrow> h3 m = h2 m"
    using set_next_ok [of h2 l] by metis
  have "h3 n \<noteq> None" using live neq h1(4) h2(4,5) h3(4) by metis
  then obtain h4 where h4: "set_prev h3 n l = Inr h4" "prevs h4 = (prevs h3)(n \<mapsto> l)"
    "nexts h4 = nexts h3" "\<And>m. m \<noteq> n \<Longrightarrow> h4 m = h3 m"
    using set_prev_ok [of h3 n] by metis
  have "list_splice h q1 q2 = Inr h4"
    using False by (simp add: list_splice_def list_splice_between_def list_empty_dlist [OF assms(1)]
        ptrs h1(1) h2(1) h3(1) h4(1))
  moreover have "seg (nexts h4) q2 ([] @ xs @ ys) q2"
    using seg_splice [of q2 "[]" xs ys q1 "nexts h"] assms False
    unfolding h4(3) h3(2) h2(2) h1(3) f_def l_def n_def by (auto simp: dlist_def)
  moreover have "seg (prevs h4) q2 (rev ys @ rev xs @ []) q2"
  proof -
    have eq: "prevs h4 = (prevs h)(last (q2 # rev ys) \<mapsto> hd (rev xs), last (rev xs) \<mapsto> hd ([] @ [q2]))"
      using neq(2) False unfolding h4(2) h3(3) h2(3) h1(2) f_def l_def n_def last_Cons_rev
      by (simp add: hd_rev last_rev fun_upd_twist)
    have "distinct (q2 # rev ys @ rev xs @ [])" "rev xs \<noteq> []" "q1 \<notin> set (rev xs)"
      "seg (prevs h) q2 (rev ys @ []) q2" "seg (prevs h) q1 (rev xs) q1"
      using assms False by (auto simp: dlist_def)
    then show ?thesis unfolding eq by (rule seg_splice)
  qed
  moreover have "distinct (q2 # xs @ ys)" using assms by (auto simp: dlist_def)
  moreover have "h4 m = h m" if "m \<notin> insert q2 (set (xs @ ys))" for m
  proof -
    have "m \<noteq> f" "m \<noteq> l" "m \<noteq> n" "m \<noteq> q2" using that in_xs by auto
    then show ?thesis by (simp add: h4(4) h3(4) h2(4) h1(4))
  qed
  ultimately show ?thesis by (auto simp: sat_total dlist_def)
qed


subsection \<open>The interface the load queues use\<close>

text \<open>
  What the code above the lists relies on: a queue with an owner node \<open>q\<close>, insertion at the
  front, removal of an element that is left ready for reinsertion, traversal; an operation on
  one queue leaves the queues with other nodes unchanged. \<open>live h x\<close> says that the node
  \<open>x\<close> may be inserted.
\<close>

locale link_queue =
  fixes repr :: "'h \<Rightarrow> 'n \<Rightarrow> 'n list \<Rightarrow> bool"
    and live :: "'h \<Rightarrow> 'n \<Rightarrow> bool"
    and add :: "'h \<Rightarrow> 'n \<Rightarrow> 'n \<Rightarrow> 'h res"
    and del :: "'h \<Rightarrow> 'n \<Rightarrow> 'h res"
    and walk :: "'h \<Rightarrow> 'n \<Rightarrow> 'n list res"
    and bound :: nat
  assumes repr_distinct: "repr h q xs \<Longrightarrow> distinct (q # xs)"
    and del_law: "repr h q (xs @ x # ys) \<Longrightarrow>
      sat {} (del h x) (\<lambda>h'. repr h' q (xs @ ys) \<and> live h' x \<and>
        (\<forall>p zs. repr h p zs \<longrightarrow> insert p (set zs) \<inter> insert q (set (xs @ x # ys)) = {} \<longrightarrow> repr h' p zs))"
    and add_law: "repr h q xs \<Longrightarrow> live h x \<Longrightarrow> x \<notin> insert q (set xs) \<Longrightarrow>
      sat {} (add h x q) (\<lambda>h'. repr h' q (x # xs) \<and>
        (\<forall>p zs. repr h p zs \<longrightarrow> insert p (set zs) \<inter> insert x (insert q (set xs)) = {} \<longrightarrow> repr h' p zs))"
    and walk_law: "repr h q xs \<Longrightarrow> length xs \<le> bound \<Longrightarrow> walk h q = Inr xs"
begin

lemma repr_unique:
  assumes "repr h q xs" "repr h q ys" "length xs \<le> bound" "length ys \<le> bound"
  shows "xs = ys"
  using walk_law [OF assms(1,3)] walk_law [OF assms(2,4)] by simp

text \<open>Moving one element from its queue to the front of another queue.\<close>

lemma move_law:
  assumes from_q: "repr h q (xs @ x # ys)" and to_q: "repr h q' zs"
    and disj: "insert q (set (xs @ x # ys)) \<inter> insert q' (set zs) = {}"
  shows "sat {} (rbind (del h x) (\<lambda>h'. add h' x q'))
    (\<lambda>h'. repr h' q (xs @ ys) \<and> repr h' q' (x # zs) \<and>
      (\<forall>p us. repr h p us \<longrightarrow>
        insert p (set us) \<inter> (insert q (set (xs @ x # ys)) \<union> insert q' (set zs)) = {} \<longrightarrow> repr h' p us))"
proof -
  define A B where "A = insert q (set (xs @ x # ys))" and "B = insert q' (set zs)"
  have AB: "A \<inter> B = {}" using disj by (simp only: A_def B_def)
  have sub: "insert x B \<subseteq> A \<union> B" "insert q (set (xs @ ys)) \<subseteq> A - {x}" "x \<in> A"
    using repr_distinct [OF from_q] by (auto simp: A_def)
  have "sat {} (add h1 x q') (\<lambda>h'. repr h' q (xs @ ys) \<and> repr h' q' (x # zs) \<and>
      (\<forall>p us. repr h p us \<longrightarrow> insert p (set us) \<inter> (A \<union> B) = {} \<longrightarrow> repr h' p us))"
    if h1: "repr h1 q (xs @ ys)" "live h1 x"
      and frame: "\<And>p zs. repr h p zs \<Longrightarrow> insert p (set zs) \<inter> A = {} \<Longrightarrow> repr h1 p zs" for h1
  proof -
    have "repr h1 q' zs" using AB by (intro frame [OF to_q]) (auto simp: B_def)
    moreover have "x \<notin> B" using AB sub(3) by blast
    ultimately have "sat {} (add h1 x q') (\<lambda>h'. repr h' q' (x # zs) \<and>
        (\<forall>p zs. repr h1 p zs \<longrightarrow> insert p (set zs) \<inter> insert x B = {} \<longrightarrow> repr h' p zs))"
      unfolding B_def using h1(2) by (intro add_law)
    moreover have "insert q (set (xs @ ys)) \<inter> insert x B = {}" using AB sub(2) by blast
    moreover have "insert p (set us) \<inter> A = {} \<and> insert p (set us) \<inter> insert x B = {}"
      if "insert p (set us) \<inter> (A \<union> B) = {}" for p us using that sub(1) by blast
    ultimately show ?thesis using h1(1) frame by (elim sat_mono) metis
  qed
  then show ?thesis
    unfolding sat_rbind A_def [symmetric] B_def [symmetric]
    by (intro sat_mono [OF del_law [OF from_q]]) (auto simp: A_def)
qed

end

interpretation lh: link_queue dlist "\<lambda>h x. h x \<noteq> None" list_add list_del_init list_for_each list_bound
proof (unfold_locales, goal_cases)
  case (1 h q xs)
  then show ?case by (simp add: dlist_def)
next
  case (2 h q xs x ys)
  show ?case
  proof (rule sat_mono [OF list_del_init_dlist [OF 2]], elim conjE, intro conjI allI impI)
    fix h' p zs
    assume d: "dlist h' x []"
      and frame: "\<forall>m. m \<notin> insert x (insert q (set (xs @ ys))) \<longrightarrow> h' m = h m"
    from d show "h' x \<noteq> None" by (simp add: dlist_Nil_iff)
    assume "dlist h p zs" and "insert p (set zs) \<inter> insert q (set (xs @ x # ys)) = {}"
    then show "dlist h' p zs"
      using dlist_frame [of h p zs "insert x (insert q (set (xs @ ys)))" h'] frame by auto
  qed
next
  case (3 h q xs x)
  then show ?case
    by (intro sat_mono [OF list_add_dlist [OF 3(1)]]) (metis dlist_frame)+
next
  case (4 h q xs)
  then show ?case by (rule list_for_each_dlist)
qed

end
