(* ===== verification/Abtst_State.thy ===== *)
theory Abtst_State
  imports List_Head
begin

text \<open>
  The data of the program: the structs of \<^verbatim>\<open>include/*.h\<close> as records, and the whole
  state \<open>sys\<close>, which joins the program's globals \<^verbatim>\<open>env\<close> and \<^verbatim>\<open>power\<close>, the
  fields of \<^verbatim>\<open>abtst_global\<close>, the store of list heads and the outcomes of the memory
  allocations still to come.
  \<^item> A pointer to a stream is the stream's position in the array of streams; a pointer to a
    load is a pair of the load's mapping and its position in that mapping's array of loads.
    The \<^verbatim>\<open>struct list_head\<close> members of streams, loads and requests are the nodes of
    \<open>links\<close>.
  \<^item> Fixed-size C arrays are lists; their lengths belong to the well-formedness conditions
    and every access is bounds-checked.
  \<^item> Identifiers that the code compares with \<open>-1\<close> are \<open>int\<close>, quantities that the
    code adds and compares are 32-bit words.
  \<^item> Argobots handles (pools, schedulers, execution streams) are numbers, \<open>0\<close> for the null
    handle.
\<close>

definition MAX_NUMAS :: nat where "MAX_NUMAS = 8"

definition MAX_PARTITIONS :: nat where "MAX_PARTITIONS = 8"

definition MAX_MAPPINGS :: nat where "MAX_MAPPINGS = 8"

definition LOADS_PER_XSTREAM :: u32 where "LOADS_PER_XSTREAM = 32"

type_synonym abt_handle = nat

record abtst_numa =
  start_core :: u32
  end_core :: u32

record abtst_numa_stat =
  numa_used_cores :: u32
  avg_qdepth :: u32

record abtst_env =
  nr_cores :: u32
  nr_numas :: u32
  numa_info :: "abtst_numa list"
  numa_stat :: "abtst_numa_stat list"
  rebalance_enabled :: bool
  stopping :: bool

record abtst_stream_stat =
  total_qdepth :: u32
  sleep_nsec :: u32

record abtst_stream =
  rank :: u32
  used :: bool
  part_id :: int
  xstream :: abt_handle
  stream_pool :: abt_handle
  stream_sched :: abt_handle
  nr_loads :: u32
  blocking :: bool
  stat :: abtst_stream_stat

record abtst_streams =
  nr_xstreams :: u32
  init_xstreams :: u32
  max_xstreams :: u32
  stream_array :: "abtst_stream list"

record abtst_load =
  load_id :: int
  load_used :: bool
  pkt_started :: u64
  pkt_ended :: u64
  init_rank :: u32
  curr_rank :: u32
  dest_rank :: u32
  load_pool :: abt_handle
  load_sched :: abt_handle

record abtst_loads =
  loads_partition_id :: int
  loads_nr :: u32
  load_array :: "abtst_load list"

record USER_KEY_S =
  lba :: u64
  volumeId :: u64

record hash_info =
  total_buckets :: u32
  block_size :: u32
  hash_fn :: "USER_KEY_S \<Rightarrow> u64"

datatype mapping_type = MAPPING_TYPE_HASHING | MAPPING_TYPE_RANDOM

text \<open>
  The two function pointers of a mapping are always set together, from one of the two
  definitions \<^verbatim>\<open>hash_mapping\<close> and \<^verbatim>\<open>random_mapping\<close>; \<open>mapping_ops\<close> says which
  (\<open>None\<close>: both are null). The parameter is the \<^verbatim>\<open>struct hash_info\<close> behind the
  \<^verbatim>\<open>void *param\<close>, \<open>None\<close> for a null pointer.
\<close>

record abtst_mapping =
  mapping_id :: int
  mapping_partition_id :: int
  mapping_kind :: u32
  param :: "hash_info option"
  mapping_ops :: "mapping_type option"
  mapping_loads :: abtst_loads

record abtst_mappings =
  nr_mappings :: int
  mapping_array :: "abtst_mapping list"

record abtst_partition_stat =
  part_used_cores :: u32
  part_qdepth :: u32

record abtst_partition =
  partition_id :: int
  part_nr_cores :: int
  partition_cores :: "int list"

record abtst_partitions =
  nr_partitions :: int
  partition_array :: "abtst_partition list"
  partition_map :: "int list"
  numa_stats :: "abtst_partition_stat list list"
  part_stats :: "abtst_partition_stat list"

record abtst_power =
  ps_state :: "bool list"
  ps_pct :: "u32 list"
  ps_enabled :: bool
  nr_ps_numas :: int

record abtst_rebalance =
  rebalance_level :: int
  rebalance_interval :: int
  reb_lock :: int
  verbose :: int

datatype abtst_reb_req_type = REB_REQUEST_ADD_CORE | REB_REQUEST_REM_CORE

record abtst_reb_request =
  req_type :: abtst_reb_req_type
  req_core :: int

record sys =
  env :: abtst_env
  power :: abtst_power
  streams :: abtst_streams
  mappings :: abtst_mappings
  rebalance :: abtst_rebalance
  partitions :: abtst_partitions
  links :: links
  requests :: "nat \<rightharpoonup> abtst_reb_request"
  allocs :: "bool list"

subsection \<open>Access to streams and loads\<close>

definition get_stream :: "sys \<Rightarrow> nat \<Rightarrow> abtst_stream res" where
  "get_stream s k = idx (stream_array (streams s)) k"

definition upd_stream :: "sys \<Rightarrow> nat \<Rightarrow> (abtst_stream \<Rightarrow> abtst_stream) \<Rightarrow> sys res" where
  "upd_stream s k f =
     rbind (get_stream s k) (\<lambda>st.
     Inr (s\<lparr>streams := (streams s)\<lparr>stream_array := (stream_array (streams s))[k := f st]\<rparr>\<rparr>))"

definition get_load :: "sys \<Rightarrow> lptr \<Rightarrow> abtst_load res" where
  "get_load s l =
     rbind (idx (mapping_array (mappings s)) (fst l)) (\<lambda>m.
     idx (load_array (mapping_loads m)) (snd l))"

definition upd_load :: "sys \<Rightarrow> lptr \<Rightarrow> (abtst_load \<Rightarrow> abtst_load) \<Rightarrow> sys res" where
  "upd_load s l f =
     rbind (get_load s l) (\<lambda>ld.
     Inr (s\<lparr>mappings := (mappings s)\<lparr>mapping_array := (mapping_array (mappings s))[fst l :=
       (mapping_array (mappings s) ! fst l)\<lparr>mapping_loads :=
         (mapping_loads (mapping_array (mappings s) ! fst l))\<lparr>load_array :=
           (load_array (mapping_loads (mapping_array (mappings s) ! fst l)))[snd l := f ld]\<rparr>\<rparr>]\<rparr>\<rparr>))"

text \<open>
  A call of \<^verbatim>\<open>malloc\<close> or \<^verbatim>\<open>calloc\<close>: whether it returns memory is decided outside
  the program. The state holds the outcomes to come; when the list is exhausted, allocations
  succeed. Statements that hold for every state hold for every sequence of outcomes.
\<close>

definition alloc :: "sys \<Rightarrow> bool \<times> sys" where
  "alloc s = (case allocs s of [] \<Rightarrow> (True, s) | b # bs \<Rightarrow> (b, s\<lparr>allocs := bs\<rparr>))"

text \<open>The streams of a core range, as the loops \<^verbatim>\<open>for (i = start; i <= end; i++)\<close> visit them.\<close>

definition core_range :: "u32 \<Rightarrow> u32 \<Rightarrow> nat list" where
  "core_range a b = [unat a..<Suc (unat b)]"

subsection \<open>Views of the state\<close>

text \<open>
  The number of streams, the stream at a position, a load, and the queue of loads of a
  stream as a list, used in specifications.
\<close>

definition n_streams :: "sys \<Rightarrow> nat" where
  "n_streams s = length (stream_array (streams s))"

definition stream_at :: "sys \<Rightarrow> nat \<Rightarrow> abtst_stream" where
  "stream_at s k = stream_array (streams s) ! k"

definition valid_load :: "sys \<Rightarrow> lptr \<Rightarrow> bool" where
  "valid_load s l \<longleftrightarrow> fst l < length (mapping_array (mappings s)) \<and>
     snd l < length (load_array (mapping_loads (mapping_array (mappings s) ! fst l)))"

definition load_at :: "sys \<Rightarrow> lptr \<Rightarrow> abtst_load" where
  "load_at s l = load_array (mapping_loads (mapping_array (mappings s) ! fst l)) ! snd l"

definition load_partition :: "sys \<Rightarrow> lptr \<Rightarrow> int" where
  "load_partition s l = mapping_partition_id (mapping_array (mappings s) ! fst l)"

definition node_load :: "node \<Rightarrow> lptr" where
  "node_load x = (case x of LoadNode l \<Rightarrow> l | _ \<Rightarrow> (0, 0))"

definition load_queue :: "sys \<Rightarrow> nat \<Rightarrow> lptr list" where
  "load_queue s k = (case list_for_each (links s) (LoadQ k) of Inl _ \<Rightarrow> [] | Inr ns \<Rightarrow> map node_load ns)"

declare split_paired_All [simp del] split_paired_Ex [simp del]

named_theorems frame \<open>what an update leaves unchanged\<close>

lemma get_stream_ok [simp]: "k < n_streams s \<Longrightarrow> get_stream s k = Inr (stream_at s k)"
  by (simp add: get_stream_def n_streams_def stream_at_def)

lemma get_stream_eq_Inr: "get_stream s k = Inr x \<longleftrightarrow> k < n_streams s \<and> x = stream_at s k"
  by (auto simp: get_stream_def n_streams_def stream_at_def idx_def)

lemma get_load_ok [simp]: "valid_load s l \<Longrightarrow> get_load s l = Inr (load_at s l)"
  by (simp add: get_load_def valid_load_def load_at_def)

definition set_stream :: "sys \<Rightarrow> nat \<Rightarrow> (abtst_stream \<Rightarrow> abtst_stream) \<Rightarrow> sys" where
  "set_stream s k f =
     s\<lparr>streams := (streams s)\<lparr>stream_array := (stream_array (streams s))[k := f (stream_at s k)]\<rparr>\<rparr>"

lemma upd_stream_ok [simp]: "k < n_streams s \<Longrightarrow> upd_stream s k f = Inr (set_stream s k f)"
  by (simp add: upd_stream_def set_stream_def)

lemma set_stream_frame [simp, frame]:
  "env (set_stream s k f) = env s"
  "power (set_stream s k f) = power s"
  "mappings (set_stream s k f) = mappings s"
  "rebalance (set_stream s k f) = rebalance s"
  "partitions (set_stream s k f) = partitions s"
  "links (set_stream s k f) = links s"
  "requests (set_stream s k f) = requests s"
  "allocs (set_stream s k f) = allocs s"
  "n_streams (set_stream s k f) = n_streams s"
  "valid_load (set_stream s k f) = valid_load s"
  "load_at (set_stream s k f) = load_at s"
  "load_partition (set_stream s k f) = load_partition s"
  "load_queue (set_stream s k f) = load_queue s"
  "max_xstreams (streams (set_stream s k f)) = max_xstreams (streams s)"
  "nr_xstreams (streams (set_stream s k f)) = nr_xstreams (streams s)"
  "init_xstreams (streams (set_stream s k f)) = init_xstreams (streams s)"
  by (simp_all add: set_stream_def n_streams_def valid_load_def load_at_def load_partition_def
      load_queue_def fun_eq_iff)

lemma stream_at_set_stream [simp]:
  "k < n_streams s \<Longrightarrow> stream_at (set_stream s k f) j = (if j = k then f (stream_at s k) else stream_at s j)"
  by (simp add: set_stream_def stream_at_def n_streams_def nth_list_update)

definition set_load :: "sys \<Rightarrow> lptr \<Rightarrow> (abtst_load \<Rightarrow> abtst_load) \<Rightarrow> sys" where
  "set_load s l f =
     s\<lparr>mappings := (mappings s)\<lparr>mapping_array := (mapping_array (mappings s))[fst l :=
       (mapping_array (mappings s) ! fst l)\<lparr>mapping_loads :=
         (mapping_loads (mapping_array (mappings s) ! fst l))\<lparr>load_array :=
           (load_array (mapping_loads (mapping_array (mappings s) ! fst l)))[snd l := f (load_at s l)]\<rparr>\<rparr>]\<rparr>\<rparr>"

lemma upd_load_ok [simp]: "valid_load s l \<Longrightarrow> upd_load s l f = Inr (set_load s l f)"
  by (simp add: upd_load_def set_load_def)

lemma set_load_frame [simp, frame]:
  "env (set_load s l f) = env s"
  "power (set_load s l f) = power s"
  "streams (set_load s l f) = streams s"
  "rebalance (set_load s l f) = rebalance s"
  "partitions (set_load s l f) = partitions s"
  "links (set_load s l f) = links s"
  "requests (set_load s l f) = requests s"
  "allocs (set_load s l f) = allocs s"
  "n_streams (set_load s l f) = n_streams s"
  "stream_at (set_load s l f) = stream_at s"
  "load_queue (set_load s l f) = load_queue s"
  by (simp_all add: set_load_def n_streams_def stream_at_def load_queue_def fun_eq_iff)

lemma valid_load_set_load [simp]: "valid_load (set_load s l f) = valid_load s"
  by (auto simp: valid_load_def set_load_def fun_eq_iff nth_update_if split: if_splits)

lemma load_partition_set_load [simp]: "load_partition (set_load s l f) k = load_partition s k"
  by (auto simp: load_partition_def set_load_def nth_update_if)

lemma load_at_set_load [simp]:
  "valid_load s l \<Longrightarrow> load_at (set_load s l f) k = (if k = l then f (load_at s l) else load_at s k)"
  by (auto simp: load_at_def set_load_def nth_list_update valid_load_def prod_eq_iff)

definition set_links :: "sys \<Rightarrow> links \<Rightarrow> sys" where
  "set_links s h = s\<lparr>links := h\<rparr>"

lemma set_links_frame [simp, frame]:
  "env (set_links s h) = env s"
  "power (set_links s h) = power s"
  "streams (set_links s h) = streams s"
  "mappings (set_links s h) = mappings s"
  "rebalance (set_links s h) = rebalance s"
  "partitions (set_links s h) = partitions s"
  "links (set_links s h) = h"
  "requests (set_links s h) = requests s"
  "allocs (set_links s h) = allocs s"
  "n_streams (set_links s h) = n_streams s"
  "stream_at (set_links s h) = stream_at s"
  "valid_load (set_links s h) = valid_load s"
  "load_at (set_links s h) = load_at s"
  "load_partition (set_links s h) = load_partition s"
  by (simp_all add: set_links_def n_streams_def stream_at_def valid_load_def load_at_def
      load_partition_def fun_eq_iff)

lemma alloc_frame:
  assumes "alloc s = (b, s')"
  shows "env s' = env s" "power s' = power s" "streams s' = streams s" "mappings s' = mappings s"
    "rebalance s' = rebalance s" "partitions s' = partitions s" "links s' = links s"
    "requests s' = requests s" "n_streams s' = n_streams s" "stream_at s' = stream_at s"
    "valid_load s' = valid_load s" "load_at s' = load_at s" "load_partition s' = load_partition s"
    "load_queue s' = load_queue s"
  using assms
  by (auto simp: alloc_def n_streams_def stream_at_def valid_load_def load_at_def
      load_partition_def load_queue_def fun_eq_iff split: list.splits)

end
