(* ===== verification/Argobots.thy ===== *)
theory Argobots
  imports Abtst_State
begin

text \<open>
  Argobots, the threading runtime that the program is linked with. It is not part of the
  sources: the operations the program calls are the fields of a record that every definition
  which uses them takes as an argument, over a runtime state of any type. An operation that
  reports an error returns its code, \<open>0\<close> for success; one that writes a handle through a
  pointer returns the value of the handle after the call. Laws that the proofs need are
  hypotheses of the lemmas.

  The scheduler set-up of \<^verbatim>\<open>src/sched/sched.c\<close>, a thin layer over these calls, is here
  too.
\<close>

text \<open>
  What the pointer of a scheduler configuration refers to, and the two scheduler definitions of
  \<^verbatim>\<open>base.c\<close> and \<^verbatim>\<open>sub.c\<close>.
\<close>

datatype owner = OwnStream nat | OwnLoad lptr

datatype sched_def = abtst_sched_def | abtst_sub_sched_def

type_synonym 'r call = "'r \<Rightarrow> int \<times> 'r"
type_synonym 'r create = "'r \<Rightarrow> int \<times> abt_handle \<times> 'r"

record 'r argobots =
  ABT_pool_create_basic :: "'r create"
  ABT_pool_add_sched :: "abt_handle \<Rightarrow> abt_handle \<Rightarrow> 'r call"
  ABT_sched_config_create :: "u32 \<Rightarrow> owner \<Rightarrow> 'r create"
  ABT_sched_config_free :: "abt_handle \<Rightarrow> 'r \<Rightarrow> 'r"
  ABT_sched_create :: "sched_def \<Rightarrow> abt_handle \<Rightarrow> abt_handle \<Rightarrow> 'r create"
  ABT_sched_free :: "abt_handle \<Rightarrow> 'r create"
  ABT_xstream_self :: "'r create"
  ABT_xstream_get_main_pools :: "abt_handle \<Rightarrow> 'r create"
  ABT_xstream_create_with_rank :: "abt_handle \<Rightarrow> u32 \<Rightarrow> 'r create"
  ABT_xstream_join :: "abt_handle \<Rightarrow> 'r call"
  ABT_xstream_free :: "abt_handle \<Rightarrow> 'r create"

text \<open>
  \<^verbatim>\<open>abtst_init_sched\<close> and \<^verbatim>\<open>abtst_init_sub_sched\<close>; \<open>sched\<close> is the handle before the
  call, which an early return leaves as it is.
\<close>

definition abtst_init_sched :: "'r argobots \<Rightarrow> abt_handle \<Rightarrow> abt_handle \<Rightarrow> nat \<Rightarrow> 'r create" where
  "abtst_init_sched A sched pool stream r =
     (case ABT_sched_config_create A 10 (OwnStream stream) r of (ret, config, r) \<Rightarrow>
      if ret \<noteq> 0 then (-1, sched, r)
      else case ABT_sched_create A abtst_sched_def pool config r of (ret, sched, r) \<Rightarrow>
        if ret \<noteq> 0 then (-1, sched, ABT_sched_config_free A config r)
        else (0, sched, ABT_sched_config_free A config r))"

definition abtst_free_sched :: "'r argobots \<Rightarrow> abt_handle \<Rightarrow> 'r \<Rightarrow> abt_handle \<times> 'r" where
  "abtst_free_sched A sched r = (case ABT_sched_free A sched r of (ret, sched, r) \<Rightarrow> (sched, r))"

definition abtst_init_sub_sched :: "'r argobots \<Rightarrow> abt_handle \<Rightarrow> abt_handle \<Rightarrow> lptr \<Rightarrow> 'r create" where
  "abtst_init_sub_sched A sched pool load r =
     (case ABT_sched_config_create A 10 (OwnLoad load) r of (ret, config, r) \<Rightarrow>
      if ret \<noteq> 0 then (-1, sched, r)
      else case ABT_sched_create A abtst_sub_sched_def pool config r of (ret, sched, r) \<Rightarrow>
        (ret, sched, ABT_sched_config_free A config r))"

definition abtst_free_sub_sched :: "'r argobots \<Rightarrow> abt_handle \<Rightarrow> 'r \<Rightarrow> abt_handle \<times> 'r" where
  "abtst_free_sub_sched A sched r = (case ABT_sched_free A sched r of (ret, sched, r) \<Rightarrow> (sched, r))"

text \<open>The hypothesis that the calls which set up pools, schedulers and streams succeed.\<close>

definition abt_succeeds :: "'r argobots \<Rightarrow> bool" where
  "abt_succeeds A \<longleftrightarrow>
     (\<forall>r. fst (ABT_pool_create_basic A r) = 0) \<and>
     (\<forall>p d r. fst (ABT_pool_add_sched A p d r) = 0) \<and>
     (\<forall>f c r. fst (ABT_sched_config_create A f c r) = 0) \<and>
     (\<forall>d p c r. fst (ABT_sched_create A d p c r) = 0) \<and>
     (\<forall>r. fst (ABT_xstream_self A r) = 0) \<and>
     (\<forall>x r. fst (ABT_xstream_get_main_pools A x r) = 0) \<and>
     (\<forall>d k r. fst (ABT_xstream_create_with_rank A d k r) = 0)"

lemma abt_succeedsD:
  assumes "abt_succeeds A"
  shows "\<exists>h r'. ABT_pool_create_basic A r = (0, h, r')"
    "\<exists>r'. ABT_pool_add_sched A p d r = (0, r')"
    "\<exists>h r'. abtst_init_sched A sched p k r = (0, h, r')"
    "\<exists>h r'. abtst_init_sub_sched A sched p l r = (0, h, r')"
    "\<exists>h r'. ABT_xstream_self A r = (0, h, r')"
    "\<exists>h r'. ABT_xstream_get_main_pools A x r = (0, h, r')"
    "\<exists>h r'. ABT_xstream_create_with_rank A d q r = (0, h, r')"
proof -
  have *: "\<exists>h r'. z = (0, h, r')" if "fst z = 0" for z :: "int \<times> abt_handle \<times> 'a"
    using that by (cases z) auto
  note A = assms [unfolded abt_succeeds_def]
  show "\<exists>h r'. ABT_pool_create_basic A r = (0, h, r')" "\<exists>h r'. ABT_xstream_self A r = (0, h, r')"
    "\<exists>h r'. ABT_xstream_get_main_pools A x r = (0, h, r')"
    "\<exists>h r'. ABT_xstream_create_with_rank A d q r = (0, h, r')"
    using A by (simp_all add: *)
  show "\<exists>r'. ABT_pool_add_sched A p d r = (0, r')"
    using A by (cases "ABT_pool_add_sched A p d r") (metis fst_conv)
  have c: "\<exists>h r'. ABT_sched_config_create A f ow r = (0, h, r')"
    and s: "\<exists>h r'. ABT_sched_create A df p h0 r = (0, h, r')" for f ow r df p h0
    using A by (simp_all add: *)
  obtain h1 r1 where 1: "ABT_sched_config_create A 10 (OwnStream k) r = (0, h1, r1)" using c by blast
  obtain h2 r2 where 2: "ABT_sched_create A abtst_sched_def p h1 r1 = (0, h2, r2)" using s by blast
  show "\<exists>h r'. abtst_init_sched A sched p k r = (0, h, r')" by (simp add: abtst_init_sched_def 1 2)
  obtain h3 r3 where 3: "ABT_sched_config_create A 10 (OwnLoad l) r = (0, h3, r3)" using c by blast
  obtain h4 r4 where 4: "ABT_sched_create A abtst_sub_sched_def p h3 r3 = (0, h4, r4)" using s by blast
  show "\<exists>h r'. abtst_init_sub_sched A sched p l r = (0, h, r')" by (simp add: abtst_init_sub_sched_def 3 4)
qed

text \<open>A runtime that hands out the numbers from its state as handles.\<close>

definition counting_argobots :: "nat argobots" where
  "counting_argobots = \<lparr>
     ABT_pool_create_basic = (\<lambda>n. (0, Suc n, Suc n)),
     ABT_pool_add_sched = (\<lambda>p d n. (0, n)),
     ABT_sched_config_create = (\<lambda>f ow n. (0, Suc n, Suc n)),
     ABT_sched_config_free = (\<lambda>c n. n),
     ABT_sched_create = (\<lambda>d p c n. (0, Suc n, Suc n)),
     ABT_sched_free = (\<lambda>h n. (0, 0, n)),
     ABT_xstream_self = (\<lambda>n. (0, Suc n, Suc n)),
     ABT_xstream_get_main_pools = (\<lambda>x n. (0, Suc n, Suc n)),
     ABT_xstream_create_with_rank = (\<lambda>d k n. (0, Suc n, Suc n)),
     ABT_xstream_join = (\<lambda>h n. (0, n)),
     ABT_xstream_free = (\<lambda>h n. (0, 0, n))\<rparr>"

lemma counting_succeeds: "abt_succeeds counting_argobots"
  by (simp add: abt_succeeds_def counting_argobots_def)

end
