(* ===== verification/Hash_Mapping.thy ===== *)
theory Hash_Mapping
  imports Abtst_State
begin

unbundle bit_operations_syntax

text \<open>
  Keys to loads: \<^verbatim>\<open>src/mapping/hash/hash.c\<close> and \<^verbatim>\<open>src/mapping/random/random.c\<close>.
  A block address is hashed into a bucket and the buckets are divided among the loads. All
  quantities keep their C widths: the hash is 64 bits, the bucket number and the number of
  buckets per load are 32 bits. The next value of \<^verbatim>\<open>rand\<close> is a parameter.
\<close>

definition set_hash_info :: "hash_info \<Rightarrow> u32 \<Rightarrow> u32 \<Rightarrow> (USER_KEY_S \<Rightarrow> u64) \<Rightarrow> hash_info" where
  "set_hash_info hi bucketNum blockSz hashFunc =
     hi\<lparr>total_buckets := bucketNum, block_size := blockSz, hash_fn := hashFunc\<rparr>"

text \<open>The \<^verbatim>\<open>%\<close> is one of 64 bits; the result is cut to 32 bits.\<close>

definition get_hash_key :: "(USER_KEY_S \<Rightarrow> u64) \<Rightarrow> USER_KEY_S \<Rightarrow> u32 \<Rightarrow> u32 res" where
  "get_hash_key fn key bucketNum =
     (if bucketNum = 0 then Inl DivByZero else Inr (ucast (fn key mod ucast bucketNum)))"

definition hash_mapping_init :: "abtst_mapping \<Rightarrow> int" where
  "hash_mapping_init m = 0"

definition hash_mapping_to_load :: "abtst_mapping \<Rightarrow> abtst_loads \<Rightarrow> USER_KEY_S \<Rightarrow> u32 res" where
  "hash_mapping_to_load m loads key =
     rbind (case param m of None \<Rightarrow> Inl InvalidPtr | Some hi \<Rightarrow> Inr hi) (\<lambda>hi.
     if block_size hi = 0 then Inl DivByZero
     else
       let user_key = \<lparr>lba = (lba key div ucast (block_size hi)) * ucast (block_size hi), volumeId = volumeId key\<rparr> in
       rbind (get_hash_key (hash_fn hi) user_key (total_buckets hi)) (\<lambda>hash.
       rbind (udiv (total_buckets hi + loads_nr loads - 1) (loads_nr loads)) (\<lambda>buckets_per_loads.
       udiv hash buckets_per_loads)))"

definition wang_mix :: "u64 \<Rightarrow> u64" where
  "wang_mix k0 =
     (let k1 = NOT k0 + push_bit 21 k0;
          k2 = k1 XOR drop_bit 24 k1;
          k3 = (k2 + push_bit 3 k2) + push_bit 8 k2;
          k4 = k3 XOR drop_bit 14 k3;
          k5 = (k4 + push_bit 2 k4) + push_bit 4 k4;
          k6 = k5 XOR drop_bit 28 k5
      in k6 + push_bit 31 k6)"

definition abtst_hash_func :: "USER_KEY_S \<Rightarrow> u64" where
  "abtst_hash_func key = wang_mix (drop_bit 9 (lba key)) + volumeId key"

definition random_mapping_init :: "abtst_mapping \<Rightarrow> int" where
  "random_mapping_init m = 0"

text \<open>\<open>r\<close> is the value that \<^verbatim>\<open>rand\<close> returns, a non-negative \<^verbatim>\<open>int\<close>.\<close>

definition random_mapping_to_load :: "u32 \<Rightarrow> abtst_mapping \<Rightarrow> abtst_loads \<Rightarrow> USER_KEY_S \<Rightarrow> u32 res" where
  "random_mapping_to_load r m loads key =
     (if loads_nr loads = 0 then Inl DivByZero else Inr (r mod loads_nr loads))"

subsection \<open>The mix function is a permutation\<close>

text \<open>Multiplication by an odd constant has an inverse; \<open>x XOR (x >> n)\<close> determines \<open>x\<close>.\<close>

lemma mult_inv_cancel:
  fixes x y :: u64
  assumes "c * x = c * y" and "d * c = 1"
  shows "x = y"
proof -
  have "d * c * x = d * c * y" using assms(1) by (simp only: mult.assoc)
  then show ?thesis by (simp only: assms(2) mult_1)
qed

lemma xor_eq_0:
  fixes x y :: u64
  assumes "x XOR y = 0"
  shows "x = y"
proof -
  have "x = (x XOR y) XOR y" by (simp add: xor.assoc)
  then show ?thesis by (simp add: assms)
qed

lemma xor_shift_cancel:
  fixes x y :: u64
  assumes "x XOR drop_bit n x = y XOR drop_bit n y" and n: "0 < n"
  shows "x = y"
proof -
  let ?z = "x XOR y"
  have "?z XOR drop_bit n ?z = (x XOR drop_bit n x) XOR (y XOR drop_bit n y)"
    by (simp add: drop_bit_xor ac_simps)
  then have "?z XOR drop_bit n ?z = 0" using assms(1) by simp
  then have "?z = drop_bit n ?z" by (rule xor_eq_0)
  from arg_cong [OF this, of unat] have "unat ?z = drop_bit n (unat ?z)" by (simp only: unat_drop_bit_eq)
  then have "unat ?z = unat ?z div 2 ^ n" by (simp only: drop_bit_eq_div)
  moreover have "unat ?z div 2 ^ n < unat ?z" if "unat ?z \<noteq> 0"
    using that one_less_power [of "2::nat" n] n by (intro div_less_dividend) auto
  ultimately have "unat ?z = 0" by linarith
  then have "?z = 0" by (simp only: unat_eq_zero)
  then show ?thesis by (rule xor_eq_0)
qed

lemma wang_steps:
  fixes k :: u64
  shows "NOT k + push_bit 21 k = 2097151 * k - 1"
    "(k + push_bit 3 k) + push_bit 8 k = 265 * k"
    "(k + push_bit 2 k) + push_bit 4 k = 21 * k"
    "k + push_bit 31 k = 2147483649 * k"
  by (simp_all add: push_bit_eq_mult not_eq_complement algebra_simps)

lemma odd_inverses:
  "(9223367638806167551::u64) * 2097151 = 1" "(15244667743933553977::u64) * 265 = 1" "(14933078535860113213::u64) * 21 = 1" "(4611686016279904257::u64) * 2147483649 = 1"
  by simp_all

lemma diff_1_cancel: "(a::u64) - 1 = b - 1 \<Longrightarrow> a = b"
  by simp

lemma wang_mix_inj: "wang_mix x = wang_mix y \<Longrightarrow> x = y"
  unfolding wang_mix_def Let_def wang_steps
  by (drule mult_inv_cancel, rule odd_inverses(4), drule xor_shift_cancel, simp,
      drule mult_inv_cancel, rule odd_inverses(3), drule xor_shift_cancel, simp,
      drule mult_inv_cancel, rule odd_inverses(2), drule xor_shift_cancel, simp)
    (drule diff_1_cancel, drule mult_inv_cancel, rule odd_inverses(1))

subsection \<open>Keys to loads\<close>

lemma ceil_div_ok:
  assumes "0 < n" "0 < t" "t + n \<le> 2 ^ 32" "unat T = t" "unat N = n"
  shows "unat ((T + N - 1) div N :: u32) = (t + n - 1) div n" "0 < (t + n - 1) div n"
proof -
  have 1: "unat (T + N - 1) = t + n - 1"
  proof -
    have "T = of_nat t" "N = of_nat n" using assms(4,5) by auto
    then have "T + N - 1 = of_nat (t + n - 1)" using assms(1) by (simp add: of_nat_diff)
    then have "unat (T + N - 1) = (t + n - 1) mod 2 ^ 32" by (simp only: unat_of_nat) simp
    then show ?thesis using assms(3) by simp
  qed
  then show "unat ((T + N - 1) div N) = (t + n - 1) div n" using assms(5) by (simp add: unat_div_distrib)
  show "0 < (t + n - 1) div n" using assms(1,2) by (simp add: div_greater_zero_iff)
qed

text \<open>
  The reference mix, with the multiplications that the comments of the source give for its
  shifts and additions.
\<close>

definition xor_shift :: "nat \<Rightarrow> u64 \<Rightarrow> u64" where
  "xor_shift n x = x XOR drop_bit n x"

definition wang_ref :: "u64 \<Rightarrow> u64" where
  "wang_ref k = 2147483649 * xor_shift 28 (21 * xor_shift 14 (265 * xor_shift 24 ((2 ^ 21 - 1) * k - 1)))"

text \<open>The key that is hashed: the start of the block, and its bucket.\<close>

definition block_key :: "hash_info \<Rightarrow> USER_KEY_S \<Rightarrow> USER_KEY_S" where
  "block_key hi key = \<lparr>lba = lba key div ucast (block_size hi) * ucast (block_size hi), volumeId = volumeId key\<rparr>"

definition key_bucket :: "hash_info \<Rightarrow> USER_KEY_S \<Rightarrow> nat" where
  "key_bucket hi key = unat (hash_fn hi (block_key hi key)) mod unat (total_buckets hi)"

lemma unat_ucast_up: "unat (ucast (w :: u32) :: u64) = unat w"
  using unsigned_less [of w, where ?'a = nat] by (simp add: unsigned_ucast_eq take_bit_nat_eq_self)

lemma unat_ucast_down: "unat w < 2 ^ 32 \<Longrightarrow> unat (ucast (w :: u64) :: u32) = unat w"
  by (simp add: unsigned_ucast_eq take_bit_nat_eq_self)

lemma get_hash_key_bucket:
  assumes "total_buckets hi \<noteq> 0"
  shows "\<exists>h. get_hash_key (hash_fn hi) (block_key hi key) (total_buckets hi) = Inr h \<and> unat h = key_bucket hi key"
proof -
  let ?w = "hash_fn hi (block_key hi key) mod ucast (total_buckets hi)"
  have w: "unat ?w = key_bucket hi key"
    by (simp only: key_bucket_def unat_mod_distrib unat_ucast_up)
  have "key_bucket hi key < unat (total_buckets hi)"
    using assms by (simp add: key_bucket_def unat_gt_0)
  then have "key_bucket hi key < 2 ^ 32" using unsigned_less [of "total_buckets hi", where ?'a = nat] by simp
  then have "unat (ucast ?w :: u32) = key_bucket hi key" using w unat_ucast_down [of ?w] by (simp only:)
  then show ?thesis using assms by (simp add: get_hash_key_def)
qed

lemma div_ceil_less:
  fixes h t n :: nat
  assumes "h < t" "0 < n"
  shows "h div ((t + n - 1) div n) < n"
proof -
  let ?b = "(t + n - 1) div n"
  have "t \<le> n * ?b"
  proof -
    have "t + n - 1 = n * ?b + (t + n - 1) mod n" by simp
    moreover have "(t + n - 1) mod n \<le> n - 1" using mod_less_divisor [OF assms(2), of "t + n - 1"] by linarith
    ultimately show ?thesis using assms(2) by linarith
  qed
  then have "h < n * ?b" using assms(1) by simp
  then show ?thesis by (simp add: less_mult_imp_div_less)
qed

lemma hash_mapping_to_load_ok:
  assumes "param m = Some hi" and "block_size hi \<noteq> 0" and "total_buckets hi \<noteq> 0" and "loads_nr loads \<noteq> 0"
    and "unat (total_buckets hi) + unat (loads_nr loads) \<le> 2 ^ 32"
  shows "\<exists>r. hash_mapping_to_load m loads key = Inr r \<and> r < loads_nr loads \<and>
    unat r = key_bucket hi key div ((unat (total_buckets hi) + unat (loads_nr loads) - 1) div unat (loads_nr loads))"
proof -
  let ?t = "unat (total_buckets hi)" and ?n = "unat (loads_nr loads)"
  have pos: "0 < ?n" "0 < ?t" using assms by (simp_all add: unat_gt_0)
  obtain h where h: "get_hash_key (hash_fn hi) (block_key hi key) (total_buckets hi) = Inr h" "unat h = key_bucket hi key"
    using get_hash_key_bucket [OF assms(3)] by blast
  note ceil = ceil_div_ok [OF pos assms(5) refl refl]
  let ?b = "(total_buckets hi + loads_nr loads - 1) div loads_nr loads"
  have b: "?b \<noteq> 0" using ceil by (metis less_numeral_extra(3) unat_0)
  have r: "unat (h div ?b) = key_bucket hi key div ((?t + ?n - 1) div ?n)"
    using h(2) ceil(1) by (simp only: unat_div_distrib)
  have "key_bucket hi key < ?t" using pos by (simp add: key_bucket_def)
  then have "h div ?b < loads_nr loads"
    using r div_ceil_less [OF _ pos(1), of "key_bucket hi key" ?t] by (simp only: word_less_nat_alt)
  with r h(1) b assms(1,2,4) show ?thesis
    by (simp add: hash_mapping_to_load_def block_key_def Let_def)
qed

text \<open>
  C33: With non-zero configuration values whose sum fits 32 bits, \<^verbatim>\<open>hash_mapping_to_load\<close>
  returns a load of the mapping: the bucket of the key's block divided by the number of buckets
  per load, rounded up. Without the rounding the last buckets would be out of range.
\<close>

theorem hash_mapping_in_range:
  assumes "param m = Some hi" and "block_size hi \<noteq> 0" and "total_buckets hi \<noteq> 0" and "loads_nr loads \<noteq> 0"
    and "unat (total_buckets hi) + unat (loads_nr loads) \<le> 2 ^ 32"
  shows "\<exists>r. hash_mapping_to_load m loads key = Inr r \<and> r < loads_nr loads \<and>
    unat r = key_bucket hi key div ((unat (total_buckets hi) + unat (loads_nr loads) - 1) div unat (loads_nr loads))"
  by (rule hash_mapping_to_load_ok [OF assms])

text \<open>A configuration with 1024 buckets and blocks of 64 KiB over 96 loads.\<close>

definition sample_hash :: hash_info where
  "sample_hash = \<lparr>total_buckets = 1024, block_size = 65536, hash_fn = abtst_hash_func\<rparr>"

definition hash_sample :: abtst_mapping where
  "hash_sample = \<lparr>mapping_id = 0, mapping_partition_id = 0, mapping_kind = 0, param = Some sample_hash,
     mapping_ops = Some MAPPING_TYPE_HASHING, mapping_loads = \<lparr>loads_partition_id = 0, loads_nr = 96, load_array = []\<rparr>\<rparr>"

theorem hash_mapping_in_range_witness:
  "\<exists>r. hash_mapping_to_load hash_sample (mapping_loads hash_sample) \<lparr>lba = 700000, volumeId = 3\<rparr> = Inr r \<and>
    r < loads_nr (mapping_loads hash_sample) \<and>
    unat r = key_bucket sample_hash \<lparr>lba = 700000, volumeId = 3\<rparr> div
      ((unat (total_buckets sample_hash) + unat (loads_nr (mapping_loads hash_sample)) - 1) div
        unat (loads_nr (mapping_loads hash_sample)))"
  by (rule hash_mapping_in_range) (simp_all add: hash_sample_def sample_hash_def)

text \<open>
  Keys of the same block and volume go to the same load, whatever the hash function:
  requests for one block are never spread over two loads.
\<close>

theorem hash_mapping_same_block:
  assumes "param m = Some hi" and "volumeId k1 = volumeId k2"
    and "lba k1 div ucast (block_size hi) = lba k2 div ucast (block_size hi)"
  shows "hash_mapping_to_load m loads k1 = hash_mapping_to_load m loads k2"
  using assms by (simp add: hash_mapping_to_load_def)

theorem hash_mapping_same_block_witness:
  "hash_mapping_to_load hash_sample (mapping_loads hash_sample) \<lparr>lba = 65536, volumeId = 1\<rparr> =
   hash_mapping_to_load hash_sample (mapping_loads hash_sample) \<lparr>lba = 70000, volumeId = 1\<rparr>"
  by (rule hash_mapping_same_block [where hi = sample_hash]) (simp_all add: hash_sample_def sample_hash_def)

text \<open>
  C34: The mix of \<^verbatim>\<open>abtst_hash_func\<close> is the composition of multiplications by the odd
  constants that its comments name and of exclusive-or shifts, modulo \<open>2\<^sup>6\<^sup>4\<close>.
\<close>

theorem abtst_hash_func_reference:
  "abtst_hash_func key = wang_ref (lba key div 512) + volumeId key"
  by (simp add: abtst_hash_func_def wang_mix_def wang_steps wang_ref_def xor_shift_def Let_def drop_bit_eq_div)

text \<open>
  C35: Within a volume the hash has no collisions between sectors of 512 addresses: it is a
  permutation of the sector numbers, so a bucket receives its keys only through the reduction
  modulo the number of buckets.
\<close>

theorem abtst_hash_func_injective:
  assumes "volumeId k1 = volumeId k2"
  shows "abtst_hash_func k1 = abtst_hash_func k2 \<longleftrightarrow> lba k1 div 512 = lba k2 div 512"
  using assms wang_mix_inj [of "drop_bit 9 (lba k1)" "drop_bit 9 (lba k2)"]
  by (auto simp: abtst_hash_func_def drop_bit_eq_div)

theorem abtst_hash_func_injective_witness:
  "abtst_hash_func \<lparr>lba = 512, volumeId = 7\<rparr> = abtst_hash_func \<lparr>lba = 1024, volumeId = 7\<rparr> \<longleftrightarrow>
    lba \<lparr>lba = 512, volumeId = 7\<rparr> div 512 = lba \<lparr>lba = 1024, volumeId = 7\<rparr> div 512"
  by (rule abtst_hash_func_injective) simp

end
