(* ===== verification/Streams.thy ===== *)
theory Streams
  imports Abtst_State
begin

text \<open>
  Streams and their queues of loads: the inline operations of \<^verbatim>\<open>include/load.h\<close> and
  \<^verbatim>\<open>include/abtst_stream.h\<close>, and the part of \<^verbatim>\<open>src/stream/stream.c\<close> that moves
  loads between streams (\<^verbatim>\<open>abtst_combine_streams\<close>, \<^verbatim>\<open>abtst_rebalance_streams\<close>)
  and keeps the queue depths (\<^verbatim>\<open>abtst_update_streams_stat\<close>,
  \<^verbatim>\<open>abtst_reset_streams_stat\<close>). The invariant \<open>wf_queues\<close> ties the links of the
  store, the counters \<^verbatim>\<open>nr_loads\<close> and the destinations of the loads together; every
  operation keeps it and moves loads without losing or duplicating one.
\<close>

subsection \<open>Loads: load.h\<close>

definition abtst_load_get_curr_rank :: "abtst_load \<Rightarrow> u32" where
  "abtst_load_get_curr_rank ld = curr_rank ld"

definition abtst_load_update_curr_rank :: "abtst_load \<Rightarrow> u32 \<Rightarrow> abtst_load" where
  "abtst_load_update_curr_rank ld r = ld\<lparr>curr_rank := r\<rparr>"

text \<open>The argument \<^verbatim>\<open>migrate\<close> is not used by the source.\<close>

definition abtst_load_set_migrating :: "abtst_load \<Rightarrow> bool \<Rightarrow> u32 \<Rightarrow> abtst_load" where
  "abtst_load_set_migrating ld migrate dest = ld\<lparr>dest_rank := dest\<rparr>"

definition abtst_load_is_migrating :: "abtst_load \<Rightarrow> bool" where
  "abtst_load_is_migrating ld \<longleftrightarrow> curr_rank ld \<noteq> dest_rank ld"

definition abtst_load_inc_started :: "abtst_load \<Rightarrow> abtst_load" where
  "abtst_load_inc_started ld = ld\<lparr>pkt_started := pkt_started ld + 1\<rparr>"

definition abtst_load_inc_ended :: "abtst_load \<Rightarrow> abtst_load" where
  "abtst_load_inc_ended ld = ld\<lparr>pkt_ended := pkt_ended ld + 1\<rparr>"

text \<open>The 64-bit difference is returned as an \<^verbatim>\<open>int\<close>: its low 32 bits.\<close>

definition abtst_get_load_size :: "abtst_load \<Rightarrow> u32" where
  "abtst_get_load_size ld =
     (if pkt_started ld > pkt_ended ld then ucast (pkt_started ld - pkt_ended ld) else 0)"

subsection \<open>Streams: abtst_stream.h\<close>

definition abtst_stream_init_stat :: "abtst_stream \<Rightarrow> abtst_stream" where
  "abtst_stream_init_stat st = st\<lparr>stat := \<lparr>total_qdepth = 0, sleep_nsec = 0\<rparr>\<rparr>"

definition abtst_stream_get_rank :: "abtst_stream \<Rightarrow> u32" where
  "abtst_stream_get_rank st = rank st"

definition abtst_stream_is_blocking :: "abtst_stream \<Rightarrow> bool" where
  "abtst_stream_is_blocking st = blocking st"

definition abtst_stream_set_blocking :: "bool \<Rightarrow> abtst_stream \<Rightarrow> abtst_stream" where
  "abtst_stream_set_blocking b st = st\<lparr>blocking := b\<rparr>"

definition abtst_stream_get_partition_id :: "abtst_stream \<Rightarrow> int" where
  "abtst_stream_get_partition_id st = part_id st"

definition abtst_stream_get_qdepth :: "abtst_stream \<Rightarrow> u32" where
  "abtst_stream_get_qdepth st = total_qdepth (stat st)"

definition abtst_stream_update_qdepth :: "u32 \<Rightarrow> abtst_stream \<Rightarrow> abtst_stream" where
  "abtst_stream_update_qdepth qd st = st\<lparr>stat := (stat st)\<lparr>total_qdepth := qd\<rparr>\<rparr>"

definition abtst_stream_get_sleep_time :: "abtst_stream \<Rightarrow> u32" where
  "abtst_stream_get_sleep_time st = sleep_nsec (stat st)"

definition abtst_stream_update_sleep_time :: "u32 \<Rightarrow> abtst_stream \<Rightarrow> abtst_stream" where
  "abtst_stream_update_sleep_time ns st = st\<lparr>stat := (stat st)\<lparr>sleep_nsec := sleep_nsec (stat st) + ns\<rparr>\<rparr>"

definition abtst_stream_reset_sleep_time :: "abtst_stream \<Rightarrow> abtst_stream" where
  "abtst_stream_reset_sleep_time st = st\<lparr>stat := (stat st)\<lparr>sleep_nsec := 0\<rparr>\<rparr>"

definition abtst_stream_set_partition_id :: "int \<Rightarrow> abtst_stream \<Rightarrow> abtst_stream" where
  "abtst_stream_set_partition_id p st = st\<lparr>part_id := p\<rparr>"

text \<open>
  The field \<^verbatim>\<open>stream\<close> of \<^verbatim>\<open>sort_param\<close> holds a pointer to a stream, or an integer
  cast to a pointer type (the identifier of a partition or a NUMA node), or the null pointer of
  memory cleared by \<^verbatim>\<open>calloc\<close>. Only the first can be dereferenced.
\<close>

datatype stream_ptr = NullStream | StreamPtr nat | IntPtr nat

record sort_param =
  ios :: u32
  sp_stream :: stream_ptr

definition deref_stream :: "stream_ptr \<Rightarrow> nat res" where
  "deref_stream p = (case p of StreamPtr k \<Rightarrow> Inr k | _ \<Rightarrow> Inl InvalidPtr)"

definition ptr_to_int :: "stream_ptr \<Rightarrow> nat res" where
  "ptr_to_int p = (case p of IntPtr n \<Rightarrow> Inr n | NullStream \<Rightarrow> Inr 0 | StreamPtr _ \<Rightarrow> Inl InvalidPtr)"

subsection \<open>Moving loads: stream.c\<close>

definition abtst_add_load_to_stream :: "sys \<Rightarrow> nat \<Rightarrow> node \<Rightarrow> sys res" where
  "abtst_add_load_to_stream s k entry =
     rbind (list_add (links s) entry (LoadQ k)) (\<lambda>h.
     upd_stream (set_links s h) k (\<lambda>st. st\<lparr>nr_loads := nr_loads st + 1\<rparr>))"

definition abtst_remove_load_from_stream :: "sys \<Rightarrow> nat \<Rightarrow> node \<Rightarrow> sys res" where
  "abtst_remove_load_from_stream s k entry =
     rbind (list_del_init (links s) entry) (\<lambda>h.
     upd_stream (set_links s h) k (\<lambda>st. st\<lparr>nr_loads := nr_loads st - 1\<rparr>))"

text \<open>
  \<^verbatim>\<open>mloads[count++] = load\<close>, into a buffer of \<open>cap\<close> pointers whose allocation succeeded
  when \<open>ok\<close>; the buffer is the list of the pointers written so far.
\<close>

definition store_load :: "bool \<Rightarrow> u32 \<Rightarrow> lptr \<Rightarrow> lptr list \<Rightarrow> lptr list res" where
  "store_load ok cap l ms =
     (if \<not> ok then Inl OutOfMemory
      else if length ms < unat cap then Inr (ms @ [l])
      else Inl OutOfBounds)"

text \<open>The body of the loop that both operations run over \<^verbatim>\<open>mloads\<close>.\<close>

definition migrate_load :: "nat \<Rightarrow> nat \<Rightarrow> lptr \<Rightarrow> sys \<Rightarrow> sys res" where
  "migrate_load from to l s =
     rbind (abtst_remove_load_from_stream s from (LoadNode l)) (\<lambda>s.
     rbind (abtst_add_load_to_stream s to (LoadNode l)) (\<lambda>s.
     rbind (get_stream s to) (\<lambda>to_st.
     upd_load s l (\<lambda>ld. abtst_load_set_migrating ld True (rank to_st)))))"

definition abtst_combine_streams :: "sys \<Rightarrow> nat \<Rightarrow> nat \<Rightarrow> (int \<times> sys) res" where
  "abtst_combine_streams s from to =
     rbind (get_stream s from) (\<lambda>from_st.
     if nr_loads from_st = 0 then Inr (0, s)
     else case alloc s of (ok, s) \<Rightarrow>
     rbind (list_for_each (links s) (LoadQ from)) (\<lambda>nodes.
     rbind (for_each (\<lambda>pos ms. rbind (list_entry_load pos) (\<lambda>l. store_load ok (nr_loads from_st) l ms))
       nodes []) (\<lambda>mloads.
     rbind (for_each (migrate_load from to) mloads s) (\<lambda>s.
     rbind (get_stream s from) (\<lambda>from_st.
     rbind (get_stream s to) (\<lambda>to_st.
     rbind (upd_stream s to (abtst_stream_update_qdepth
       (abtst_stream_get_qdepth from_st + abtst_stream_get_qdepth to_st))) (\<lambda>s.
     rbind (upd_stream s from (abtst_stream_update_qdepth 0)) (\<lambda>s.
     Inr (0, s)))))))))"

text \<open>
  The state of the selection loops of \<^verbatim>\<open>abtst_rebalance_streams\<close>: the variables
  \<^verbatim>\<open>ios\<close>, \<^verbatim>\<open>from_ios\<close>, \<^verbatim>\<open>mloads\<close> (with \<^verbatim>\<open>count\<close> its length),
  \<^verbatim>\<open>min_lsize\<close> and \<^verbatim>\<open>min_load\<close>.
\<close>

record reb_pick =
  pk_ios :: u32
  pk_from_ios :: u32
  pk_mloads :: "lptr list"
  pk_min_lsize :: u32
  pk_min_load :: "lptr option"

definition pick_load :: "bool \<Rightarrow> u32 \<Rightarrow> lptr \<Rightarrow> u32 \<Rightarrow> reb_pick \<Rightarrow> reb_pick res" where
  "pick_load ok cap l lsize p =
     rbind (store_load ok cap l (pk_mloads p)) (\<lambda>ms.
     Inr (p\<lparr>pk_ios := pk_ios p + lsize, pk_mloads := ms, pk_from_ios := pk_from_ios p - lsize\<rparr>))"

text \<open>First loop: the loads that run away from their initial core.\<close>

definition pick_foreign :: "sys \<Rightarrow> bool \<Rightarrow> u32 \<Rightarrow> node \<Rightarrow> reb_pick \<Rightarrow> reb_pick res" where
  "pick_foreign s ok cap pos p =
     rbind (list_entry_load pos) (\<lambda>l.
     rbind (get_load s l) (\<lambda>ld.
     if curr_rank ld \<noteq> init_rank ld then pick_load ok cap l (abtst_get_load_size ld) p else Inr p))"

text \<open>Second loop, with its \<^verbatim>\<open>continue\<close> and its two \<^verbatim>\<open>break\<close>s.\<close>

fun pick_fitting :: "sys \<Rightarrow> bool \<Rightarrow> u32 \<Rightarrow> u32 \<Rightarrow> u32 \<Rightarrow> node list \<Rightarrow> reb_pick \<Rightarrow> reb_pick res" where
  "pick_fitting s ok cap to_loads avg [] p = Inr p"
| "pick_fitting s ok cap to_loads avg (pos # ns) p =
     rbind (list_entry_load pos) (\<lambda>l.
     rbind (get_load s l) (\<lambda>ld.
     let lsize = abtst_get_load_size ld in
     if lsize = 0 then pick_fitting s ok cap to_loads avg ns p
     else
       let p1 = (if pk_min_lsize p = 0 \<or> sint lsize < sint (pk_min_lsize p)
                 then p\<lparr>pk_min_lsize := lsize, pk_min_load := Some l\<rparr> else p) in
       rbind (if lsize \<noteq> 0 \<and> pk_from_ios p1 - lsize \<ge> avg \<and> pk_ios p1 + lsize \<le> avg
              then pick_load ok cap l lsize p1 else Inr p1) (\<lambda>p2.
       if length (pk_mloads p2) \<ge> unat LOADS_PER_XSTREAM div 16 \<and> to_loads \<noteq> 0 then Inr p2
       else if pk_ios p2 = avg then Inr p2
       else pick_fitting s ok cap to_loads avg ns p2)))"

text \<open>
  The comparisons with \<^verbatim>\<open>* 1.5\<close> are done in \<^verbatim>\<open>double\<close>, where 32-bit integers and
  their multiples by 1.5 are exact: \<open>a < b * 1.5\<close> is \<open>2 * a < 3 * b\<close> over the integers.
\<close>

definition pick_smallest :: "bool \<Rightarrow> u32 \<Rightarrow> u32 \<Rightarrow> u32 \<Rightarrow> reb_pick \<Rightarrow> reb_pick res" where
  "pick_smallest ok cap ios1 ios2 p =
     (if pk_mloads p = [] \<and> pk_min_lsize p \<noteq> 0
      then if 2 * sint (ios1 + pk_min_lsize p) < 3 * sint (ios2 - pk_min_lsize p)
           then case pk_min_load p of None \<Rightarrow> Inl InvalidPtr | Some l \<Rightarrow>
             rbind (store_load ok cap l (pk_mloads p)) (\<lambda>ms.
             Inr (p\<lparr>pk_ios := pk_ios p + pk_min_lsize p, pk_mloads := ms\<rparr>))
           else Inr p
      else Inr p)"

definition select_loads :: "sys \<Rightarrow> bool \<Rightarrow> u32 \<Rightarrow> u32 \<Rightarrow> u32 \<Rightarrow> u32 \<Rightarrow> u32 \<Rightarrow> node list \<Rightarrow> reb_pick res" where
  "select_loads s ok cap to_loads ios1 ios2 avg nodes =
     rbind (for_each (pick_foreign s ok cap) nodes
       \<lparr>pk_ios = ios1, pk_from_ios = ios2, pk_mloads = [], pk_min_lsize = 0, pk_min_load = None\<rparr>) (\<lambda>p.
     rbind (if pk_mloads p = [] then pick_fitting s ok cap to_loads avg nodes p else Inr p) (\<lambda>p.
     pick_smallest ok cap ios1 ios2 p))"

definition abtst_rebalance_streams :: "sys \<Rightarrow> sort_param \<Rightarrow> sort_param \<Rightarrow> u32 \<Rightarrow> (int \<times> sys) res" where
  "abtst_rebalance_streams s p1 p2 avg =
     (if ios p1 \<ge> avg \<or> ios p2 \<le> avg then Inr (-1, s)
      else if 2 * sint (ios p2) < 3 * sint (ios p1) then Inr (-1, s)
      else
        rbind (deref_stream (sp_stream p2)) (\<lambda>from.
        rbind (get_stream s from) (\<lambda>from_st.
        case alloc s of (ok, s) \<Rightarrow>
        rbind (list_for_each (links s) (LoadQ from)) (\<lambda>nodes.
        rbind (deref_stream (sp_stream p1)) (\<lambda>to.
        rbind (get_stream s to) (\<lambda>to_st.
        rbind (select_loads s ok (nr_loads from_st) (nr_loads to_st) (ios p1) (ios p2) avg nodes) (\<lambda>p.
        if pk_mloads p = [] then Inr (-1, s)
        else
          rbind (for_each (migrate_load from to) (pk_mloads p) s) (\<lambda>s.
          rbind (upd_stream s from (abtst_stream_update_qdepth (ios p2 - (pk_ios p - ios p1)))) (\<lambda>s.
          rbind (upd_stream s to (abtst_stream_update_qdepth (pk_ios p))) (\<lambda>s.
          Inr (0, s)))))))))))"

subsection \<open>Queue depths and sleep times: stream.c\<close>

text \<open>The sum is an \<^verbatim>\<open>int\<close> in the code; here it wraps at 32 bits, its overflow is not a fault.\<close>

definition get_stream_ios :: "sys \<Rightarrow> nat \<Rightarrow> u32 res" where
  "get_stream_ios s k =
     rbind (list_for_each (links s) (LoadQ k)) (\<lambda>nodes.
     for_each (\<lambda>pos count. rbind (list_entry_load pos) (\<lambda>l. rbind (get_load s l) (\<lambda>ld.
       Inr (count + abtst_get_load_size ld)))) nodes 0)"

definition calc_stream_qdepth :: "abtst_stream \<Rightarrow> u32 \<Rightarrow> u32" where
  "calc_stream_qdepth st n = n"

definition abtst_update_streams_stat :: "sys \<Rightarrow> sys res" where
  "abtst_update_streams_stat s =
     for_each (\<lambda>i s. rbind (get_stream s i) (\<lambda>st.
       if \<not> used st then Inr s
       else rbind (get_stream_ios s i) (\<lambda>n.
            upd_stream s i (abtst_stream_update_qdepth (calc_stream_qdepth st n)))))
       [0..<unat (nr_cores (env s))] s"

definition abtst_reset_streams_stat :: "sys \<Rightarrow> sys res" where
  "abtst_reset_streams_stat s =
     for_each (\<lambda>i s. rbind (get_stream s i) (\<lambda>st.
       if \<not> used st then Inr s else upd_stream s i abtst_stream_reset_sleep_time))
       [0..<unat (max_xstreams (streams s))] s"

end
