(* ===== verification/Stream_Inv.thy ===== *)
theory Stream_Inv
  imports Streams
begin

text \<open>
  The invariant of the load queues and the effect of moving loads. \<open>wf_queues\<close> says that
  every stream's \<^verbatim>\<open>load_q\<close> is a well-formed circular list of live loads, that
  \<^verbatim>\<open>nr_loads\<close> counts it, and that every load is queued at the stream that its
  \<^verbatim>\<open>dest_rank\<close> names, so that no load is in two queues. \<open>same_shape s s'\<close> says that
  two states differ at most in the queues, their counters and depths, the destinations of
  loads and the allocation outcomes: the frame of all operations that move loads.
\<close>

definition all_loads :: "sys \<Rightarrow> lptr list" where
  "all_loads s = concat (map (\<lambda>m. map (Pair m)
     [0..<length (load_array (mapping_loads (mapping_array (mappings s) ! m)))])
     [0..<length (mapping_array (mappings s))])"

definition wf_queue :: "sys \<Rightarrow> nat \<Rightarrow> bool" where
  "wf_queue s k \<longleftrightarrow>
     dlist (links s) (LoadQ k) (map LoadNode (load_queue s k)) \<and>
     nr_loads (stream_at s k) = of_nat (length (load_queue s k)) \<and>
     rank (stream_at s k) = of_nat k \<and>
     (\<forall>l \<in> set (load_queue s k). valid_load s l \<and> dest_rank (load_at s l) = of_nat k)"

definition wf_queues :: "sys \<Rightarrow> bool" where
  "wf_queues s \<longleftrightarrow> n_streams s < 2 ^ 31 \<and> length (all_loads s) < 2 ^ 32 \<and> (\<forall>k < n_streams s. wf_queue s k)"

definition stream_core :: "abtst_stream \<Rightarrow> abtst_stream" where
  "stream_core st = st\<lparr>nr_loads := 0, stat := (stat st)\<lparr>total_qdepth := 0\<rparr>\<rparr>"

definition load_core :: "abtst_load \<Rightarrow> abtst_load" where
  "load_core ld = ld\<lparr>dest_rank := 0\<rparr>"

definition same_shape :: "sys \<Rightarrow> sys \<Rightarrow> bool" where
  "same_shape s s' \<longleftrightarrow>
     env s' = env s \<and> power s' = power s \<and> rebalance s' = rebalance s \<and>
     partitions s' = partitions s \<and> requests s' = requests s \<and>
     n_streams s' = n_streams s \<and>
     (streams s')\<lparr>stream_array := []\<rparr> = (streams s)\<lparr>stream_array := []\<rparr> \<and>
     (\<forall>k < n_streams s. stream_core (stream_at s' k) = stream_core (stream_at s k)) \<and>
     valid_load s' = valid_load s \<and> all_loads s' = all_loads s \<and>
     load_partition s' = load_partition s \<and>
     (\<forall>l. valid_load s l \<longrightarrow> load_core (load_at s' l) = load_core (load_at s l)) \<and>
     set (allocs s') \<subseteq> set (allocs s)"

lemma same_shape_refl [simp]: "same_shape s s"
  by (simp add: same_shape_def)

lemma same_shape_trans: "same_shape s t \<Longrightarrow> same_shape t u \<Longrightarrow> same_shape s u"
  by (auto simp: same_shape_def)

text \<open>
  \<open>mem_ok E s\<close>: if an allocation to come may fail, then \<open>E\<close> allows the fault for it. With
  \<open>E = {}\<close> all allocations succeed.
\<close>

definition mem_ok :: "fault set \<Rightarrow> sys \<Rightarrow> bool" where
  "mem_ok E s \<longleftrightarrow> (False \<in> set (allocs s) \<longrightarrow> OutOfMemory \<in> E)"

lemma mem_ok_shape: "mem_ok E s \<Longrightarrow> same_shape s t \<Longrightarrow> mem_ok E t"
  by (auto simp: mem_ok_def same_shape_def)

lemma mem_ok_alloc: "mem_ok E s \<Longrightarrow> alloc s = (ok, t) \<Longrightarrow> ok \<or> OutOfMemory \<in> E"
  by (auto simp: mem_ok_def alloc_def split: list.splits)

lemma same_shapeD:
  assumes "same_shape s s'"
  shows "env s' = env s" "power s' = power s" "rebalance s' = rebalance s"
    "partitions s' = partitions s" "requests s' = requests s" "n_streams s' = n_streams s"
    "valid_load s' = valid_load s" "all_loads s' = all_loads s" "load_partition s' = load_partition s"
    "max_xstreams (streams s') = max_xstreams (streams s)"
  using assms by (auto simp: same_shape_def dest: arg_cong [where f = max_xstreams])

lemma stream_core_eqD:
  assumes "stream_core a = stream_core b"
  shows "used a = used b" "part_id a = part_id b" "rank a = rank b"
    "sleep_nsec (stat a) = sleep_nsec (stat b)"
  using arg_cong [OF assms, of used] arg_cong [OF assms, of part_id] arg_cong [OF assms, of rank]
    arg_cong [OF assms, of "\<lambda>x. sleep_nsec (stat x)"]
  by (simp_all add: stream_core_def)

lemma same_shape_stream:
  assumes "same_shape s s'" and "k < n_streams s"
  shows "used (stream_at s' k) = used (stream_at s k)" "part_id (stream_at s' k) = part_id (stream_at s k)"
    "rank (stream_at s' k) = rank (stream_at s k)"
    "sleep_nsec (stat (stream_at s' k)) = sleep_nsec (stat (stream_at s k))"
  using assms stream_core_eqD [of "stream_at s' k" "stream_at s k"] by (auto simp: same_shape_def)

lemma load_core_eqD:
  assumes "load_core a = load_core b"
  shows "pkt_started a = pkt_started b" "pkt_ended a = pkt_ended b" "init_rank a = init_rank b"
    "curr_rank a = curr_rank b" "load_id a = load_id b"
  using arg_cong [OF assms, of pkt_started] arg_cong [OF assms, of pkt_ended]
    arg_cong [OF assms, of init_rank] arg_cong [OF assms, of curr_rank] arg_cong [OF assms, of load_id]
  by (simp_all add: load_core_def)

lemma same_shape_load_size:
  "same_shape s s' \<Longrightarrow> valid_load s l \<Longrightarrow> abtst_get_load_size (load_at s' l) = abtst_get_load_size (load_at s l)"
  using load_core_eqD [of "load_at s' l" "load_at s l"]
  by (simp add: same_shape_def abtst_get_load_size_def)

lemma set_all_loads: "set (all_loads s) = {l. valid_load s l}"
  by (auto simp: all_loads_def valid_load_def)

lemma length_le_all_loads:
  assumes "distinct ls" and "\<forall>l \<in> set ls. valid_load s l"
  shows "length ls \<le> length (all_loads s)"
proof -
  have "length ls = card (set ls)" using assms(1) by (simp add: distinct_card)
  also have "\<dots> \<le> card (set (all_loads s))"
    by (intro card_mono finite_set) (use assms(2) in \<open>auto simp: set_all_loads\<close>)
  also have "\<dots> \<le> length (all_loads s)" by (rule card_length)
  finally show ?thesis .
qed

lemma all_loads_cong:
  assumes "\<And>l. valid_load s' l = valid_load s l"
    and "length (mapping_array (mappings s')) = length (mapping_array (mappings s))"
  shows "all_loads s' = all_loads s"
proof -
  have "length (load_array (mapping_loads (mapping_array (mappings s') ! m)))
      = length (load_array (mapping_loads (mapping_array (mappings s) ! m)))" (is "?n' = ?n")
    if m: "m < length (mapping_array (mappings s))" for m
  proof -
    have "b < ?n' \<longleftrightarrow> b < ?n" for b
      using m assms(1) [of "(m, b)"] assms(2) by (simp add: valid_load_def)
    then show ?thesis by (meson less_irrefl linorder_neqE_nat)
  qed
  then show ?thesis
    unfolding all_loads_def assms(2) by (intro arg_cong [where f = concat] map_cong) auto
qed

lemma all_loads_frame [simp, frame]:
  "all_loads (set_stream s k f) = all_loads s"
  "all_loads (set_links s h) = all_loads s"
  "all_loads (set_load s l g) = all_loads s"
  by (auto intro!: all_loads_cong) (simp add: set_load_def)

lemma all_loads_alloc: "alloc s = (b, s') \<Longrightarrow> all_loads s' = all_loads s"
  by (intro all_loads_cong) (auto simp: alloc_frame)

lemma same_shape_set_stream:
  "(\<And>st. stream_core (f st) = stream_core st) \<Longrightarrow> same_shape s (set_stream s k f)"
  by (cases "k < n_streams s")
    (auto simp: same_shape_def set_stream_def n_streams_def stream_at_def valid_load_def load_at_def
      load_partition_def all_loads_def nth_update_if fun_eq_iff)

lemma same_shape_set_load:
  assumes "valid_load s l" and "\<And>ld. load_core (f ld) = load_core ld"
  shows "same_shape s (set_load s l f)"
  using assms by (auto simp: same_shape_def fun_eq_iff)

lemma same_shape_set_links [simp]: "same_shape s (set_links s h)"
  by (simp add: same_shape_def)

lemma alloc_subset: "alloc s = (b, s') \<Longrightarrow> set (allocs s') \<subseteq> set (allocs s)"
  by (auto simp: alloc_def split: list.splits)

lemma same_shape_alloc: "alloc s = (b, s') \<Longrightarrow> same_shape s s'"
  by (simp add: same_shape_def alloc_frame all_loads_alloc alloc_subset)

lemma stream_core_simps [simp]:
  "stream_core (st\<lparr>nr_loads := n\<rparr>) = stream_core st"
  "stream_core (abtst_stream_update_qdepth q st) = stream_core st"
  by (simp_all add: stream_core_def abtst_stream_update_qdepth_def)

lemma load_core_simps [simp]: "load_core (abtst_load_set_migrating ld b r) = load_core ld"
  by (simp add: load_core_def abtst_load_set_migrating_def)

subsection \<open>Well-formed queues\<close>

lemma map_LoadNode_inj [simp]: "map LoadNode xs = map LoadNode ys \<longleftrightarrow> xs = ys"
  by (simp add: inj_map_eq_map inj_def)

lemma node_load_LoadNode [simp]: "map (node_load \<circ> LoadNode) xs = xs"
  by (induction xs) (auto simp: node_load_def)

lemma dlist_load_queue:
  "dlist (links s) (LoadQ k) (map LoadNode ls) \<Longrightarrow> length ls \<le> list_bound \<Longrightarrow> load_queue s k = ls"
  by (simp add: load_queue_def lh.walk_law)

lemma wf_queuesD:
  assumes "wf_queues s" and "k < n_streams s"
  shows "dlist (links s) (LoadQ k) (map LoadNode (load_queue s k))"
    "nr_loads (stream_at s k) = of_nat (length (load_queue s k))"
    "rank (stream_at s k) = of_nat k"
    "l \<in> set (load_queue s k) \<Longrightarrow> valid_load s l"
    "l \<in> set (load_queue s k) \<Longrightarrow> dest_rank (load_at s l) = of_nat k"
    "distinct (load_queue s k)" "length (load_queue s k) < 2 ^ 32"
proof -
  show d: "dlist (links s) (LoadQ k) (map LoadNode (load_queue s k))"
    and "nr_loads (stream_at s k) = of_nat (length (load_queue s k))"
    and "rank (stream_at s k) = of_nat k"
    and v: "\<And>l. l \<in> set (load_queue s k) \<Longrightarrow> valid_load s l"
    and "l \<in> set (load_queue s k) \<Longrightarrow> dest_rank (load_at s l) = of_nat k"
    using assms by (auto simp: wf_queues_def wf_queue_def)
  show dist: "distinct (load_queue s k)"
    using lh.repr_distinct [OF d] by (simp add: distinct_map)
  show "length (load_queue s k) < 2 ^ 32"
    using length_le_all_loads [OF dist] v assms(1) by (fastforce simp: wf_queues_def)
qed

lemma wf_queues_disjoint:
  assumes "wf_queues s" and "j < n_streams s" and "k < n_streams s" and "j \<noteq> k"
  shows "set (load_queue s j) \<inter> set (load_queue s k) = {}"
proof -
  have "(of_nat j :: u32) \<noteq> of_nat k"
    using assms by (subst of_nat_u32_inj) (auto simp: wf_queues_def)
  then show ?thesis
    using wf_queuesD(5) [OF assms(1,2)] wf_queuesD(5) [OF assms(1,3)] by force
qed

lemma unat_nr_loads:
  "wf_queues s \<Longrightarrow> k < n_streams s \<Longrightarrow> unat (nr_loads (stream_at s k)) = length (load_queue s k)"
  using wf_queuesD(2) wf_queuesD(7) by (simp add: unat_of_nat_small)

lemma nr_loads_0_iff:
  "wf_queues s \<Longrightarrow> k < n_streams s \<Longrightarrow> nr_loads (stream_at s k) = 0 \<longleftrightarrow> load_queue s k = []"
  by (metis unat_nr_loads length_0_conv unat_0 word_unat_eq_iff)

lemma wf_list_for_each:
  "wf_queues s \<Longrightarrow> k < n_streams s
   \<Longrightarrow> list_for_each (links s) (LoadQ k) = Inr (map LoadNode (load_queue s k))"
  using wf_queuesD(1,7) by (intro lh.walk_law) (auto simp: list_bound_def less_imp_le)

text \<open>A state with new queues: how to establish the invariant and the queues together.\<close>

lemma wf_queuesI:
  assumes "n_streams s < 2 ^ 31" and "length (all_loads s) < 2 ^ 32"
    and d: "\<And>k. k < n_streams s \<Longrightarrow> dlist (links s) (LoadQ k) (map LoadNode (Q k))"
    and n: "\<And>k. k < n_streams s \<Longrightarrow> nr_loads (stream_at s k) = of_nat (length (Q k))"
    and r: "\<And>k. k < n_streams s \<Longrightarrow> rank (stream_at s k) = of_nat k"
    and v: "\<And>k l. k < n_streams s \<Longrightarrow> l \<in> set (Q k) \<Longrightarrow> valid_load s l \<and> dest_rank (load_at s l) = of_nat k"
  shows "wf_queues s \<and> (\<forall>k < n_streams s. load_queue s k = Q k)"
proof -
  have q: "load_queue s k = Q k" if k: "k < n_streams s" for k
  proof (rule dlist_load_queue [OF d [OF k]])
    have "distinct (Q k)" using lh.repr_distinct [OF d [OF k]] by (simp add: distinct_map)
    then show "length (Q k) \<le> list_bound"
      using length_le_all_loads [of "Q k" s] v [OF k] assms(2) by (auto simp: list_bound_def)
  qed
  with assms show ?thesis by (auto simp: wf_queues_def wf_queue_def)
qed

text \<open>The invariant depends only on the links, the streams and the loads.\<close>

lemma load_queue_cong: "links s' = links s \<Longrightarrow> load_queue s' = load_queue s"
  by (rule ext) (simp add: load_queue_def)

lemma wf_queues_cong:
  assumes "links s' = links s" and "n_streams s' = n_streams s" and "all_loads s' = all_loads s"
    and "\<And>k. k < n_streams s \<Longrightarrow> nr_loads (stream_at s' k) = nr_loads (stream_at s k)
      \<and> rank (stream_at s' k) = rank (stream_at s k)"
    and "valid_load s' = valid_load s" and "\<And>l. valid_load s l \<Longrightarrow> dest_rank (load_at s' l) = dest_rank (load_at s l)"
  shows "wf_queues s' = wf_queues s"
proof -
  have "wf_queue s' k = wf_queue s k" if "k < n_streams s" for k
    using that assms(4) [OF that] assms(6)
    unfolding wf_queue_def load_queue_cong [OF assms(1)] assms(1,5) by (intro conj_cong refl ball_cong) auto
  then show ?thesis using assms(2,3) by (auto simp: wf_queues_def)
qed


subsection \<open>Moving one load\<close>

text \<open>The queue of requests stays as it is when loads are moved.\<close>

definition req_kept :: "sys \<Rightarrow> sys \<Rightarrow> bool" where
  "req_kept s s' \<longleftrightarrow>
     (\<forall>ids. dlist (links s) ReqQ (map ReqNode ids) \<longrightarrow> dlist (links s') ReqQ (map ReqNode ids))"

lemma req_kept_links [simp]: "links s' = links s \<Longrightarrow> req_kept s s'"
  by (simp add: req_kept_def)

lemma req_kept_trans: "req_kept s t \<Longrightarrow> req_kept t u \<Longrightarrow> req_kept s u"
  by (simp add: req_kept_def)

definition requeued :: "sys \<Rightarrow> nat \<Rightarrow> nat \<Rightarrow> lptr list \<Rightarrow> sys \<Rightarrow> bool" where
  "requeued s from to ms s' \<longleftrightarrow>
     same_shape s s' \<and> wf_queues s' \<and> req_kept s s' \<and>
     (\<forall>k < n_streams s. load_queue s' k =
       (if k = from then filter (\<lambda>l. l \<notin> set ms) (load_queue s from)
        else if k = to then rev ms @ load_queue s to else load_queue s k))"

definition same_depths :: "sys \<Rightarrow> sys \<Rightarrow> bool" where
  "same_depths s s' \<longleftrightarrow>
     (\<forall>k < n_streams s. abtst_stream_get_qdepth (stream_at s' k) = abtst_stream_get_qdepth (stream_at s k))"

definition migrated :: "sys \<Rightarrow> nat \<Rightarrow> nat \<Rightarrow> lptr \<Rightarrow> links \<Rightarrow> sys" where
  "migrated s from to l h =
     set_load (set_stream (set_stream (set_links s h)
       from (\<lambda>st. st\<lparr>nr_loads := nr_loads st - 1\<rparr>))
       to (\<lambda>st. st\<lparr>nr_loads := nr_loads st + 1\<rparr>))
       l (\<lambda>ld. abtst_load_set_migrating ld True (rank (stream_at s to)))"

lemma set_links_set_stream:
  "set_links (set_stream (set_links s h) k f) h' = set_stream (set_links s h') k f"
  by (simp add: set_links_def set_stream_def stream_at_def)

lemma migrate_load_eq:
  assumes "from < n_streams s" "to < n_streams s" "valid_load s l"
  shows "migrate_load from to l s =
    rbind (rbind (list_del_init (links s) (LoadNode l)) (\<lambda>h. list_add h (LoadNode l) (LoadQ to)))
      (\<lambda>h. Inr (migrated s from to l h))"
  unfolding migrate_load_def abtst_remove_load_from_stream_def abtst_add_load_to_stream_def rbind_assoc
  using assms by (intro rbind_cong refl) (auto simp: migrated_def set_links_set_stream intro!: rbind_cong)

lemma migrated_views:
  assumes "from < n_streams s" "to < n_streams s" "valid_load s l" "from \<noteq> to"
  shows "links (migrated s from to l h) = h" "n_streams (migrated s from to l h) = n_streams s"
    "same_shape s (migrated s from to l h)" "same_depths s (migrated s from to l h)"
    "nr_loads (stream_at (migrated s from to l h) k) =
      (if k = from then nr_loads (stream_at s k) - 1 else if k = to then nr_loads (stream_at s k) + 1
       else nr_loads (stream_at s k))"
    "dest_rank (load_at (migrated s from to l h) l') =
      (if l' = l then rank (stream_at s to) else dest_rank (load_at s l'))"
proof -
  show "links (migrated s from to l h) = h" "n_streams (migrated s from to l h) = n_streams s"
    "same_depths s (migrated s from to l h)"
    "nr_loads (stream_at (migrated s from to l h) k) =
      (if k = from then nr_loads (stream_at s k) - 1 else if k = to then nr_loads (stream_at s k) + 1
       else nr_loads (stream_at s k))"
    "dest_rank (load_at (migrated s from to l h) l') =
      (if l' = l then rank (stream_at s to) else dest_rank (load_at s l'))"
    using assms by (auto simp: migrated_def same_depths_def abtst_stream_get_qdepth_def
        abtst_load_set_migrating_def)
  let ?s1 = "set_stream (set_links s h) from (\<lambda>st. st\<lparr>nr_loads := nr_loads st - 1\<rparr>)"
  have "same_shape s ?s1"
    by (rule same_shape_trans [OF same_shape_set_links same_shape_set_stream]) simp
  then have "same_shape s (set_stream ?s1 to (\<lambda>st. st\<lparr>nr_loads := nr_loads st + 1\<rparr>))"
    by (rule same_shape_trans [OF _ same_shape_set_stream]) simp
  then show "same_shape s (migrated s from to l h)"
    unfolding migrated_def using assms
    by (elim same_shape_trans) (intro same_shape_set_load, auto)
qed

lemma migrate_load_step:
  assumes wf: "wf_queues s" and ft: "from < n_streams s" "to < n_streams s" "from \<noteq> to"
    and l: "l \<in> set (load_queue s from)"
  shows "sat {} (migrate_load from to l s) (\<lambda>s'. requeued s from to [l] s' \<and> same_depths s s')"
proof -
  obtain xs ys where q: "load_queue s from = xs @ l # ys" using l by (auto simp: in_set_conv_decomp)
  have dist: "l \<notin> set xs" "l \<notin> set ys" using wf_queuesD(6) [OF wf ft(1)] q by auto
  then have "filter (\<lambda>x. x \<noteq> l) xs = xs" "filter (\<lambda>x. x \<noteq> l) ys = ys"
    by (auto simp: filter_id_conv)
  then have filt: "filter (\<lambda>x. x \<notin> set [l]) (load_queue s from) = xs @ ys"
    by (simp add: q)
  have v: "valid_load s l" by (rule wf_queuesD(4) [OF wf ft(1) l])
  define from_nodes to_nodes where
    "from_nodes = insert (LoadQ from) (set (map LoadNode xs @ LoadNode l # map LoadNode ys))"
    and "to_nodes = insert (LoadQ to) (set (map LoadNode (load_queue s to)))"
  have nodes: "insert (LoadQ k) (set (map LoadNode (load_queue s k))) \<inter> (from_nodes \<union> to_nodes) = {}"
    if "k < n_streams s" "k \<noteq> from" "k \<noteq> to" for k
    using wf_queues_disjoint [OF wf that(1) ft(1) that(2)] wf_queues_disjoint [OF wf that(1) ft(2) that(3)]
      that q by (auto simp: from_nodes_def to_nodes_def)
  have "from_nodes \<inter> to_nodes = {}"
    using wf_queues_disjoint [OF wf ft] ft(3) q by (auto simp: from_nodes_def to_nodes_def)
  then have "sat {} (rbind (list_del_init (links s) (LoadNode l)) (\<lambda>h. list_add h (LoadNode l) (LoadQ to)))
    (\<lambda>h. dlist h (LoadQ from) (map LoadNode xs @ map LoadNode ys) \<and>
      dlist h (LoadQ to) (LoadNode l # map LoadNode (load_queue s to)) \<and>
      (\<forall>p us. dlist (links s) p us \<longrightarrow> insert p (set us) \<inter> (from_nodes \<union> to_nodes) = {} \<longrightarrow> dlist h p us))"
    unfolding from_nodes_def to_nodes_def
    using wf_queuesD(1) [OF wf ft(1)] wf_queuesD(1) [OF wf ft(2)] q by (intro lh.move_law) auto
  moreover have "requeued s from to [l] (migrated s from to l h) \<and> same_depths s (migrated s from to l h)"
    if h: "dlist h (LoadQ from) (map LoadNode xs @ map LoadNode ys)"
      "dlist h (LoadQ to) (LoadNode l # map LoadNode (load_queue s to))"
      and others: "\<forall>p us. dlist (links s) p us \<longrightarrow> insert p (set us) \<inter> (from_nodes \<union> to_nodes) = {} \<longrightarrow> dlist h p us"
    for h
  proof -
    let ?s = "migrated s from to l h"
    let ?Q = "\<lambda>k. if k = from then xs @ ys else if k = to then l # load_queue s to else load_queue s k"
    note views = migrated_views [OF ft(1,2) v ft(3), where h = h]
    have "wf_queues ?s \<and> (\<forall>k < n_streams ?s. load_queue ?s k = ?Q k)"
    proof (rule wf_queuesI)
      show "n_streams ?s < 2 ^ 31" "length (all_loads ?s) < 2 ^ 32"
        using wf by (auto simp: wf_queues_def same_shapeD [OF views(3)])
    next
      fix k assume "k < n_streams ?s"
      then have k: "k < n_streams s" by (simp add: views(2))
      show "dlist (links ?s) (LoadQ k) (map LoadNode (?Q k))"
        using h others nodes [OF k] wf_queuesD(1) [OF wf k] by (auto simp: views(1))
      show "nr_loads (stream_at ?s k) = of_nat (length (?Q k))"
        using wf_queuesD(2) [OF wf k] q by (auto simp: views(5))
      show "rank (stream_at ?s k) = of_nat k"
        using wf_queuesD(3) [OF wf k] same_shape_stream(3) [OF views(3) k] by simp
      fix l' assume "l' \<in> set (?Q k)"
      moreover have "l \<notin> set (load_queue s j)" if "j < n_streams s" "j \<noteq> from" for j
        using wf_queues_disjoint [OF wf that(1) ft(1) that(2)] l by auto
      ultimately show "valid_load ?s l' \<and> dest_rank (load_at ?s l') = of_nat k"
        using wf_queuesD(3) [OF wf ft(2)] wf_queuesD(4,5) [OF wf ft(2), of l'] wf_queuesD(4,5) [OF wf k, of l']
          v q dist k
        by (auto simp: views(6) same_shapeD(7) [OF views(3)] split: if_splits)
    qed
    moreover have "req_kept s ?s"
      unfolding req_kept_def views(1) using others by (fastforce simp: from_nodes_def to_nodes_def)
    ultimately show ?thesis
      using views filt by (auto simp: requeued_def)
  qed
  ultimately show ?thesis
    unfolding migrate_load_eq [OF ft(1,2) v] sat_rbind [of _ "rbind _ _"] by (auto elim!: sat_mono)
qed


subsection \<open>Moving a list of loads\<close>

lemma requeued_step:
  assumes a: "requeued s from to ms s1" and b: "requeued s1 from to [l] s2"
    and ft: "from < n_streams s" "to < n_streams s" "from \<noteq> to"
  shows "requeued s from to (ms @ [l]) s2"
proof -
  have n: "n_streams s1 = n_streams s" using a by (simp add: requeued_def same_shape_def)
  have "same_shape s s2" using a b same_shape_trans by (auto simp: requeued_def)
  moreover have "load_queue s2 k =
      (if k = from then filter (\<lambda>x. x \<notin> set (ms @ [l])) (load_queue s from)
       else if k = to then rev (ms @ [l]) @ load_queue s to else load_queue s k)"
    if "k < n_streams s" for k
    using a b ft that n by (auto simp: requeued_def intro: filter_cong)
  ultimately show ?thesis using a b req_kept_trans by (auto simp: requeued_def)
qed

lemma requeued_Nil: "wf_queues s \<Longrightarrow> requeued s from to [] s"
  by (simp add: requeued_def)

lemma same_depths_refl [simp]: "same_depths s s"
  by (simp add: same_depths_def)

lemma same_depths_trans:
  "same_depths s t \<Longrightarrow> same_depths t u \<Longrightarrow> n_streams t = n_streams s \<Longrightarrow> same_depths s u"
  by (simp add: same_depths_def)

lemma migrate_loads:
  assumes wf: "wf_queues s" and ft: "from < n_streams s" "to < n_streams s" "from \<noteq> to"
    and ms: "set ms \<subseteq> set (load_queue s from)" "distinct ms"
  shows "sat {} (for_each (migrate_load from to) ms s) (\<lambda>s'. requeued s from to ms s' \<and> same_depths s s')"
proof (rule for_each_sat_prefix [where P = "\<lambda>ms s'. requeued s from to ms s' \<and> same_depths s s'"])
  show "requeued s from to [] s \<and> same_depths s s" using wf by (simp add: requeued_Nil)
next
  fix ys l zs s1
  assume split: "ms = ys @ l # zs" and s1: "requeued s from to ys s1 \<and> same_depths s s1"
  then have n: "n_streams s1 = n_streams s" by (simp add: requeued_def same_shape_def)
  have "l \<in> set (load_queue s1 from)"
    using s1 ms split ft(1) by (auto simp: requeued_def)
  then have "sat {} (migrate_load from to l s1) (\<lambda>s'. requeued s1 from to [l] s' \<and> same_depths s1 s')"
    using s1 ft n by (intro migrate_load_step) (auto simp: requeued_def)
  then show "sat {} (migrate_load from to l s1) (\<lambda>s'. requeued s from to (ys @ [l]) s' \<and> same_depths s s')"
    by (rule sat_mono) (use s1 ft n in \<open>auto intro: requeued_step same_depths_trans\<close>)
qed

text \<open>
  The loads queued at a group of streams, and at all streams. A group that holds both ends of
  a move, or neither, keeps its loads.
\<close>

definition group_loads :: "sys \<Rightarrow> nat set \<Rightarrow> lptr multiset" where
  "group_loads s A = (\<Sum>k \<in> A. mset (load_queue s k))"

definition queued_loads :: "sys \<Rightarrow> lptr multiset" where
  "queued_loads s = group_loads s {..<n_streams s}"

lemma sum_two:
  fixes f :: "nat \<Rightarrow> 'a::comm_monoid_add"
  assumes "finite A" "i \<in> A" "j \<in> A" "i \<noteq> j"
  shows "(\<Sum>k \<in> A. f k) = f i + f j + (\<Sum>k \<in> A - {i, j}. f k)"
proof -
  have "(\<Sum>k \<in> A. f k) = (\<Sum>k \<in> {i, j}. f k) + (\<Sum>k \<in> A - {i, j}. f k)"
    using assms sum.subset_diff [of "{i, j}" A f] by (simp add: add.commute)
  then show ?thesis using assms(4) by simp
qed

lemma requeued_group_loads:
  assumes r: "requeued s from to ms s'" and ft: "from < n_streams s" "to < n_streams s" "from \<noteq> to"
    and ms: "set ms \<subseteq> set (load_queue s from)" "distinct ms" "distinct (load_queue s from)"
    and A: "A \<subseteq> {..<n_streams s}" "from \<in> A \<longleftrightarrow> to \<in> A"
  shows "group_loads s' A = group_loads s A"
proof -
  have fin: "finite A" using A(1) by (rule finite_subset) simp
  have q: "load_queue s' k = (if k = from then filter (\<lambda>l. l \<notin> set ms) (load_queue s from)
      else if k = to then rev ms @ load_queue s to else load_queue s k)" if "k < n_streams s" for k
    using r that by (simp add: requeued_def)
  have "mset (filter (\<lambda>l. l \<in> set ms) (load_queue s from)) = mset ms"
    using ms by (intro set_eq_iff_mset_eq_distinct [THEN iffD1]) auto
  then have "mset (load_queue s from) = mset (filter (\<lambda>l. l \<notin> set ms) (load_queue s from)) + mset ms"
    using multiset_partition [of "mset (load_queue s from)" "\<lambda>l. l \<in> set ms"]
    by (simp add: mset_filter add.commute)
  then have "mset (load_queue s' from) + mset (load_queue s' to) = mset (load_queue s from) + mset (load_queue s to)"
    using q ft by simp
  moreover have "(\<Sum>k \<in> A - {from, to}. mset (load_queue s' k)) = (\<Sum>k \<in> A - {from, to}. mset (load_queue s k))"
    by (intro sum.cong refl) (use q A(1) in auto)
  ultimately show ?thesis
    using A(2) ft(3) fin by (cases "from \<in> A") (simp_all add: group_loads_def sum_two [of A "from" to])
qed

lemma requeued_queued_loads:
  assumes r: "requeued s from to ms s'" and ft: "from < n_streams s" "to < n_streams s" "from \<noteq> to"
    and ms: "set ms \<subseteq> set (load_queue s from)" "distinct ms" "distinct (load_queue s from)"
  shows "queued_loads s' = queued_loads s"
proof -
  have "n_streams s' = n_streams s" using r by (simp add: requeued_def same_shape_def)
  then show ?thesis
    using requeued_group_loads [OF assms, of "{..<n_streams s}"] ft by (simp add: queued_loads_def)
qed


subsection \<open>Combining two streams\<close>

lemma store_all_loads:
  assumes "length acc + length ls \<le> unat cap" and "ok \<or> OutOfMemory \<in> E"
  shows "sat E
    (for_each (\<lambda>pos ms. rbind (list_entry_load pos) (\<lambda>l. store_load ok cap l ms)) (map LoadNode ls) acc)
    (\<lambda>ms. ms = acc @ ls)"
  using assms
proof (induction ls arbitrary: acc)
  case Nil
  then show ?case by simp
next
  case (Cons l ls)
  then show ?case
    using Cons.IH [of "acc @ [l]"] by (cases ok) (simp_all add: list_entry_load_def store_load_def)
qed

definition depth_moved :: "sys \<Rightarrow> nat \<Rightarrow> nat \<Rightarrow> u32 \<Rightarrow> sys \<Rightarrow> bool" where
  "depth_moved s from to d s' \<longleftrightarrow>
     (\<forall>k < n_streams s. abtst_stream_get_qdepth (stream_at s' k) =
       (if k = from then abtst_stream_get_qdepth (stream_at s k) - d
        else if k = to then abtst_stream_get_qdepth (stream_at s k) + d
        else abtst_stream_get_qdepth (stream_at s k)))"

lemma qdepth_upd [simp]: "abtst_stream_get_qdepth (abtst_stream_update_qdepth d st) = d"
  by (simp add: abtst_stream_get_qdepth_def abtst_stream_update_qdepth_def)

lemma upd_qdepth_fields [simp]:
  "nr_loads (abtst_stream_update_qdepth d st) = nr_loads st"
  "rank (abtst_stream_update_qdepth d st) = rank st"
  "used (abtst_stream_update_qdepth d st) = used st"
  "part_id (abtst_stream_update_qdepth d st) = part_id st"
  by (simp_all add: abtst_stream_update_qdepth_def)

lemma requeued_set_qdepth:
  assumes "requeued s from to ms s'" and "k < n_streams s"
  shows "requeued s from to ms (set_stream s' k (abtst_stream_update_qdepth d))"
proof -
  let ?s = "set_stream s' k (abtst_stream_update_qdepth d)"
  have "same_shape s' ?s" by (rule same_shape_set_stream) simp
  moreover have "k < n_streams s'" using assms by (simp add: requeued_def same_shape_def)
  then have "wf_queues ?s = wf_queues s'" by (intro wf_queues_cong) auto
  ultimately show ?thesis
    using assms(1) same_shape_trans req_kept_trans [of s s' ?s] by (auto simp: requeued_def)
qed

lemma wf_queues_alloc: "alloc s = (b, s') \<Longrightarrow> wf_queues s \<Longrightarrow> wf_queues s'"
  using wf_queues_cong [of s' s] by (simp add: alloc_frame all_loads_alloc)

lemma requeued_alloc:
  assumes "alloc s = (b, s')" and "requeued s' from to ms s''" and "from < n_streams s"
  shows "requeued s from to ms s''"
  using assms(2) same_shape_trans [OF same_shape_alloc [OF assms(1)]] alloc_frame [OF assms(1)] assms(3)
  by (auto simp: requeued_def req_kept_def)

lemma migrate_loads_alloc:
  assumes al: "alloc s = (ok, s1)" and wf: "wf_queues s"
    and ft: "from < n_streams s" "to < n_streams s" "from \<noteq> to"
    and ms: "set ms \<subseteq> set (load_queue s from)" "distinct ms"
  shows "sat E (for_each (migrate_load from to) ms s1)
    (\<lambda>s'. requeued s from to ms s' \<and> same_depths s s' \<and> n_streams s' = n_streams s)"
proof -
  note fr = alloc_frame [OF al]
  have "sat {} (for_each (migrate_load from to) ms s1) (\<lambda>s'. requeued s1 from to ms s' \<and> same_depths s1 s')"
    using wf_queues_alloc [OF al wf] ft ms by (intro migrate_loads) (auto simp: fr)
  then show ?thesis
    using requeued_alloc [OF al _ ft(1)]
    by (elim sat_weaken) (auto simp: same_depths_def fr requeued_def same_shapeD)
qed

text \<open>
  The result of a combination: an empty source is left as it is, otherwise all its loads and
  its whole queue depth go to the destination.
\<close>

lemma abtst_combine_streams_sat:
  assumes wf: "wf_queues s" and mem: "mem_ok E s" and ft: "from < n_streams s" "to < n_streams s" "from \<noteq> to"
  shows "sat E (abtst_combine_streams s from to)
    (\<lambda>(r, s'). r = 0 \<and> requeued s from to (load_queue s from) s' \<and>
      depth_moved s from to (if load_queue s from = [] then 0
        else abtst_stream_get_qdepth (stream_at s from)) s')"
proof (cases "load_queue s from = []")
  case True
  then show ?thesis
    using wf ft by (auto simp: abtst_combine_streams_def nr_loads_0_iff requeued_def depth_moved_def)
next
  case False
  obtain ok s1 where al: "alloc s = (ok, s1)" by (cases "alloc s")
  note fr = alloc_frame [OF al]
  let ?q = "load_queue s from"
  have walk: "list_for_each (links s1) (LoadQ from) = Inr (map LoadNode ?q)"
    using wf_list_for_each [OF wf ft(1)] by (simp add: fr)
  have nz: "nr_loads (stream_at s from) \<noteq> 0" using nr_loads_0_iff [OF wf ft(1)] False by simp
  note mig = migrate_loads_alloc [OF al wf ft subset_refl wf_queuesD(6) [OF wf ft(1)], of E]
  have store: "sat E (for_each (\<lambda>pos ms. rbind (list_entry_load pos)
      (\<lambda>l. store_load ok (nr_loads (stream_at s from)) l ms)) (map LoadNode ?q) []) (\<lambda>ms. ms = ?q)"
    using store_all_loads [of "[]" ?q "nr_loads (stream_at s from)" ok] unat_nr_loads [OF wf ft(1)] mem_ok_alloc [OF mem al] by simp
  let ?P = "\<lambda>(r, s'). r = 0 \<and> requeued s from to ?q s' \<and>
      depth_moved s from to (abtst_stream_get_qdepth (stream_at s from)) s'"
  have tail: "sat E (rbind (get_stream s2 from) (\<lambda>from_st.
     rbind (get_stream s2 to) (\<lambda>to_st.
     rbind (upd_stream s2 to (abtst_stream_update_qdepth
       (abtst_stream_get_qdepth from_st + abtst_stream_get_qdepth to_st))) (\<lambda>s.
     rbind (upd_stream s from (abtst_stream_update_qdepth 0)) (\<lambda>s. Inr (0, s)))))) ?P"
    if "requeued s from to ?q s2" "same_depths s s2" "n_streams s2 = n_streams s" for s2
    using that ft by (auto simp: depth_moved_def same_depths_def add.commute intro!: requeued_set_qdepth)
  have "sat E (abtst_combine_streams s from to) ?P"
    unfolding abtst_combine_streams_def
    using ft nz by (simp add: al walk del: sat_rbind)
      (subst sat_rbind, rule sat_mono [OF store], simp del: sat_rbind,
        subst sat_rbind, rule sat_mono [OF mig], elim conjE, rule tail)
  then show ?thesis using False by simp
qed


subsection \<open>Queue depths and sleep times\<close>

definition loads_size :: "sys \<Rightarrow> lptr list \<Rightarrow> u32" where
  "loads_size s ls = (\<Sum>l\<leftarrow>ls. abtst_get_load_size (load_at s l))"

lemma loads_size_simps [simp]:
  "loads_size s [] = 0" "loads_size s (l # ls) = abtst_get_load_size (load_at s l) + loads_size s ls"
  "loads_size s (ls @ ls') = loads_size s ls + loads_size s ls'"
  by (simp_all add: loads_size_def)

lemma get_stream_ios_ok:
  assumes wf: "wf_queues s" and k: "k < n_streams s"
  shows "get_stream_ios s k = Inr (loads_size s (load_queue s k))"
proof -
  have "for_each (\<lambda>pos count. rbind (list_entry_load pos) (\<lambda>l. rbind (get_load s l) (\<lambda>ld.
       Inr (count + abtst_get_load_size ld)))) (map LoadNode ls) c = Inr (c + loads_size s ls)"
    if "\<And>l. l \<in> set ls \<Longrightarrow> valid_load s l" for ls c
    using that by (induction ls arbitrary: c) (auto simp: list_entry_load_def)
  then show ?thesis
    using wf_queuesD(4) [OF wf k] by (simp add: get_stream_ios_def wf_list_for_each [OF wf k])
qed

lemma loads_size_set_stream [simp]: "loads_size (set_stream s k f) = loads_size s"
  by (simp add: loads_size_def fun_eq_iff)

definition depths_measured :: "sys \<Rightarrow> nat list \<Rightarrow> sys \<Rightarrow> bool" where
  "depths_measured s ks s' \<longleftrightarrow>
     same_shape s s' \<and> wf_queues s' \<and> load_queue s' = load_queue s \<and> loads_size s' = loads_size s \<and>
     (\<forall>k < n_streams s. abtst_stream_get_qdepth (stream_at s' k) =
       (if k \<in> set ks \<and> used (stream_at s k) then loads_size s (load_queue s k)
        else abtst_stream_get_qdepth (stream_at s k)))"

lemma abtst_update_streams_stat_sat:
  assumes wf: "wf_queues s" and n: "unat (nr_cores (env s)) = n_streams s"
  shows "sat {} (abtst_update_streams_stat s) (depths_measured s [0..<n_streams s])"
  unfolding abtst_update_streams_stat_def n
proof (rule for_each_sat_prefix [where P = "depths_measured s"])
  show "depths_measured s [] s" using wf by (simp add: depths_measured_def)
next
  fix ks i zs s1
  assume split: "[0..<n_streams s] = ks @ i # zs" and s1: "depths_measured s ks s1"
  then have i: "i < n_streams s" "i \<notin> set ks" using upt_splitD(1,3) [OF split] by simp_all
  have i1: "i < n_streams s1" "wf_queues s1" "used (stream_at s1 i) = used (stream_at s i)"
    using s1 i same_shape_stream(1) [of s s1 i] by (auto simp: depths_measured_def same_shapeD)
  let ?s2 = "set_stream s1 i (abtst_stream_update_qdepth (loads_size s (load_queue s i)))"
  have "same_shape s ?s2"
    using s1 by (intro same_shape_trans [OF _ same_shape_set_stream]) (auto simp: depths_measured_def)
  moreover have "wf_queues ?s2 = wf_queues s1" using i1 by (intro wf_queues_cong) auto
  ultimately have "depths_measured s (ks @ [i]) ?s2" if "used (stream_at s i)"
    using s1 i1 i that by (auto simp: depths_measured_def)
  moreover have "depths_measured s (ks @ [i]) s1" if "\<not> used (stream_at s i)"
    using s1 that by (auto simp: depths_measured_def)
  moreover have "loads_size s1 (load_queue s1 i) = loads_size s (load_queue s i)"
    using s1 by (simp add: depths_measured_def)
  ultimately show "sat {} (rbind (get_stream s1 i) (\<lambda>st.
       if \<not> used st then Inr s1
       else rbind (get_stream_ios s1 i) (\<lambda>n.
            upd_stream s1 i (abtst_stream_update_qdepth (calc_stream_qdepth st n))))) (depths_measured s (ks @ [i]))"
    using i1 by (simp add: get_stream_ios_ok calc_stream_qdepth_def)
qed

text \<open>Counting an I/O on a load keeps the queues.\<close>

lemma wf_queues_count:
  assumes wf: "wf_queues s" and l: "valid_load s l" and f: "\<And>ld. dest_rank (f ld) = dest_rank ld"
  shows "wf_queues (set_load s l f) \<and> (\<forall>k < n_streams (set_load s l f). load_queue (set_load s l f) k = load_queue s k)"
proof (rule wf_queuesI)
  fix k l' assume k: "k < n_streams (set_load s l f)"
  show "dlist (links (set_load s l f)) (LoadQ k) (map LoadNode (load_queue s k))"
    "nr_loads (stream_at (set_load s l f) k) = of_nat (length (load_queue s k))" "rank (stream_at (set_load s l f) k) = of_nat k"
    using wf_queuesD(1,2,3) [OF wf, of k] k by simp_all
  assume "l' \<in> set (load_queue s k)"
  then show "valid_load (set_load s l f) l' \<and> dest_rank (load_at (set_load s l f) l') = of_nat k"
    using wf_queuesD(4,5) [OF wf, of k l'] k l f by auto
qed (use wf l in \<open>simp_all add: wf_queues_def\<close>)

end
