(* ===== verification/Stream_Choice.thy ===== *)
theory Stream_Choice
  imports Stream_Inv
begin

text \<open>
  The choice of \<^verbatim>\<open>abtst_rebalance_streams\<close>: which loads of the busier stream are moved. The
  three loops of the function are compared with a choice that is written without their variables,
  and the whole function with the move of exactly the chosen loads.
\<close>

subsection \<open>Choosing loads to move\<close>

definition foreign :: "sys \<Rightarrow> lptr \<Rightarrow> bool" where
  "foreign s l \<longleftrightarrow> curr_rank (load_at s l) \<noteq> init_rank (load_at s l)"

text \<open>
  What the variables of the selection loops mean, when \<open>q\<close> is the queue walked over and
  \<open>ios1\<close>, \<open>ios2\<close> are the depths the selection started from.
\<close>

definition pick_ok :: "sys \<Rightarrow> lptr list \<Rightarrow> u32 \<Rightarrow> u32 \<Rightarrow> reb_pick \<Rightarrow> bool" where
  "pick_ok s q ios1 ios2 p \<longleftrightarrow>
     set (pk_mloads p) \<subseteq> set q \<and> distinct (pk_mloads p) \<and>
     pk_ios p = ios1 + loads_size s (pk_mloads p) \<and> pk_from_ios p = ios2 - loads_size s (pk_mloads p) \<and>
     (pk_min_lsize p \<noteq> 0 \<longrightarrow> (\<exists>l \<in> set q. pk_min_load p = Some l \<and> pk_min_lsize p = abtst_get_load_size (load_at s l)))"

lemma pick_load_sat:
  assumes "pick_ok s q ios1 ios2 p" and "length (pk_mloads p) < unat cap"
    and "l \<in> set q" and "l \<notin> set (pk_mloads p)" and "lsize = abtst_get_load_size (load_at s l)"
    and "ok \<or> OutOfMemory \<in> E"
  shows "sat E (pick_load ok cap l lsize p)
    (\<lambda>p'. pick_ok s q ios1 ios2 p' \<and> pk_mloads p' = pk_mloads p @ [l] \<and>
      pk_ios p' = pk_ios p + lsize \<and> pk_from_ios p' = pk_from_ios p - lsize)"
  using assms by (auto simp: pick_load_def store_load_def pick_ok_def algebra_simps)

lemma pick_foreign_sat:
  assumes valid: "\<And>l. l \<in> set q \<Longrightarrow> valid_load s l" and q: "distinct q" "length q \<le> unat cap"
    and mem: "ok \<or> OutOfMemory \<in> E"
  shows "sat E (for_each (pick_foreign s ok cap) (map LoadNode q)
      \<lparr>pk_ios = ios1, pk_from_ios = ios2, pk_mloads = [], pk_min_lsize = 0, pk_min_load = None\<rparr>)
    (\<lambda>p. pick_ok s q ios1 ios2 p \<and> pk_mloads p = filter (foreign s) q \<and> pk_min_lsize p = 0)"
proof -
  let ?P = "\<lambda>ns p. pick_ok s q ios1 ios2 p \<and> pk_mloads p = filter (foreign s) (map node_load ns) \<and>
    pk_min_lsize p = 0"
  have "sat E (for_each (pick_foreign s ok cap) (map LoadNode q)
      \<lparr>pk_ios = ios1, pk_from_ios = ios2, pk_mloads = [], pk_min_lsize = 0, pk_min_load = None\<rparr>)
      (?P (map LoadNode q))"
  proof (rule for_each_sat_prefix [where P = ?P], goal_cases)
    case 1
    then show ?case by (simp add: pick_ok_def)
  next
    case (2 ys x zs p)
    then obtain ls l ls' where ls: "q = ls @ l # ls'" "ys = map LoadNode ls" "x = LoadNode l"
      by (auto simp: map_eq_append_conv map_eq_Cons_conv)
    with 2 have p: "pick_ok s q ios1 ios2 p" "pk_mloads p = filter (foreign s) ls" "pk_min_lsize p = 0"
      by auto
    have "length (filter (foreign s) ls) < unat cap"
      by (rule le_less_trans [OF length_filter_le]) (use q(2) ls(1) in simp)
    then have "sat E (pick_load ok cap l (abtst_get_load_size (load_at s l)) p)
        (\<lambda>p'. pick_ok s q ios1 ios2 p' \<and> pk_mloads p' = pk_mloads p @ [l])"
      using p q(1) ls(1) mem by (intro sat_mono [OF pick_load_sat]) auto
    moreover have "pk_min_lsize p' = 0" if "pick_load ok cap l n p = Inr p'" for n p'
      using that p(3) by (auto simp: pick_load_def rbind_eq_Inr)
    ultimately have "sat E (pick_foreign s ok cap x p)
        (\<lambda>p'. pick_ok s q ios1 ios2 p' \<and> pk_mloads p' = filter (foreign s) (ls @ [l]) \<and> pk_min_lsize p' = 0)"
      using p valid [of l] ls(1)
      by (auto simp: pick_foreign_def list_entry_load_def ls(3) foreign_def elim!: sat_mono)
    then show ?case
      by (rule sat_mono) (auto simp: ls node_load_def)
  qed
  then show ?thesis by (rule sat_mono) auto
qed


definition fits :: "u32 \<Rightarrow> reb_pick \<Rightarrow> bool" where
  "fits avg p \<longleftrightarrow> (pk_mloads p \<noteq> [] \<longrightarrow> pk_ios p \<le> avg \<and> avg \<le> pk_from_ios p)"

lemma pick_fitting_sat:
  assumes "pick_ok s q ios1 ios2 p" and "fits avg p" and "distinct (pk_mloads p @ ls)"
    and "set ls \<subseteq> set q" and "length (pk_mloads p @ ls) \<le> unat cap" and "\<And>l. l \<in> set q \<Longrightarrow> valid_load s l"
    and mem: "ok \<or> OutOfMemory \<in> E"
  shows "sat E (pick_fitting s ok cap to_loads avg (map LoadNode ls) p)
    (\<lambda>p'. pick_ok s q ios1 ios2 p' \<and> fits avg p')"
  using assms(1-6)
proof (induction ls arbitrary: p)
  case Nil
  then show ?case by simp
next
  case (Cons l ls)
  define lsize where "lsize = abtst_get_load_size (load_at s l)"
  define p1 where "p1 = (if pk_min_lsize p = 0 \<or> sint lsize < sint (pk_min_lsize p)
    then p\<lparr>pk_min_lsize := lsize, pk_min_load := Some l\<rparr> else p)"
  have p1: "pick_ok s q ios1 ios2 p1" "fits avg p1" "pk_mloads p1 = pk_mloads p"
    using Cons.prems(1,2,4) by (auto simp: p1_def pick_ok_def fits_def lsize_def)
  let ?pick = "if lsize \<noteq> 0 \<and> pk_from_ios p1 - lsize \<ge> avg \<and> pk_ios p1 + lsize \<le> avg
    then pick_load ok cap l lsize p1 else Inr p1"
  have pick: "sat E ?pick (\<lambda>p2. pick_ok s q ios1 ios2 p2 \<and> fits avg p2 \<and>
      distinct (pk_mloads p2 @ ls) \<and> length (pk_mloads p2 @ ls) \<le> unat cap)"
  proof (cases "lsize \<noteq> 0 \<and> pk_from_ios p1 - lsize \<ge> avg \<and> pk_ios p1 + lsize \<le> avg")
    case True
    have "sat E (pick_load ok cap l lsize p1) (\<lambda>p2. pick_ok s q ios1 ios2 p2 \<and>
        pk_mloads p2 = pk_mloads p1 @ [l] \<and> pk_ios p2 = pk_ios p1 + lsize \<and> pk_from_ios p2 = pk_from_ios p1 - lsize)"
      using p1 Cons.prems(3,4,5) mem by (intro pick_load_sat) (auto simp: lsize_def)
    then show ?thesis
      using True p1(3) Cons.prems(3,5) by (auto simp: fits_def elim!: sat_mono)
  next
    case False
    then show ?thesis using p1 Cons.prems(3,5) by auto
  qed
  have rest: "sat E (pick_fitting s ok cap to_loads avg (map LoadNode ls) p2)
      (\<lambda>p'. pick_ok s q ios1 ios2 p' \<and> fits avg p')"
    if "pick_ok s q ios1 ios2 p2" "fits avg p2" "distinct (pk_mloads p2 @ ls)"
      "length (pk_mloads p2 @ ls) \<le> unat cap" for p2
    using that Cons.prems(4,6) by (intro Cons.IH) auto
  have "sat E (rbind ?pick (\<lambda>p2.
       if length (pk_mloads p2) \<ge> unat LOADS_PER_XSTREAM div 16 \<and> to_loads \<noteq> 0 then Inr p2
       else if pk_ios p2 = avg then Inr p2
       else pick_fitting s ok cap to_loads avg (map LoadNode ls) p2))
       (\<lambda>p'. pick_ok s q ios1 ios2 p' \<and> fits avg p')"
    unfolding sat_rbind by (rule sat_mono [OF pick]) (simp add: rest)
  moreover have "valid_load s l" using Cons.prems(4,6) by simp
  moreover have "sat E (pick_fitting s ok cap to_loads avg (map LoadNode ls) p)
      (\<lambda>p'. pick_ok s q ios1 ios2 p' \<and> fits avg p')"
    using Cons.prems by (intro rest) auto
  moreover have "pick_fitting s ok cap to_loads avg (map LoadNode (l # ls)) p =
      (if lsize = 0 then pick_fitting s ok cap to_loads avg (map LoadNode ls) p
       else rbind ?pick (\<lambda>p2.
         if length (pk_mloads p2) \<ge> unat LOADS_PER_XSTREAM div 16 \<and> to_loads \<noteq> 0 then Inr p2
         else if pk_ios p2 = avg then Inr p2
         else pick_fitting s ok cap to_loads avg (map LoadNode ls) p2))"
    using \<open>valid_load s l\<close> by (simp add: list_entry_load_def Let_def lsize_def p1_def)
  ultimately show ?case by presburger
qed

text \<open>
  The choice of loads without the variables of the loops. \<open>first_fit\<close> goes through the queue
  once and takes every load that leaves the destination, at \<open>a\<close>, not above and the source, at
  \<open>b\<close>, not below the average; it ends at the average, and after two loads when the destination
  has loads already. \<open>smallest_load\<close> is the first of the smallest loads that are not empty.
\<close>

fun first_fit :: "(lptr \<Rightarrow> u32) \<Rightarrow> u32 \<Rightarrow> bool \<Rightarrow> nat \<Rightarrow> u32 \<Rightarrow> u32 \<Rightarrow> lptr list \<Rightarrow> lptr list" where
  "first_fit sz avg two c a b [] = []"
| "first_fit sz avg two c a b (l # ls) =
     (if two \<and> 2 \<le> c \<or> a = avg then []
      else if sz l \<noteq> 0 \<and> avg \<le> b - sz l \<and> a + sz l \<le> avg
      then l # first_fit sz avg two (Suc c) (a + sz l) (b - sz l) ls
      else first_fit sz avg two c a b ls)"

definition smaller :: "(lptr \<Rightarrow> u32) \<Rightarrow> lptr option \<Rightarrow> lptr \<Rightarrow> lptr option" where
  "smaller sz m l =
     (if sz l = 0 then m
      else case m of None \<Rightarrow> Some l | Some x \<Rightarrow> if sint (sz l) < sint (sz x) then Some l else Some x)"

definition smallest_load :: "(lptr \<Rightarrow> u32) \<Rightarrow> lptr list \<Rightarrow> lptr option" where
  "smallest_load sz ls = foldl (smaller sz) None ls"

definition load_size :: "sys \<Rightarrow> lptr \<Rightarrow> u32" where
  "load_size s l = abtst_get_load_size (load_at s l)"

definition chosen_loads :: "sys \<Rightarrow> bool \<Rightarrow> u32 \<Rightarrow> u32 \<Rightarrow> u32 \<Rightarrow> lptr list \<Rightarrow> lptr list" where
  "chosen_loads s two ios1 ios2 avg q =
     (if filter (foreign s) q \<noteq> [] then filter (foreign s) q
      else if first_fit (load_size s) avg two 0 ios1 ios2 q \<noteq> [] then first_fit (load_size s) avg two 0 ios1 ios2 q
      else case smallest_load (load_size s) q of None \<Rightarrow> []
        | Some l \<Rightarrow> if 2 * sint (ios1 + load_size s l) < 3 * sint (ios2 - load_size s l) then [l] else [])"

lemma smallest_load_least:
  assumes "smallest_load sz ls = Some l"
  shows "l \<in> set ls" "sz l \<noteq> 0" "x \<in> set ls \<Longrightarrow> sz x \<noteq> 0 \<Longrightarrow> sint (sz l) \<le> sint (sz x)"
proof -
  have "case smallest_load sz ls of None \<Rightarrow> (\<forall>x \<in> set ls. sz x = 0)
    | Some l \<Rightarrow> l \<in> set ls \<and> sz l \<noteq> 0 \<and> (\<forall>x \<in> set ls. sz x \<noteq> 0 \<longrightarrow> sint (sz l) \<le> sint (sz x))"
    unfolding smallest_load_def
    by (induction ls rule: rev_induct) (auto simp: smaller_def split: option.splits)
  then show "l \<in> set ls" "sz l \<noteq> 0" "x \<in> set ls \<Longrightarrow> sz x \<noteq> 0 \<Longrightarrow> sint (sz l) \<le> sint (sz x)"
    using assms by auto
qed

text \<open>The loop computes \<open>first_fit\<close> and, when that is empty, has seen the smallest load.\<close>

definition smallest_seen :: "sys \<Rightarrow> lptr list \<Rightarrow> reb_pick \<Rightarrow> bool" where
  "smallest_seen s ls p \<longleftrightarrow> (case smallest_load (load_size s) ls of None \<Rightarrow> pk_min_lsize p = 0
     | Some l \<Rightarrow> pk_min_lsize p \<noteq> 0 \<and> pk_min_load p = Some l \<and> pk_min_lsize p = load_size s l)"

lemma smallest_seen_snoc:
  assumes "smallest_seen s ls p"
  shows "load_size s l = 0 \<Longrightarrow> smallest_seen s (ls @ [l]) p"
    "load_size s l \<noteq> 0 \<Longrightarrow> smallest_seen s (ls @ [l])
      (if pk_min_lsize p = 0 \<or> sint (load_size s l) < sint (pk_min_lsize p)
       then p\<lparr>pk_min_lsize := load_size s l, pk_min_load := Some l\<rparr> else p)"
  using assms by (auto simp: smallest_seen_def smallest_load_def smaller_def split: option.splits)

lemma pick_fitting_exact:
  assumes "\<not> (to_loads \<noteq> 0 \<and> 2 \<le> length (pk_mloads p))" and "pk_ios p \<noteq> avg"
    and "\<And>l. l \<in> set ls \<Longrightarrow> valid_load s l" and "pk_mloads p = [] \<Longrightarrow> smallest_seen s ds p"
  shows "sat UNIV (pick_fitting s ok cap to_loads avg (map LoadNode ls) p)
    (\<lambda>p'. pk_mloads p' = pk_mloads p @ first_fit (load_size s) avg (to_loads \<noteq> 0) (length (pk_mloads p)) (pk_ios p) (pk_from_ios p) ls \<and>
      (pk_mloads p' = [] \<longrightarrow> smallest_seen s (ds @ ls) p'))"
  using assms
proof (induction ls arbitrary: p ds)
  case Nil
  then show ?case by simp
next
  case (Cons l ls)
  have vl: "valid_load s l" using Cons.prems(3) by simp
  have two: "unat LOADS_PER_XSTREAM div 16 = 2" by (simp add: LOADS_PER_XSTREAM_def)
  define p1 where "p1 = (if pk_min_lsize p = 0 \<or> sint (load_size s l) < sint (pk_min_lsize p)
    then p\<lparr>pk_min_lsize := load_size s l, pk_min_load := Some l\<rparr> else p)"
  have p1: "pk_mloads p1 = pk_mloads p" "pk_ios p1 = pk_ios p" "pk_from_ios p1 = pk_from_ios p" by (simp_all add: p1_def)
  have step: "pick_fitting s ok cap to_loads avg (map LoadNode (l # ls)) p =
      (if load_size s l = 0 then pick_fitting s ok cap to_loads avg (map LoadNode ls) p
       else rbind (if avg \<le> pk_from_ios p - load_size s l \<and> pk_ios p + load_size s l \<le> avg
              then pick_load ok cap l (load_size s l) p1 else Inr p1) (\<lambda>p2.
         if 2 \<le> length (pk_mloads p2) \<and> to_loads \<noteq> 0 then Inr p2
         else if pk_ios p2 = avg then Inr p2
         else pick_fitting s ok cap to_loads avg (map LoadNode ls) p2))"
    using vl p1 by (simp add: list_entry_load_def Let_def load_size_def p1_def two)
  have seen: "smallest_seen s (ds @ [l]) (if load_size s l = 0 then p else p1)" if "pk_mloads p = []"
    using smallest_seen_snoc [OF Cons.prems(4) [OF that], of l] by (simp add: p1_def)
  show ?case
  proof (cases "load_size s l \<noteq> 0 \<and> avg \<le> pk_from_ios p - load_size s l \<and> pk_ios p + load_size s l \<le> avg")
    case False
    let ?p = "if load_size s l = 0 then p else p1"
    have "pick_fitting s ok cap to_loads avg (map LoadNode (l # ls)) p = pick_fitting s ok cap to_loads avg (map LoadNode ls) ?p"
      using False Cons.prems(1,2) p1 unfolding step by auto
    moreover have "pk_mloads ?p = pk_mloads p" "pk_ios ?p = pk_ios p" "pk_from_ios ?p = pk_from_ios p" using p1 by simp_all
    ultimately show ?thesis
      using Cons.IH [of ?p "ds @ [l]"] Cons.prems seen False by auto
  next
    case True
    show ?thesis
    proof (cases "pick_load ok cap l (load_size s l) p1")
      case (Inr p2)
      then have p2: "pk_mloads p2 = pk_mloads p @ [l]" "pk_ios p2 = pk_ios p + load_size s l" "pk_from_ios p2 = pk_from_ios p - load_size s l"
        using p1 by (auto simp: pick_load_def store_load_def rbind_eq_Inr split: if_splits)
      have "sat UNIV (pick_fitting s ok cap to_loads avg (map LoadNode ls) p2)
          (\<lambda>p'. pk_mloads p' = pk_mloads p2 @ first_fit (load_size s) avg (to_loads \<noteq> 0) (length (pk_mloads p2)) (pk_ios p2) (pk_from_ios p2) ls)"
        if "\<not> (2 \<le> length (pk_mloads p2) \<and> to_loads \<noteq> 0)" "pk_ios p2 \<noteq> avg"
        by (rule sat_mono [OF Cons.IH [of p2 "[]"]]) (use that Cons.prems(3) p2 in auto)
      moreover have "first_fit (load_size s) avg (to_loads \<noteq> 0) (length (pk_mloads p2)) (pk_ios p2) (pk_from_ios p2) ls = []"
        if "2 \<le> length (pk_mloads p2) \<and> to_loads \<noteq> 0 \<or> pk_ios p2 = avg"
        using that by (cases ls) auto
      ultimately show ?thesis
        using True Cons.prems(1,2) Inr unfolding step by (auto simp: p2 elim!: sat_mono)
    next
      case (Inl e)
      have "pick_fitting s ok cap to_loads avg (map LoadNode (l # ls)) p = Inl e"
        using True Inl unfolding step by simp
      then show ?thesis by (simp del: pick_fitting.simps first_fit.simps)
    qed
  qed
qed

text \<open>
  The choice as a whole: loads away from home are taken all; otherwise the loads taken leave
  both streams on their side of the average; otherwise at most one load is taken, and it
  leaves the destination below one and a half times the source.
\<close>

definition pick_result :: "sys \<Rightarrow> lptr list \<Rightarrow> u32 \<Rightarrow> u32 \<Rightarrow> u32 \<Rightarrow> lptr list \<Rightarrow> bool" where
  "pick_result s q ios1 ios2 avg ms \<longleftrightarrow>
     set ms \<subseteq> set q \<and> distinct ms \<and>
     (if filter (foreign s) q \<noteq> [] then ms = filter (foreign s) q
      else ms = [] \<or>
        (ios1 + loads_size s ms \<le> avg \<and> avg \<le> ios2 - loads_size s ms) \<or>
        (length ms = 1 \<and> 2 * sint (ios1 + loads_size s ms) < 3 * sint (ios2 - loads_size s ms)))"

lemma pick_smallest_sat:
  assumes "pick_ok s q ios1 ios2 p" and "fits avg p" and "length q \<le> unat cap"
    and "filter (foreign s) q = []" and "ok \<or> OutOfMemory \<in> E"
  shows "sat E (pick_smallest ok cap ios1 ios2 p)
    (\<lambda>p'. pick_result s q ios1 ios2 avg (pk_mloads p') \<and> pk_ios p' = ios1 + loads_size s (pk_mloads p'))"
proof (cases "pk_mloads p = [] \<and> pk_min_lsize p \<noteq> 0")
  case True
  then obtain l where l: "l \<in> set q" "pk_min_load p = Some l" "pk_min_lsize p = abtst_get_load_size (load_at s l)"
    using assms(1) by (auto simp: pick_ok_def)
  then have "0 < unat cap" using assms(3) by (cases q) auto
  with True l assms(1,4,5) show ?thesis
    by (auto simp: pick_smallest_def pick_result_def pick_ok_def store_load_def)
next
  case False
  with assms show ?thesis
    by (auto simp: pick_smallest_def pick_result_def pick_ok_def fits_def)
qed

lemma select_loads_sat:
  assumes valid: "\<And>l. l \<in> set q \<Longrightarrow> valid_load s l" and q: "distinct q" "length q \<le> unat cap"
    and mem: "ok \<or> OutOfMemory \<in> E"
  shows "sat E (select_loads s ok cap to_loads ios1 ios2 avg (map LoadNode q))
    (\<lambda>p. pick_result s q ios1 ios2 avg (pk_mloads p) \<and> pk_ios p = ios1 + loads_size s (pk_mloads p))"
proof -
  have "sat E (rbind (if pk_mloads p = [] then pick_fitting s ok cap to_loads avg (map LoadNode q) p else Inr p)
      (\<lambda>p. pick_smallest ok cap ios1 ios2 p))
      (\<lambda>p. pick_result s q ios1 ios2 avg (pk_mloads p) \<and> pk_ios p = ios1 + loads_size s (pk_mloads p))"
    if p: "pick_ok s q ios1 ios2 p" "pk_mloads p = filter (foreign s) q" "pk_min_lsize p = 0" for p
  proof (cases "pk_mloads p = []")
    case True
    then have "sat E (pick_fitting s ok cap to_loads avg (map LoadNode q) p)
        (\<lambda>p'. pick_ok s q ios1 ios2 p' \<and> fits avg p')"
      using p(1) q valid mem by (intro pick_fitting_sat) (auto simp: fits_def)
    with True p(2) q(2) mem show ?thesis
      by (auto elim!: sat_mono intro!: pick_smallest_sat)
  next
    case False
    with p show ?thesis
      by (auto simp: pick_smallest_def pick_result_def pick_ok_def)
  qed
  then show ?thesis
    unfolding select_loads_def sat_rbind [of _ "for_each _ _ _"]
    by (intro sat_mono [OF pick_foreign_sat [OF valid q mem]]) auto
qed

text \<open>The three loops take exactly the loads of \<open>chosen_loads\<close>.\<close>

lemma pick_smallest_exact:
  assumes "pk_mloads p = [] \<Longrightarrow> smallest_seen s q p"
  shows "sat UNIV (pick_smallest ok cap ios1 ios2 p) (\<lambda>p'. pk_mloads p' =
    (if pk_mloads p \<noteq> [] then pk_mloads p
     else case smallest_load (load_size s) q of None \<Rightarrow> []
       | Some l \<Rightarrow> if 2 * sint (ios1 + load_size s l) < 3 * sint (ios2 - load_size s l) then [l] else []))"
  using assms
  by (cases "pk_mloads p = []")
    (auto simp: pick_smallest_def smallest_seen_def store_load_def split: option.splits)

lemma select_loads_exact:
  assumes valid: "\<And>l. l \<in> set q \<Longrightarrow> valid_load s l" and q: "distinct q" "length q \<le> unat cap"
    and ios1: "ios1 \<noteq> avg"
  shows "sat UNIV (select_loads s ok cap to_loads ios1 ios2 avg (map LoadNode q))
    (\<lambda>p. pk_mloads p = chosen_loads s (to_loads \<noteq> 0) ios1 ios2 avg q)"
proof -
  have "sat UNIV (rbind (if pk_mloads p = [] then pick_fitting s ok cap to_loads avg (map LoadNode q) p else Inr p)
      (\<lambda>p. pick_smallest ok cap ios1 ios2 p)) (\<lambda>p. pk_mloads p = chosen_loads s (to_loads \<noteq> 0) ios1 ios2 avg q)"
    if p: "pick_ok s q ios1 ios2 p" "pk_mloads p = filter (foreign s) q" "pk_min_lsize p = 0" for p
  proof (cases "pk_mloads p = []")
    case True
    then have start: "pk_ios p = ios1" "pk_from_ios p = ios2" "smallest_seen s [] p"
      using p by (simp_all add: pick_ok_def loads_size_def smallest_seen_def smallest_load_def)
    have "sat UNIV (pick_fitting s ok cap to_loads avg (map LoadNode q) p)
        (\<lambda>p'. pk_mloads p' = first_fit (load_size s) avg (to_loads \<noteq> 0) 0 ios1 ios2 q \<and>
          (pk_mloads p' = [] \<longrightarrow> smallest_seen s q p'))"
      using pick_fitting_exact [of to_loads p avg q s "[]"] True start ios1 valid by simp
    then show ?thesis
      using True p(2) by (auto simp: chosen_loads_def elim!: sat_mono intro!: sat_mono [OF pick_smallest_exact])
  next
    case False
    with p(2) show ?thesis by (simp add: pick_smallest_def chosen_loads_def)
  qed
  then show ?thesis
    unfolding select_loads_def sat_rbind [of _ "for_each _ _ _"]
    by (intro sat_mono [OF pick_foreign_sat [OF valid q]]) auto
qed


subsection \<open>Rebalancing two streams\<close>

lemma loads_size_alloc:
  assumes "alloc s = (b, s')"
  shows "loads_size s' = loads_size s" "foreign s' = foreign s" "pick_result s' = pick_result s"
    "chosen_loads s' = chosen_loads s"
proof -
  show *: "loads_size s' = loads_size s" "foreign s' = foreign s"
    by (simp_all add: loads_size_def foreign_def alloc_frame [OF assms] fun_eq_iff)
  show "pick_result s' = pick_result s" unfolding pick_result_def * ..
  have "load_size s' = load_size s"
    by (simp add: load_size_def alloc_frame [OF assms] fun_eq_iff)
  then show "chosen_loads s' = chosen_loads s" unfolding chosen_loads_def * by (simp only:)
qed

text \<open>
  The loads that leave stream \<open>from\<close> for \<open>to\<close> around the average \<open>avg\<close>: none unless the depth
  of the destination is below and that of the source above the average, with the source at one
  and a half times the destination at least, and then those of \<open>chosen_loads\<close>.
\<close>

definition moved_loads :: "sys \<Rightarrow> nat \<Rightarrow> nat \<Rightarrow> u32 \<Rightarrow> lptr list" where
  "moved_loads s from to avg =
     (let ios1 = abtst_stream_get_qdepth (stream_at s to); ios2 = abtst_stream_get_qdepth (stream_at s from) in
      if ios1 < avg \<and> avg < ios2 \<and> 3 * sint ios1 \<le> 2 * sint ios2
      then chosen_loads s (nr_loads (stream_at s to) \<noteq> 0) ios1 ios2 avg (load_queue s from) else [])"

text \<open>
  The outcome of a rebalancing of two streams: these loads go from one stream to the other, with
  their size; the answer is 0 when there are some.
\<close>

definition rebalanced :: "sys \<Rightarrow> nat \<Rightarrow> nat \<Rightarrow> u32 \<Rightarrow> int \<Rightarrow> lptr list \<Rightarrow> sys \<Rightarrow> bool" where
  "rebalanced s from to avg r ms s' \<longleftrightarrow>
     ms = moved_loads s from to avg \<and> r = (if ms = [] then - 1 else 0) \<and>
     set ms \<subseteq> set (load_queue s from) \<and> distinct ms \<and>
     (ms = [] \<or> pick_result s (load_queue s from) (abtst_stream_get_qdepth (stream_at s to))
        (abtst_stream_get_qdepth (stream_at s from)) avg ms) \<and>
     requeued s from to ms s' \<and> depth_moved s from to (loads_size s ms) s'"

lemma rebalanced_none:
  "moved_loads s from to avg = [] \<Longrightarrow> requeued s from to [] s' \<Longrightarrow> same_depths s s' \<Longrightarrow>
    rebalanced s from to avg (- 1) [] s'"
  by (auto simp: rebalanced_def depth_moved_def same_depths_def)

lemma rebalance_move_sat:
  assumes al: "alloc s = (ok, s1)" and wf: "wf_queues s"
    and ft: "from < n_streams s" "to < n_streams s" "from \<noteq> to"
    and ios: "ios1 = abtst_stream_get_qdepth (stream_at s to)" "ios2 = abtst_stream_get_qdepth (stream_at s from)"
    and p: "pick_result s (load_queue s from) ios1 ios2 avg (pk_mloads p)" "pk_ios p = ios1 + loads_size s (pk_mloads p)"
      "pk_mloads p = moved_loads s from to avg"
  shows "sat E (if pk_mloads p = [] then Inr (-1, s1) else
        rbind (for_each (migrate_load from to) (pk_mloads p) s1) (\<lambda>s.
        rbind (upd_stream s from (abtst_stream_update_qdepth (ios2 - (pk_ios p - ios1)))) (\<lambda>s.
        rbind (upd_stream s to (abtst_stream_update_qdepth (pk_ios p))) (\<lambda>s. Inr (0, s)))))
    (\<lambda>(r, s'). \<exists>ms. rebalanced s from to avg r ms s')"
proof (cases "pk_mloads p = []")
  case True
  have "requeued s from to [] s1" "same_depths s s1"
    using requeued_alloc [OF al requeued_Nil [OF wf_queues_alloc [OF al wf]] ft(1)]
    by (auto simp: same_depths_def alloc_frame [OF al])
  from rebalanced_none [OF _ this, of avg] show ?thesis using True p(3) by simp blast
next
  case False
  have ms: "set (pk_mloads p) \<subseteq> set (load_queue s from)" "distinct (pk_mloads p)"
    using p(1) by (auto simp: pick_result_def)
  have fin: "rebalanced s from to avg 0 (pk_mloads p)
      (set_stream (set_stream s2 from (abtst_stream_update_qdepth (ios2 - (pk_ios p - ios1))))
        to (abtst_stream_update_qdepth (pk_ios p)))"
    if "requeued s from to (pk_mloads p) s2" "same_depths s s2" "n_streams s2 = n_streams s" for s2
    using that ft ms False p ios
    by (auto simp: rebalanced_def depth_moved_def same_depths_def intro!: requeued_set_qdepth)
  then show ?thesis
    using False ft by (auto intro!: sat_mono [OF migrate_loads_alloc [OF al wf ft ms]]) blast
qed

lemma abtst_rebalance_streams_sat:
  assumes wf: "wf_queues s" and mem: "mem_ok E s" and ft: "from < n_streams s" "to < n_streams s" "from \<noteq> to"
    and p1: "sp_stream p1 = StreamPtr to" "ios p1 = abtst_stream_get_qdepth (stream_at s to)"
    and p2: "sp_stream p2 = StreamPtr from" "ios p2 = abtst_stream_get_qdepth (stream_at s from)"
  shows "sat E (abtst_rebalance_streams s p1 p2 avg)
    (\<lambda>(r, s'). \<exists>ms. rebalanced s from to avg r ms s')"
proof (cases "ios p1 \<ge> avg \<or> ios p2 \<le> avg \<or> 2 * sint (ios p2) < 3 * sint (ios p1)")
  case True
  then have "abtst_rebalance_streams s p1 p2 avg = Inr (-1, s)" "moved_loads s from to avg = []"
    by (auto simp: abtst_rebalance_streams_def moved_loads_def Let_def p1(2) p2(2))
  then show ?thesis using rebalanced_none [OF _ requeued_Nil [OF wf], of "from" to avg] by simp blast
next
  case False
  obtain ok s1 where al: "alloc s = (ok, s1)" by (cases "alloc s")
  note fr = alloc_frame [OF al] loads_size_alloc [OF al]
  let ?q = "load_queue s from"
  have sel: "sat E (select_loads s1 ok (nr_loads (stream_at s from)) (nr_loads (stream_at s to))
      (ios p1) (ios p2) avg (map LoadNode ?q))
      (\<lambda>p. pick_result s ?q (ios p1) (ios p2) avg (pk_mloads p) \<and> pk_ios p = ios p1 + loads_size s (pk_mloads p) \<and>
        pk_mloads p = moved_loads s from to avg)"
proof -
    have q: "\<And>l. l \<in> set ?q \<Longrightarrow> valid_load s1 l" "distinct ?q" "length ?q \<le> unat (nr_loads (stream_at s from))"
      using wf_queuesD(4,6) [OF wf ft(1)] unat_nr_loads [OF wf ft(1)] by (simp_all add: fr)
    have "moved_loads s from to avg = chosen_loads s1 (nr_loads (stream_at s to) \<noteq> 0) (ios p1) (ios p2) avg ?q"
      using False by (auto simp: moved_loads_def p1(2) p2(2) fr Let_def)
    with False have exact: "sat UNIV (select_loads s1 ok (nr_loads (stream_at s from)) (nr_loads (stream_at s to))
        (ios p1) (ios p2) avg (map LoadNode ?q)) (\<lambda>p. pk_mloads p = moved_loads s from to avg)"
      using select_loads_exact [OF q, of "ios p1" avg] by auto
    show ?thesis
      using mem_ok_alloc [OF mem al] satD [OF exact]
      by (intro sat_mono [OF select_loads_sat [OF q]]) (auto simp: fr)
  qed
  have "abtst_rebalance_streams s p1 p2 avg =
      rbind (select_loads s1 ok (nr_loads (stream_at s from)) (nr_loads (stream_at s to))
        (ios p1) (ios p2) avg (map LoadNode ?q)) (\<lambda>p.
      if pk_mloads p = [] then Inr (-1, s1) else
      rbind (for_each (migrate_load from to) (pk_mloads p) s1) (\<lambda>s.
      rbind (upd_stream s from (abtst_stream_update_qdepth (ios p2 - (pk_ios p - ios p1)))) (\<lambda>s.
      rbind (upd_stream s to (abtst_stream_update_qdepth (pk_ios p))) (\<lambda>s. Inr (0, s)))))"
    using ft False
    by (simp add: abtst_rebalance_streams_def p1(1) p2(1) deref_stream_def al fr wf_list_for_each [OF wf ft(1)])
  then show ?thesis
    by (simp only: sat_rbind [of _ "select_loads _ _ _ _ _ _ _ _"])
      (rule sat_mono [OF sel], elim conjE, rule rebalance_move_sat [OF al wf ft p1(2) p2(2)])
qed

end
