(* ===== verification/Env.thy ===== *)
theory Env
  imports Stream_Choice
begin

text \<open>
  The machine: \<^verbatim>\<open>include/env.h\<close> and the NUMA part of \<^verbatim>\<open>src/arch/env.c\<close>. A
  pointer result that may be null is an option; \<open>nonnull\<close> is its dereference.
  \<open>numa_cores s i\<close> are the cores of a node, \<open>used_in s i\<close> those with a stream in use.
\<close>

definition nonnull :: "'a option \<Rightarrow> 'a res" where
  "nonnull p = (case p of None \<Rightarrow> Inl InvalidPtr | Some x \<Rightarrow> Inr x)"

definition abtst_get_numa_info :: "sys \<Rightarrow> u32 \<Rightarrow> abtst_numa option res" where
  "abtst_get_numa_info s i =
     (if i \<ge> nr_numas (env s) then Inr None
      else rbind (idx (numa_info (env s)) (unat i)) (\<lambda>n. Inr (Some n)))"

definition abtst_get_numa_stat :: "sys \<Rightarrow> u32 \<Rightarrow> abtst_numa_stat option res" where
  "abtst_get_numa_stat s i =
     (if i \<ge> nr_numas (env s) then Inr None
      else rbind (idx (numa_stat (env s)) (unat i)) (\<lambda>n. Inr (Some n)))"

definition abtst_set_numa_stat :: "sys \<Rightarrow> u32 \<Rightarrow> u32 \<Rightarrow> u32 \<Rightarrow> sys res" where
  "abtst_set_numa_stat s i cores qd =
     (if i \<ge> nr_numas (env s) then Inr s
      else rbind (put (numa_stat (env s)) (unat i) \<lparr>numa_used_cores = cores, avg_qdepth = qd\<rparr>) (\<lambda>st.
           Inr (s\<lparr>env := (env s)\<lparr>numa_stat := st\<rparr>\<rparr>)))"

definition abtst_set_numa_rebalance :: "sys \<Rightarrow> bool \<Rightarrow> sys" where
  "abtst_set_numa_rebalance s b = s\<lparr>env := (env s)\<lparr>rebalance_enabled := b\<rparr>\<rparr>"

definition abtst_is_numa_rebalance_enabled :: "sys \<Rightarrow> bool" where
  "abtst_is_numa_rebalance_enabled s = rebalance_enabled (env s)"

definition abtst_set_stopping :: "sys \<Rightarrow> sys" where
  "abtst_set_stopping s = s\<lparr>env := (env s)\<lparr>stopping := True\<rparr>\<rparr>"

definition abtst_is_system_stopping :: "sys \<Rightarrow> bool" where
  "abtst_is_system_stopping s = stopping (env s)"

text \<open>The NUMA node of a core: the loop returns the first node whose range holds it.\<close>

fun find_numa :: "abtst_numa list \<Rightarrow> u32 \<Rightarrow> nat list \<Rightarrow> int res" where
  "find_numa info core [] = Inr (-1)"
| "find_numa info core (i # is) =
     rbind (idx info i) (\<lambda>n.
     if core \<ge> start_core n \<and> core \<le> end_core n then Inr (int i) else find_numa info core is)"

definition abtst_env_get_numa_id :: "sys \<Rightarrow> u32 \<Rightarrow> int res" where
  "abtst_env_get_numa_id s core = find_numa (numa_info (env s)) core [0..<unat (nr_numas (env s))]"

definition count_used :: "sys \<Rightarrow> nat \<Rightarrow> u32 \<times> u32 \<Rightarrow> (u32 \<times> u32) res" where
  "count_used s j acc =
     rbind (get_stream s j) (\<lambda>st.
     if \<not> used st then Inr acc
     else Inr (fst acc + abtst_stream_get_qdepth st, snd acc + 1))"

definition update_numa_stat :: "nat \<Rightarrow> sys \<Rightarrow> sys res" where
  "update_numa_stat i s =
     rbind (abtst_get_numa_info s (of_nat i)) (\<lambda>p. rbind (nonnull p) (\<lambda>info.
     rbind (for_each (count_used s) (core_range (start_core info) (end_core info)) (0, 0)) (\<lambda>(qdepth, cnt).
     rbind (udiv qdepth cnt) (\<lambda>avg.
     abtst_set_numa_stat s (of_nat i) cnt avg))))"

definition abtst_update_numa_stats :: "sys \<Rightarrow> sys res" where
  "abtst_update_numa_stats s = for_each update_numa_stat [0..<unat (nr_numas (env s))] s"

definition abtst_get_average_qdepth :: "sys \<Rightarrow> u32 res" where
  "abtst_get_average_qdepth s =
     rbind (for_each (\<lambda>i (cores, qdepth).
         rbind (abtst_get_numa_stat s (of_nat i)) (\<lambda>p. rbind (nonnull p) (\<lambda>st.
         if numa_used_cores st = 0 then Inr (cores, qdepth)
         else Inr (cores + numa_used_cores st, qdepth + avg_qdepth st * numa_used_cores st))))
       [0..<unat (nr_numas (env s))] (0, 0)) (\<lambda>(cores, qdepth).
     if cores = 0 then Inr 0 else udiv qdepth cores)"

subsection \<open>Topology\<close>

definition numa_at :: "sys \<Rightarrow> nat \<Rightarrow> abtst_numa" where
  "numa_at s i = numa_info (env s) ! i"

definition numa_cores :: "sys \<Rightarrow> nat \<Rightarrow> nat list" where
  "numa_cores s i = core_range (start_core (numa_at s i)) (end_core (numa_at s i))"

definition used_in :: "sys \<Rightarrow> nat \<Rightarrow> nat list" where
  "used_in s i = filter (\<lambda>k. used (stream_at s k)) (numa_cores s i)"

definition n_numas :: "sys \<Rightarrow> nat" where
  "n_numas s = unat (nr_numas (env s))"

text \<open>
  What \<^verbatim>\<open>abtst_init_env\<close> and \<^verbatim>\<open>abtst_init_streams\<close> set up: one stream per core, at
  most \<open>MAX_NUMAS\<close> nodes, each a non-empty range of cores, no core in two nodes.
\<close>

definition wf_topology :: "sys \<Rightarrow> bool" where
  "wf_topology s \<longleftrightarrow>
     n_numas s \<le> MAX_NUMAS \<and> length (numa_info (env s)) = MAX_NUMAS \<and> length (numa_stat (env s)) = MAX_NUMAS \<and>
     unat (nr_cores (env s)) = n_streams s \<and> max_xstreams (streams s) = nr_cores (env s) \<and>
     n_streams s < 2 ^ 31 \<and>
     (\<forall>i < n_numas s. start_core (numa_at s i) \<le> end_core (numa_at s i) \<and>
       end_core (numa_at s i) < nr_cores (env s)) \<and>
     (\<forall>i < n_numas s. \<forall>j < i. set (numa_cores s i) \<inter> set (numa_cores s j) = {})"

lemma nonnull_simps [simp]: "nonnull (Some x) = Inr x" "nonnull None = Inl InvalidPtr"
  by (simp_all add: nonnull_def)

lemma of_nat_numa_less:
  assumes "i < n_numas s"
  shows "(of_nat i :: u32) < nr_numas (env s)" "unat (of_nat i :: u32) = i"
proof -
  have "i < 2 ^ 32" using assms unsigned_less [of "nr_numas (env s)", where 'a = nat] by (simp add: n_numas_def)
  then show u: "unat (of_nat i :: u32) = i" by simp
  show "(of_nat i :: u32) < nr_numas (env s)" using assms u by (simp add: word_less_nat_alt n_numas_def)
qed

lemma get_numa_info_ok [simp]:
  "wf_topology s \<Longrightarrow> i < n_numas s \<Longrightarrow> abtst_get_numa_info s (of_nat i) = Inr (Some (numa_at s i))"
  using of_nat_numa_less [of i s] by (auto simp: abtst_get_numa_info_def wf_topology_def numa_at_def not_le)

lemma get_numa_stat_ok [simp]:
  "wf_topology s \<Longrightarrow> i < n_numas s \<Longrightarrow> abtst_get_numa_stat s (of_nat i) = Inr (Some (numa_stat (env s) ! i))"
  using of_nat_numa_less [of i s] by (auto simp: abtst_get_numa_stat_def wf_topology_def not_le)

lemma set_numa_stat_ok [simp]:
  "wf_topology s \<Longrightarrow> i < n_numas s \<Longrightarrow> abtst_set_numa_stat s (of_nat i) c q =
    Inr (s\<lparr>env := (env s)\<lparr>numa_stat := (numa_stat (env s))[i := \<lparr>numa_used_cores = c, avg_qdepth = q\<rparr>]\<rparr>\<rparr>)"
  using of_nat_numa_less [of i s] by (auto simp: abtst_set_numa_stat_def wf_topology_def not_le)

lemma numa_cores_bound: "wf_topology s \<Longrightarrow> i < n_numas s \<Longrightarrow> k \<in> set (numa_cores s i) \<Longrightarrow> k < n_streams s"
  by (auto simp: numa_cores_def core_range_def wf_topology_def word_less_nat_alt)

lemma numa_cores_disjoint:
  assumes "wf_topology s" "i < n_numas s" "j < n_numas s" "i \<noteq> j"
  shows "set (numa_cores s i) \<inter> set (numa_cores s j) = {}"
  using assms by (cases "i < j") (auto simp: wf_topology_def Int_commute)

lemma distinct_numa_cores [simp]: "distinct (numa_cores s i)"
  by (simp add: numa_cores_def core_range_def)

lemma length_numa_cores: "wf_topology s \<Longrightarrow> i < n_numas s \<Longrightarrow> length (numa_cores s i) \<le> n_streams s"
proof -
  assume "wf_topology s" "i < n_numas s"
  then have "set (numa_cores s i) \<subseteq> {..<n_streams s}" using numa_cores_bound by auto
  then have "card (set (numa_cores s i)) \<le> card {..<n_streams s}" by (intro card_mono) auto
  then show ?thesis by (simp add: distinct_card)
qed

text \<open>Updates of parts of the state the topology does not depend on.\<close>

lemma env_update_views [simp, frame]:
  "n_streams (s\<lparr>env := e\<rparr>) = n_streams s" "stream_at (s\<lparr>env := e\<rparr>) = stream_at s"
  "valid_load (s\<lparr>env := e\<rparr>) = valid_load s" "load_at (s\<lparr>env := e\<rparr>) = load_at s"
  "load_partition (s\<lparr>env := e\<rparr>) = load_partition s" "load_queue (s\<lparr>env := e\<rparr>) = load_queue s"
  "all_loads (s\<lparr>env := e\<rparr>) = all_loads s"
  by (simp_all add: n_streams_def stream_at_def valid_load_def load_at_def load_partition_def
      load_queue_def all_loads_def fun_eq_iff)

lemma partitions_update_views [simp, frame]:
  "n_streams (s\<lparr>partitions := e\<rparr>) = n_streams s" "stream_at (s\<lparr>partitions := e\<rparr>) = stream_at s"
  "valid_load (s\<lparr>partitions := e\<rparr>) = valid_load s" "load_at (s\<lparr>partitions := e\<rparr>) = load_at s"
  "load_partition (s\<lparr>partitions := e\<rparr>) = load_partition s" "load_queue (s\<lparr>partitions := e\<rparr>) = load_queue s"
  "all_loads (s\<lparr>partitions := e\<rparr>) = all_loads s"
  by (simp_all add: n_streams_def stream_at_def valid_load_def load_at_def load_partition_def
      load_queue_def all_loads_def fun_eq_iff)

lemma power_update_views [simp, frame]:
  "n_streams (s\<lparr>power := e\<rparr>) = n_streams s" "stream_at (s\<lparr>power := e\<rparr>) = stream_at s"
  "valid_load (s\<lparr>power := e\<rparr>) = valid_load s" "load_at (s\<lparr>power := e\<rparr>) = load_at s"
  "load_partition (s\<lparr>power := e\<rparr>) = load_partition s" "load_queue (s\<lparr>power := e\<rparr>) = load_queue s"
  "all_loads (s\<lparr>power := e\<rparr>) = all_loads s"
  by (simp_all add: n_streams_def stream_at_def valid_load_def load_at_def load_partition_def
      load_queue_def all_loads_def fun_eq_iff)

lemma wf_queues_updates [simp]:
  "wf_queues (s\<lparr>env := e\<rparr>) = wf_queues s" "wf_queues (s\<lparr>partitions := p\<rparr>) = wf_queues s"
  "wf_queues (s\<lparr>power := w\<rparr>) = wf_queues s"
  by (simp_all add: wf_queues_def wf_queue_def)

lemma topology_views [simp, frame]:
  "numa_cores (s\<lparr>env := (env s)\<lparr>numa_stat := x\<rparr>\<rparr>) = numa_cores s"
  "numa_cores (s\<lparr>partitions := p\<rparr>) = numa_cores s" "numa_cores (s\<lparr>power := w\<rparr>) = numa_cores s"
  "numa_cores (set_stream s k f) = numa_cores s"
  "n_numas (s\<lparr>env := (env s)\<lparr>numa_stat := x\<rparr>\<rparr>) = n_numas s"
  "n_numas (s\<lparr>partitions := p\<rparr>) = n_numas s" "n_numas (s\<lparr>power := w\<rparr>) = n_numas s"
  "n_numas (set_stream s k f) = n_numas s"
  by (simp_all add: numa_cores_def numa_at_def n_numas_def fun_eq_iff)

lemma wf_topology_updates [simp]:
  "length x = length (numa_stat (env s)) \<Longrightarrow> wf_topology (s\<lparr>env := (env s)\<lparr>numa_stat := x\<rparr>\<rparr>) = wf_topology s"
  "wf_topology (s\<lparr>partitions := p\<rparr>) = wf_topology s" "wf_topology (s\<lparr>power := w\<rparr>) = wf_topology s"
  "wf_topology (set_stream s k f) = wf_topology s"
  by (simp_all add: wf_topology_def numa_at_def)

lemma same_shape_topology:
  assumes "same_shape s s'"
  shows "wf_topology s' = wf_topology s" "numa_cores s' = numa_cores s" "n_numas s' = n_numas s"
  using same_shapeD [OF assms]
  by (simp_all add: wf_topology_def numa_cores_def numa_at_def n_numas_def fun_eq_iff)

subsection \<open>Node statistics\<close>

text \<open>
  The specification of a node's statistics: the number of its streams in use and the average
  of their queue depths, over the words.
\<close>

definition depth_sum :: "sys \<Rightarrow> nat list \<Rightarrow> u32" where
  "depth_sum s ks = (\<Sum>k\<leftarrow>ks. abtst_stream_get_qdepth (stream_at s k))"

definition numa_stat_of :: "sys \<Rightarrow> nat \<Rightarrow> abtst_numa_stat" where
  "numa_stat_of s i = \<lparr>numa_used_cores = of_nat (length (used_in s i)),
     avg_qdepth = depth_sum s (used_in s i) div of_nat (length (used_in s i))\<rparr>"

lemma count_used_loop:
  assumes "\<And>k. k \<in> set ks \<Longrightarrow> k < n_streams s"
  shows "for_each (count_used s) ks (q, c)
    = Inr (q + depth_sum s (filter (\<lambda>k. used (stream_at s k)) ks),
           c + of_nat (length (filter (\<lambda>k. used (stream_at s k)) ks)))"
  using assms by (induction ks arbitrary: q c) (auto simp: count_used_def depth_sum_def algebra_simps)

lemma length_used_in:
  assumes "wf_topology s" "i < n_numas s"
  shows "length (used_in s i) < 2 ^ 31"
proof -
  have "length (used_in s i) \<le> length (numa_cores s i)" by (simp add: used_in_def)
  also have "\<dots> \<le> n_streams s" by (rule length_numa_cores [OF assms])
  also have "\<dots> < 2 ^ 31" using assms(1) by (simp add: wf_topology_def)
  finally show ?thesis .
qed

lemma of_nat_u32_0_iff: "n < 2 ^ 32 \<Longrightarrow> (of_nat n :: u32) = 0 \<longleftrightarrow> n = 0"
  using of_nat_u32_inj [of n 0] by simp

text \<open>The division in \<^verbatim>\<open>update_numa_stat\<close> faults exactly on a node with no stream in use.\<close>

lemma update_numa_stat_eq:
  assumes wf: "wf_topology s" and i: "i < n_numas s"
  shows "update_numa_stat i s =
    (if used_in s i = [] then Inl DivByZero
     else Inr (s\<lparr>env := (env s)\<lparr>numa_stat := (numa_stat (env s))[i := numa_stat_of s i]\<rparr>\<rparr>))"
proof -
  have "for_each (count_used s) (numa_cores s i) (0, 0)
      = Inr (depth_sum s (used_in s i), of_nat (length (used_in s i)))"
    using count_used_loop [of "numa_cores s i" s 0 0] numa_cores_bound [OF wf i] by (simp add: used_in_def)
  moreover have "(of_nat (length (used_in s i)) :: u32) = 0 \<longleftrightarrow> used_in s i = []"
    using length_used_in [OF wf i] by (subst of_nat_u32_0_iff) auto
  ultimately show ?thesis
    using assms by (simp add: update_numa_stat_def udiv_def numa_stat_of_def numa_cores_def)
qed

definition numa_stats_upto :: "sys \<Rightarrow> nat \<Rightarrow> sys \<Rightarrow> bool" where
  "numa_stats_upto s n s' \<longleftrightarrow> (\<exists>x. s' = s\<lparr>env := (env s)\<lparr>numa_stat := x\<rparr>\<rparr> \<and>
     length x = length (numa_stat (env s)) \<and> (\<forall>i < n. x ! i = numa_stat_of s i))"

lemma numa_stats_loop:
  assumes wf: "wf_topology s" and n: "n \<le> n_numas s" and used: "\<And>i. i < n \<Longrightarrow> used_in s i \<noteq> []"
  shows "sat {} (for_each update_numa_stat [0..<n] s) (numa_stats_upto s n)"
proof -
  have "sat {} (for_each update_numa_stat [0..<n] s) ((\<lambda>is. numa_stats_upto s (length is)) [0..<n])"
  proof (rule for_each_sat_prefix [where P = "\<lambda>is. numa_stats_upto s (length is)"])
    show "numa_stats_upto s (length []) s"
      unfolding numa_stats_upto_def by (intro exI [of _ "numa_stat (env s)"]) auto
  next
    fix ys i zs s1
    assume split: "[0..<n] = ys @ i # zs" and s1: "numa_stats_upto s (length ys) s1"
    then have ys: "ys = [0..<i]" and i: "i < n_numas s" "i < n" using upt_splitD [OF split] n by auto
    obtain x where x: "s1 = s\<lparr>env := (env s)\<lparr>numa_stat := x\<rparr>\<rparr>" "length x = length (numa_stat (env s))"
      "\<forall>j < length ys. x ! j = numa_stat_of s j"
      using s1 by (auto simp: numa_stats_upto_def)
    have same: "used_in s1 i = used_in s i" "numa_stat_of s1 i = numa_stat_of s i"
      by (simp_all add: x(1) used_in_def numa_stat_of_def depth_sum_def)
    have "update_numa_stat i s1 =
        Inr (s\<lparr>env := (env s)\<lparr>numa_stat := x[i := numa_stat_of s i]\<rparr>\<rparr>)"
      using wf i used [OF i(2)] same x(1,2) by (subst update_numa_stat_eq) auto
    moreover have "numa_stats_upto s (length (ys @ [i])) (s\<lparr>env := (env s)\<lparr>numa_stat := x[i := numa_stat_of s i]\<rparr>\<rparr>)"
      unfolding numa_stats_upto_def
      using x(2,3) ys i wf
      by (intro exI [of _ "x[i := numa_stat_of s i]"]) (auto simp: nth_update_if wf_topology_def)
    ultimately show "sat {} (update_numa_stat i s1) (numa_stats_upto s (length (ys @ [i])))" by simp
  qed
  then show ?thesis by simp
qed

lemma abtst_update_numa_stats_sat:
  assumes "wf_topology s" and "\<And>i. i < n_numas s \<Longrightarrow> used_in s i \<noteq> []"
  shows "sat {} (abtst_update_numa_stats s) (numa_stats_upto s (n_numas s))"
  using numa_stats_loop [OF assms(1) order_refl] assms(2) by (simp add: abtst_update_numa_stats_def n_numas_def)


lemma abtst_update_numa_stats_fault:
  assumes wf: "wf_topology s" and bad: "\<exists>i < n_numas s. used_in s i = []"
  shows "abtst_update_numa_stats s = Inl DivByZero"
proof -
  define i where "i = (LEAST i. i < n_numas s \<and> used_in s i = [])"
  have i: "i < n_numas s" "used_in s i = []" using LeastI_ex [OF bad] by (auto simp: i_def)
  have before: "used_in s j \<noteq> []" if "j < i" for j 
    using not_less_Least [of j "\<lambda>i. i < n_numas s \<and> used_in s i = []"] that i(1) by (auto simp: i_def)
  have "sat {} (for_each update_numa_stat [0..<i] s) (numa_stats_upto s i)"
    using numa_stats_loop [OF wf, of i] i(1) before by simp
  then obtain s1 where s1: "for_each update_numa_stat [0..<i] s = Inr s1" "numa_stats_upto s i s1" by (auto simp: sat_total)
  then have "update_numa_stat i s1 = Inl DivByZero"
    using wf i by (subst update_numa_stat_eq) (auto simp: numa_stats_upto_def used_in_def)
  moreover have "[0..<n_numas s] = [0..<i] @ i # [Suc i..<n_numas s]"
    using i(1) upt_add_eq_append [of 0 i "n_numas s - i"] by (simp add: upt_conv_Cons [symmetric])
  ultimately show ?thesis
    using s1(1) by (simp add: abtst_update_numa_stats_def n_numas_def for_each_append)
qed

end
