(* ===== verification/Partition.thy ===== *)
theory Partition
  imports Env
begin

text \<open>
  Partitions of the cores: \<^verbatim>\<open>include/partition.h\<close> and
  \<^verbatim>\<open>src/partition/partition.c\<close>. The map from cores to partitions is built from the
  configured partitions, refusing a core named twice; the statistics per partition and per
  partition and node are recomputed from the streams. \<open>part_cores s i p\<close> are the streams in
  use of partition \<open>p\<close> in node \<open>i\<close>.
\<close>

definition get_partition_map :: "abtst_partitions \<Rightarrow> int list" where
  "get_partition_map ps = partition_map ps"

definition abtst_get_partition_stat :: "abtst_partitions \<Rightarrow> int \<Rightarrow> int \<Rightarrow> abtst_partition_stat res" where
  "abtst_get_partition_stat ps numa_id p_id =
     (if numa_id < 0 then idx_int (part_stats ps) p_id
      else rbind (idx_int (numa_stats ps) p_id) (\<lambda>row. idx_int row numa_id))"

text \<open>
  \<^verbatim>\<open>memset\<close> with \<^verbatim>\<open>0xff\<close> sets every entry to \<open>-1\<close>; \<open>ok\<close> is the outcome of the
  allocation.
\<close>

definition init_partition_map :: "sys \<Rightarrow> int \<times> sys" where
  "init_partition_map s =
     (case alloc s of (ok, s) \<Rightarrow>
      if \<not> ok then (-1, s)
      else (0, s\<lparr>partitions := (partitions s)\<lparr>partition_map := replicate (unat (nr_cores (env s))) (-1)\<rparr>\<rparr>))"

text \<open>
  The two nested loops of \<^verbatim>\<open>abtst_init_partitions\<close>, which write the map in place: the
  flag is \<open>False\<close> on the early return for a core that is already in a partition, with the
  map as far as it was written. A partition's core list that is shorter than its
  \<^verbatim>\<open>nr_cores\<close>, or a core outside the map, is an access out of bounds.
\<close>

fun map_cores :: "int \<Rightarrow> int list \<Rightarrow> nat list \<Rightarrow> int list \<Rightarrow> (bool \<times> int list) res" where
  "map_cores pid cores [] m = Inr (True, m)"
| "map_cores pid cores (i # is) m =
     rbind (idx cores i) (\<lambda>core.
     rbind (idx_int m core) (\<lambda>old.
     if old \<ge> 0 then Inr (False, m)
     else rbind (put_int m core pid) (\<lambda>m. map_cores pid cores is m)))"

fun map_partitions :: "abtst_partition list \<Rightarrow> nat list \<Rightarrow> int list \<Rightarrow> (bool \<times> int list) res" where
  "map_partitions ps [] m = Inr (True, m)"
| "map_partitions ps (j # js) m =
     rbind (idx ps j) (\<lambda>p.
     rbind (map_cores (partition_id p) (partition_cores p) [0..<nat (part_nr_cores p)] m) (\<lambda>(ok, m).
     if \<not> ok then Inr (False, m) else map_partitions ps js m))"

text \<open>On an allocation failure the map pointer is set to null: an empty map.\<close>

definition abtst_init_partitions :: "sys \<Rightarrow> int \<Rightarrow> abtst_partition list \<Rightarrow> (int \<times> sys) res" where
  "abtst_init_partitions s num ps =
     (case init_partition_map (s\<lparr>partitions := (partitions s)\<lparr>nr_partitions := num, partition_array := ps\<rparr>\<rparr>) of
      (ret, s) \<Rightarrow>
      if ret \<noteq> 0 then Inr (-1, s\<lparr>partitions := (partitions s)\<lparr>partition_map := []\<rparr>\<rparr>)
      else rbind (map_partitions ps [0..<nat num] (partition_map (partitions s))) (\<lambda>(ok, m).
        Inr (if ok then 0 else -1, s\<lparr>partitions := (partitions s)\<lparr>partition_map := m\<rparr>\<rparr>)))"

definition zero_stat :: abtst_partition_stat where
  "zero_stat = \<lparr>part_used_cores = 0, part_qdepth = 0\<rparr>"

definition abtst_reset_partition_stats :: "abtst_partitions \<Rightarrow> abtst_partitions" where
  "abtst_reset_partition_stats ps =
     ps\<lparr>numa_stats := replicate MAX_PARTITIONS (replicate MAX_NUMAS zero_stat),
       part_stats := replicate MAX_PARTITIONS zero_stat\<rparr>"

definition count_stream :: "abtst_stream \<Rightarrow> abtst_partition_stat \<Rightarrow> abtst_partition_stat" where
  "count_stream st x = x\<lparr>part_qdepth := part_qdepth x + abtst_stream_get_qdepth st,
     part_used_cores := part_used_cores x + 1\<rparr>"

definition update_core_stats :: "sys \<Rightarrow> nat \<Rightarrow> nat \<Rightarrow> abtst_partitions \<Rightarrow> abtst_partitions res" where
  "update_core_stats s i j ps =
     rbind (get_stream s j) (\<lambda>st.
     if \<not> used st then Inr ps
     else
       rbind (idx_int (numa_stats ps) (part_id st)) (\<lambda>row.
       rbind (idx row i) (\<lambda>x.
       rbind (put row i (count_stream st x)) (\<lambda>row.
       rbind (put_int (numa_stats ps) (part_id st) row) (\<lambda>ns.
       rbind (idx_int (part_stats ps) (part_id st)) (\<lambda>y.
       rbind (put_int (part_stats ps) (part_id st) (count_stream st y)) (\<lambda>pst.
       Inr (ps\<lparr>numa_stats := ns, part_stats := pst\<rparr>))))))))"

definition abtst_update_partition_stats :: "sys \<Rightarrow> sys res" where
  "abtst_update_partition_stats s =
     rbind (for_each (\<lambda>i ps.
         rbind (abtst_get_numa_info s (of_nat i)) (\<lambda>p. rbind (nonnull p) (\<lambda>info.
         for_each (update_core_stats s i) (core_range (start_core info) (end_core info)) ps)))
       [0..<unat (nr_numas (env s))] (abtst_reset_partition_stats (partitions s))) (\<lambda>ps.
     Inr (s\<lparr>partitions := ps\<rparr>))"


subsection \<open>Partition statistics\<close>

definition in_part :: "sys \<Rightarrow> nat \<Rightarrow> nat \<Rightarrow> bool" where
  "in_part s p k \<longleftrightarrow> used (stream_at s k) \<and> part_id (stream_at s k) = int p"

definition part_cores :: "sys \<Rightarrow> nat \<Rightarrow> nat \<Rightarrow> nat list" where
  "part_cores s i p = filter (in_part s p) (numa_cores s i)"

definition stat_of :: "sys \<Rightarrow> nat list \<Rightarrow> abtst_partition_stat" where
  "stat_of s ks = \<lparr>part_used_cores = of_nat (length ks), part_qdepth = depth_sum s ks\<rparr>"

definition n_partitions :: "sys \<Rightarrow> nat" where
  "n_partitions s = nat (nr_partitions (partitions s))"

text \<open>
  What the configuration provides: between one and \<open>MAX_PARTITIONS\<close> partitions, the map
  over all cores, and every stream in use in one of the partitions.
\<close>

definition wf_partitions :: "sys \<Rightarrow> bool" where
  "wf_partitions s \<longleftrightarrow>
     1 \<le> nr_partitions (partitions s) \<and> n_partitions s \<le> MAX_PARTITIONS \<and>
     length (partition_map (partitions s)) = n_streams s \<and>
     (\<forall>k < n_streams s. used (stream_at s k) \<longrightarrow>
       0 \<le> part_id (stream_at s k) \<and> part_id (stream_at s k) < nr_partitions (partitions s))"

lemma for_each_nested:
  "for_each (\<lambda>i. for_each (g i) (h i)) xs s = for_each (\<lambda>(i, j). g i j) (concat (map (\<lambda>i. map (Pair i) (h i)) xs)) s"
proof (induction xs arbitrary: s)
  case (Cons x xs)
  have inner: "for_each (\<lambda>(i, j). g i j) (map (Pair x) ys) t = for_each (g x) ys t" for ys t
  proof (induction ys arbitrary: t)
    case (Cons y ys)
    then have "for_each (\<lambda>(i, j). g i j) (map (Pair x) ys) = for_each (g x) ys" by (rule ext)
    then show ?case by simp
  qed simp
  from Cons have "for_each (\<lambda>i. for_each (g i) (h i)) xs =
      for_each (\<lambda>(i, j). g i j) (concat (map (\<lambda>i. map (Pair i) (h i)) xs))" by (rule ext)
  then show ?case by (simp add: for_each_append inner)
qed simp

definition stats_inv :: "sys \<Rightarrow> (nat \<times> nat) list \<Rightarrow> abtst_partitions \<Rightarrow> bool" where
  "stats_inv s done ps \<longleftrightarrow>
     nr_partitions ps = nr_partitions (partitions s) \<and> partition_array ps = partition_array (partitions s) \<and>
     partition_map ps = partition_map (partitions s) \<and>
     length (numa_stats ps) = MAX_PARTITIONS \<and> length (part_stats ps) = MAX_PARTITIONS \<and>
     (\<forall>p < MAX_PARTITIONS. length (numa_stats ps ! p) = MAX_NUMAS \<and>
       part_stats ps ! p = stat_of s (map snd (filter (\<lambda>x. in_part s p (snd x)) done)) \<and>
       (\<forall>i < MAX_NUMAS. numa_stats ps ! p ! i =
         stat_of s (map snd (filter (\<lambda>x. fst x = i \<and> in_part s p (snd x)) done))))"

lemma count_stream_snoc: "count_stream (stream_at s k) (stat_of s ks) = stat_of s (ks @ [k])"
  by (simp add: count_stream_def stat_of_def depth_sum_def)

lemma update_core_stats_step:
  assumes inv: "stats_inv s done ps" and i: "i < MAX_NUMAS" and k: "k < n_streams s"
    and pid: "used (stream_at s k) \<Longrightarrow> 0 \<le> part_id (stream_at s k) \<and> nat (part_id (stream_at s k)) < MAX_PARTITIONS"
  shows "sat {} (update_core_stats s i k ps) (stats_inv s (done @ [(i, k)]))"
proof (cases "used (stream_at s k)")
  case False
  with inv k show ?thesis by (simp add: update_core_stats_def stats_inv_def in_part_def)
next
  case True
  define p where "p = nat (part_id (stream_at s k))"
  have p: "part_id (stream_at s k) = int p" "p < MAX_PARTITIONS" using pid [OF True] by (auto simp: p_def)
  have in_p: "in_part s p' k \<longleftrightarrow> p' = p" for p' using True p(1) by (auto simp: in_part_def)
  show ?thesis
    using inv k True p(2) i
    by (simp add: update_core_stats_def p(1) stats_inv_def nth_update_if count_stream_snoc in_p)
qed

lemma snd_filter_pairs:
  "map snd (filter (\<lambda>x. fst x = i \<and> P (snd x)) (concat (map (\<lambda>i. map (Pair i) (h i)) [0..<n])))
   = (if i < n then filter P (h i) else [])"
proof (induction n)
  case (Suc n)
  have "map snd (filter (\<lambda>x. fst x = i \<and> P (snd x)) (map (Pair n) ys)) = (if i = n then filter P ys else [])" for ys
    by (induction ys) auto
  with Suc show ?case by (auto simp: less_Suc_eq)
qed simp

lemma snd_filter_all_pairs:
  "map snd (filter (\<lambda>x. P (snd x)) (concat (map (\<lambda>i. map (Pair i) (h i)) is))) = concat (map (\<lambda>i. filter P (h i)) is)"
proof (induction "is")
  case (Cons a as)
  have "map snd (filter (\<lambda>x. P (snd x)) (map (Pair a) ys)) = filter P ys" for ys
    by (induction ys) auto
  with Cons show ?case by simp
qed simp

definition stats_current :: "sys \<Rightarrow> abtst_partitions \<Rightarrow> bool" where
  "stats_current s ps \<longleftrightarrow>
     nr_partitions ps = nr_partitions (partitions s) \<and> partition_array ps = partition_array (partitions s) \<and>
     partition_map ps = partition_map (partitions s) \<and>
     length (numa_stats ps) = MAX_PARTITIONS \<and> length (part_stats ps) = MAX_PARTITIONS \<and>
     (\<forall>p < MAX_PARTITIONS. length (numa_stats ps ! p) = MAX_NUMAS \<and>
       part_stats ps ! p = stat_of s (concat (map (\<lambda>i. part_cores s i p) [0..<n_numas s])) \<and>
       (\<forall>i < MAX_NUMAS. numa_stats ps ! p ! i = stat_of s (if i < n_numas s then part_cores s i p else [])))"

lemma abtst_update_partition_stats_sat:
  assumes top: "wf_topology s" and parts: "wf_partitions s"
  shows "sat {} (abtst_update_partition_stats s) (\<lambda>s'. \<exists>ps. s' = s\<lparr>partitions := ps\<rparr> \<and> stats_current s ps)"
proof -
  define pairs where "pairs = concat (map (\<lambda>i. map (Pair i) (numa_cores s i)) [0..<n_numas s])"
  have "sat {} (for_each (\<lambda>(i, j). update_core_stats s i j) pairs (abtst_reset_partition_stats (partitions s)))
      (stats_inv s pairs)"
  proof (rule for_each_sat_prefix [where P = "stats_inv s"])
    show "stats_inv s [] (abtst_reset_partition_stats (partitions s))"
      by (simp add: stats_inv_def abtst_reset_partition_stats_def stat_of_def zero_stat_def depth_sum_def)
  next
    fix ys x zs ps
    assume split: "pairs = ys @ x # zs" and inv: "stats_inv s ys ps"
    then have "x \<in> set pairs" by simp
    then obtain i k where x: "x = (i, k)" "i < n_numas s" "k \<in> set (numa_cores s i)" by (auto simp: pairs_def)
    have "k < n_streams s" using numa_cores_bound [OF top x(2,3)] .
    moreover have "i < MAX_NUMAS" using x(2) top by (simp add: wf_topology_def)
    ultimately show "sat {} ((\<lambda>(i, j). update_core_stats s i j) x ps) (stats_inv s (ys @ [x]))"
      using inv parts unfolding x(1) prod.case
      by (intro update_core_stats_step) (auto simp: wf_partitions_def n_partitions_def)
  qed
  moreover have "stats_current s ps" if "stats_inv s pairs ps" for ps
    using that by (simp add: stats_inv_def stats_current_def pairs_def snd_filter_pairs snd_filter_all_pairs part_cores_def)
  moreover have "for_each (\<lambda>i ps. rbind (abtst_get_numa_info s (of_nat i)) (\<lambda>p. rbind (nonnull p) (\<lambda>info.
         for_each (update_core_stats s i) (core_range (start_core info) (end_core info)) ps))) [0..<n_numas s] ps
      = for_each (\<lambda>i. for_each (update_core_stats s i) (numa_cores s i)) [0..<n_numas s] ps" for ps
    by (rule for_each_cong) (use top in \<open>simp add: numa_cores_def\<close>)
  ultimately show ?thesis
    unfolding abtst_update_partition_stats_def n_numas_def [symmetric]
    by (simp add: for_each_nested pairs_def) (auto elim!: sat_mono)
qed

end
