(* ===== verification/Loads.thy ===== *)
theory Loads
  imports Argobots Hash_Mapping Partition
begin

text \<open>
  The set-up of loads and mappings: \<^verbatim>\<open>src/load/load.c\<close>, \<^verbatim>\<open>src/mapping/mapping.c\<close> and
  \<^verbatim>\<open>get_mapping_id\<close> of \<^verbatim>\<open>include/mapping.h\<close>. The loads of a new mapping are dealt
  round-robin to the streams in use of the mapping's partition. A runtime state \<open>r\<close> of
  Argobots is threaded beside the program's state.
\<close>

subsection \<open>Loads: load.c\<close>

definition zero_load :: abtst_load where
  "zero_load = \<lparr>load_id = 0, load_used = False, pkt_started = 0, pkt_ended = 0, init_rank = 0, curr_rank = 0,
     dest_rank = 0, load_pool = 0, load_sched = 0\<rparr>"

definition upd_mapping :: "sys \<Rightarrow> nat \<Rightarrow> (abtst_mapping \<Rightarrow> abtst_mapping) \<Rightarrow> sys res" where
  "upd_mapping s m f =
     rbind (idx (mapping_array (mappings s)) m) (\<lambda>mp.
     rbind (put (mapping_array (mappings s)) m (f mp)) (\<lambda>ms.
     Inr (s\<lparr>mappings := (mappings s)\<lparr>mapping_array := ms\<rparr>\<rparr>)))"

definition init_load :: "'r argobots \<Rightarrow> sys \<Rightarrow> 'r \<Rightarrow> lptr \<Rightarrow> u32 \<Rightarrow> (int \<times> sys \<times> 'r) res" where
  "init_load A s r l rk =
     rbind (upd_load s l (\<lambda>ld. ld\<lparr>pkt_started := 0, pkt_ended := 0, init_rank := rk, curr_rank := rk,
       dest_rank := rk, load_used := False\<rparr>)) (\<lambda>s.
     let s = set_links s (INIT_LIST_HEAD (links s) (LoadNode l)) in
     case ABT_pool_create_basic A r of (ret, pool, r) \<Rightarrow>
     rbind (upd_load s l (\<lambda>ld. ld\<lparr>load_pool := pool\<rparr>)) (\<lambda>s.
     if ret \<noteq> 0 then Inr (ret, s, r)
     else rbind (get_load s l) (\<lambda>ld.
       case abtst_init_sub_sched A (load_sched ld) pool l r of (ret, sched, r) \<Rightarrow>
       rbind (upd_load s l (\<lambda>ld. ld\<lparr>load_sched := sched\<rparr>)) (\<lambda>s.
       Inr (ret, s, r)))))"

definition stream_of_part :: "sys \<Rightarrow> int \<Rightarrow> nat \<Rightarrow> unit option res" where
  "stream_of_part s pid i =
     rbind (get_stream s i) (\<lambda>st. Inr (if used st \<and> pid = part_id st then Some () else None))"

definition find_next_stream :: "sys \<Rightarrow> int \<Rightarrow> u32 \<Rightarrow> nat option res" where
  "find_next_stream s pid start =
     (if max_xstreams (streams s) = 0 then Inl DivByZero
      else
        let s0 = unat (start mod max_xstreams (streams s)) in
        rbind (find_first (stream_of_part s pid) [s0..<unat (max_xstreams (streams s))]) (\<lambda>f.
        case f of Some (i, _) \<Rightarrow> Inr (Some i)
        | None \<Rightarrow> rbind (find_first (stream_of_part s pid) [0..<s0]) (\<lambda>f. Inr (map_option fst f))))"

text \<open>The loop of \<^verbatim>\<open>abtst_init_loads\<close> over the loads of mapping \<open>m\<close>.\<close>

fun init_loads_loop :: "'r argobots \<Rightarrow> nat \<Rightarrow> nat list \<Rightarrow> u32 \<Rightarrow> sys \<Rightarrow> 'r \<Rightarrow> (int \<times> sys \<times> 'r) res" where
  "init_loads_loop A m [] start s r = Inr (0, s, r)"
| "init_loads_loop A m (i # is) start s r =
     rbind (idx (mapping_array (mappings s)) m) (\<lambda>mp.
     rbind (find_next_stream s (loads_partition_id (mapping_loads mp)) start) (\<lambda>p. case p of
       None \<Rightarrow> Inr (-1, s, r)
     | Some k \<Rightarrow>
         rbind (get_stream s k) (\<lambda>st.
         rbind (upd_load s (m, i) (\<lambda>ld. ld\<lparr>load_id := int i\<rparr>)) (\<lambda>s.
         rbind (init_load A s r (m, i) (rank st)) (\<lambda>(ret, s, r).
         if ret \<noteq> 0 then Inr (-1, s, r)
         else
           rbind (get_load s (m, i)) (\<lambda>ld.
           case ABT_pool_add_sched A (stream_pool st) (load_sched ld) r of (ret, r) \<Rightarrow>
           if ret \<noteq> 0 then Inr (-1, s, r)
           else
             rbind (abtst_add_load_to_stream s k (LoadNode (m, i))) (\<lambda>s.
             init_loads_loop A m is (rank st + 1) s r)))))))"

definition set_load_array :: "abtst_load list \<Rightarrow> abtst_mapping \<Rightarrow> abtst_mapping" where
  "set_load_array xs mp = mp\<lparr>mapping_loads := (mapping_loads mp)\<lparr>load_array := xs\<rparr>\<rparr>"

definition abtst_init_loads :: "'r argobots \<Rightarrow> nat \<Rightarrow> sys \<Rightarrow> 'r \<Rightarrow> (int \<times> sys \<times> 'r) res" where
  "abtst_init_loads A m s r =
     rbind (idx (mapping_array (mappings s)) m) (\<lambda>mp.
     let n = unat (loads_nr (mapping_loads mp)) in
     case alloc s of (ok, s) \<Rightarrow>
     if \<not> ok then rbind (upd_mapping s m (set_load_array [])) (\<lambda>s. Inr (-1, s, r))
     else rbind (upd_mapping s m (set_load_array (replicate n zero_load))) (\<lambda>s.
       init_loads_loop A m [0..<n] 0 s r))"

text \<open>
  \<^verbatim>\<open>abtst_free_loads\<close>. The memory of the loads is given back: any later access through the
  pointer is invalid, the array becomes empty.
\<close>

definition abtst_free_loads :: "'r argobots \<Rightarrow> nat \<Rightarrow> sys \<times> 'r \<Rightarrow> (sys \<times> 'r) res" where
  "abtst_free_loads A m w =
     rbind (idx (mapping_array (mappings (fst w))) m) (\<lambda>mp.
     if load_array (mapping_loads mp) = [] then Inr w
     else rbind (for_each (\<lambda>i (s, r). rbind (get_load s (m, i)) (\<lambda>ld.
         if load_sched ld = 0 then Inr (s, r)
         else case abtst_free_sub_sched A (load_sched ld) r of (h, r) \<Rightarrow>
           rbind (upd_load s (m, i) (\<lambda>ld. ld\<lparr>load_sched := h\<rparr>)) (\<lambda>s. Inr (s, r))))
         [0..<unat (loads_nr (mapping_loads mp))] w) (\<lambda>(s, r).
       rbind (upd_mapping s m (set_load_array [])) (\<lambda>s. Inr (s, r))))"

definition map_load_to_stream :: "abtst_loads \<Rightarrow> u32 \<Rightarrow> u32 res" where
  "map_load_to_stream loads load = rbind (idx (load_array loads) (unat load)) (\<lambda>ld. Inr (curr_rank ld))"

subsection \<open>Mappings: mapping.c\<close>

definition get_mapping_id :: "abtst_mappings \<Rightarrow> int \<times> abtst_mappings" where
  "get_mapping_id ms =
     (if nr_mappings ms < int MAX_MAPPINGS then (nr_mappings ms, ms\<lparr>nr_mappings := nr_mappings ms + 1\<rparr>)
      else (-1, ms))"

text \<open>The two tables of functions, \<^verbatim>\<open>hash_mapping\<close> and \<^verbatim>\<open>random_mapping\<close>.\<close>

definition init_mapping :: "abtst_mapping \<Rightarrow> int res" where
  "init_mapping mp = (case mapping_ops mp of
     None \<Rightarrow> Inl InvalidPtr
   | Some MAPPING_TYPE_HASHING \<Rightarrow> Inr (hash_mapping_init mp)
   | Some MAPPING_TYPE_RANDOM \<Rightarrow> Inr (random_mapping_init mp))"

definition mapping_to_load :: "u32 \<Rightarrow> abtst_mapping \<Rightarrow> USER_KEY_S \<Rightarrow> u32 res" where
  "mapping_to_load rnd mp key = (case mapping_ops mp of
     None \<Rightarrow> Inl InvalidPtr
   | Some MAPPING_TYPE_HASHING \<Rightarrow> hash_mapping_to_load mp (mapping_loads mp) key
   | Some MAPPING_TYPE_RANDOM \<Rightarrow> random_mapping_to_load rnd mp (mapping_loads mp) key)"

text \<open>The assignments of the \<^verbatim>\<open>switch\<close>; \<open>None\<close> for the \<^verbatim>\<open>default\<close> branch.\<close>

definition configure_mapping :: "sys \<Rightarrow> int \<Rightarrow> abtst_mapping \<Rightarrow> abtst_mapping option" where
  "configure_mapping s cores mp =
     (if mapping_kind mp = 0 then
        Some (mp\<lparr>mapping_ops := Some MAPPING_TYPE_HASHING, mapping_loads := (mapping_loads mp)\<lparr>
          loads_nr := word_of_int cores * LOADS_PER_XSTREAM, loads_partition_id := mapping_partition_id mp\<rparr>\<rparr>)
      else if mapping_kind mp = 1 then
        Some (mp\<lparr>mapping_ops := Some MAPPING_TYPE_RANDOM, mapping_loads := (mapping_loads mp)\<lparr>
          loads_nr := nr_cores (env s) div 2, loads_partition_id := mapping_partition_id mp\<rparr>\<rparr>)
      else None)"

definition abtst_create_mapping ::
    "'r argobots \<Rightarrow> sys \<Rightarrow> 'r \<Rightarrow> int \<Rightarrow> hash_info option \<Rightarrow> int \<Rightarrow> (int \<times> sys \<times> 'r) res" where
  "abtst_create_mapping A s r kind params partid =
     (case get_mapping_id (mappings s) of (mid, ms) \<Rightarrow>
      if mid < 0 then Inl OutOfBounds
      else
        rbind (upd_mapping (s\<lparr>mappings := ms\<rparr>) (nat mid) (\<lambda>mp. mp\<lparr>mapping_id := mid,
          mapping_partition_id := partid, mapping_kind := word_of_int kind, param := params\<rparr>)) (\<lambda>s.
        rbind (idx_int (partition_array (partitions s)) partid) (\<lambda>part.
        rbind (idx (mapping_array (mappings s)) (nat mid)) (\<lambda>mp.
        case configure_mapping s (part_nr_cores part) mp of
          None \<Rightarrow> Inr (-1, s, r)
        | Some mp' \<Rightarrow>
            rbind (upd_mapping s (nat mid) (\<lambda>_. mp')) (\<lambda>s.
            rbind (abtst_init_loads A (nat mid) s r) (\<lambda>(ret, s, r).
            if ret \<noteq> 0 then Inr (-1, s, r)
            else
              rbind (idx (mapping_array (mappings s)) (nat mid)) (\<lambda>mp.
              rbind (init_mapping mp) (\<lambda>ret.
              Inr (if ret \<noteq> 0 then -1 else mid, s, r)))))))))"

definition abtst_free_mappings :: "'r argobots \<Rightarrow> sys \<times> 'r \<Rightarrow> (sys \<times> 'r) res" where
  "abtst_free_mappings A w =
     for_each (abtst_free_loads A) [0..<nat (nr_mappings (mappings (fst w)))] w"

definition map_key_to_load :: "u32 \<Rightarrow> sys \<Rightarrow> int \<Rightarrow> USER_KEY_S \<Rightarrow> u32 res" where
  "map_key_to_load rnd s mid key =
     rbind (idx_int (mapping_array (mappings s)) mid) (\<lambda>mp. mapping_to_load rnd mp key)"

definition map_key_to_xstream :: "u32 \<Rightarrow> sys \<Rightarrow> int \<Rightarrow> USER_KEY_S \<Rightarrow> u32 res" where
  "map_key_to_xstream rnd s mid key =
     rbind (idx_int (mapping_array (mappings s)) mid) (\<lambda>mp.
     rbind (mapping_to_load rnd mp key) (\<lambda>load.
     map_load_to_stream (mapping_loads mp) load))"

subsection \<open>The next stream of a partition\<close>

text \<open>All streams in use of a partition, in the order of their cores.\<close>

definition part_streams :: "sys \<Rightarrow> int \<Rightarrow> nat list" where
  "part_streams s pid = filter (\<lambda>k. used (stream_at s k) \<and> part_id (stream_at s k) = pid) [0..<n_streams s]"

lemma part_streams_search:
  assumes "set ks \<subseteq> {..<n_streams s}"
  shows "find_first (stream_of_part s pid) ks =
    Inr (case filter (\<lambda>k. used (stream_at s k) \<and> part_id (stream_at s k) = pid) ks of
      [] \<Rightarrow> None | k # _ \<Rightarrow> Some (k, ()))"
  using assms by (intro find_first_filter) (auto simp: stream_of_part_def)

lemma find_next_stream_eq:
  assumes max: "unat (max_xstreams (streams s)) = n_streams s" and n: "0 < n_streams s"
    and s0: "s0 = unat start mod n_streams s"
  shows "find_next_stream s pid start =
    Inr (case filter (\<lambda>k. used (stream_at s k) \<and> part_id (stream_at s k) = pid) ([s0..<n_streams s] @ [0..<s0]) of
      [] \<Rightarrow> None | k # _ \<Rightarrow> Some k)"
proof -
  let ?Q = "\<lambda>k. used (stream_at s k) \<and> part_id (stream_at s k) = pid"
  have m: "max_xstreams (streams s) \<noteq> 0" "unat (start mod max_xstreams (streams s)) = s0"
    using max n by (auto simp: unat_mod_distrib s0)
  have "s0 < n_streams s" using n by (simp add: s0)
  then have f: "find_first (stream_of_part s pid) [s0..<n_streams s] =
      Inr (case filter ?Q [s0..<n_streams s] of [] \<Rightarrow> None | k # _ \<Rightarrow> Some (k, ()))"
    "find_first (stream_of_part s pid) [0..<s0] =
      Inr (case filter ?Q [0..<s0] of [] \<Rightarrow> None | k # _ \<Rightarrow> Some (k, ()))"
    by (auto intro!: part_streams_search)
  show ?thesis
    unfolding find_next_stream_def max Let_def m(2) f
    by (cases "filter ?Q [s0..<n_streams s]"; cases "filter ?Q [0..<s0]") (use m(1) in simp_all)
qed

lemma filter_upt_nth:
  assumes cs: "cs = filter Q [0..<n]" and j: "j < length cs"
  shows "filter Q [0..<Suc (cs ! j)] = take (Suc j) cs" "filter Q [Suc (cs ! j)..<n] = drop (Suc j) cs"
    "cs ! j < n"
proof -
  let ?c = "cs ! j"
  have c: "?c \<in> set cs" using j by simp
  then show lt: "?c < n" by (simp add: cs)
  have Q: "Q ?c" using c by (simp add: cs)
  have "[0..<n] = [0..<?c] @ ?c # [Suc ?c..<n]"
    using lt upt_add_eq_append [of 0 ?c "n - ?c"] by (simp add: upt_conv_Cons)
  from arg_cong [OF this, of "filter Q"] have split: "cs = filter Q [0..<?c] @ ?c # filter Q [Suc ?c..<n]"
    using Q by (simp add: cs)
  have len: "length (filter Q [0..<?c]) < length cs" using arg_cong [OF split, of length] by simp
  moreover have "cs ! length (filter Q [0..<?c]) = ?c" using arg_cong [OF split, of "\<lambda>l. l ! length (filter Q [0..<?c])"] by simp
  moreover have "distinct cs" by (simp add: cs)
  ultimately have "length (filter Q [0..<?c]) = j" using j nth_eq_iff_index_eq by metis
  with split have "take (Suc j) cs = filter Q [0..<?c] @ [?c]" "drop (Suc j) cs = filter Q [Suc ?c..<n]"
    by (metis append_Cons append_Nil append.assoc append_eq_conv_conj length_append_singleton)+
  then show "filter Q [0..<Suc ?c] = take (Suc j) cs" "filter Q [Suc ?c..<n] = drop (Suc j) cs"
    using Q by simp_all
qed

lemma hd_drop_take:
  assumes "j < length cs"
  shows "hd (drop (Suc j) cs @ take (Suc j) cs) = cs ! (Suc j mod length cs)"
proof -
  have "drop (Suc j) cs @ take (Suc j) cs = rotate (Suc j) cs"
    using assms by (cases "Suc j = length cs") (simp_all add: rotate_drop_take)
  then show ?thesis using assms by (metis hd_rotate_conv_nth list.size(3) not_less_zero)
qed

lemma find_next_stream_rotate:
  assumes max: "unat (max_xstreams (streams s)) = n_streams s" and n: "n_streams s < 2 ^ 31"
    and ne: "part_streams s pid \<noteq> []"
    and start: "start = (if i = 0 then 0 else of_nat (Suc (part_streams s pid ! ((i - 1) mod length (part_streams s pid)))))"
  shows "find_next_stream s pid start = Inr (Some (part_streams s pid ! (i mod length (part_streams s pid))))"
proof -
  let ?Q = "\<lambda>k. used (stream_at s k) \<and> part_id (stream_at s k) = pid" and ?n = "n_streams s"
  define cs where "cs = filter ?Q [0..<?n]"
  have cs: "part_streams s pid = cs" by (simp add: part_streams_def cs_def)
  have ne': "cs \<noteq> []" "0 < ?n" using ne unfolding cs by (auto simp: cs_def intro: gr0I)
  have goal: "find_next_stream s pid start = Inr (Some (cs ! (i mod length cs)))"
    if "filter ?Q ([unat start mod ?n..<?n] @ [0..<unat start mod ?n]) = ks" "ks \<noteq> []" "hd ks = cs ! (i mod length cs)" for ks
    using find_next_stream_eq [OF max ne'(2) refl, of pid start] that by (cases ks) simp_all
  show ?thesis
  proof (cases i)
    case 0
    moreover have "hd cs = cs ! 0" using ne'(1) by (rule hd_conv_nth)
    ultimately show ?thesis using ne' start unfolding cs by (intro goal) (simp_all add: cs_def [symmetric])
  next
    case (Suc i')
    define j where "j = i' mod length cs"
    have j: "j < length cs" using ne'(1) by (simp add: j_def)
    note sp = filter_upt_nth [OF cs_def j]
    have i: "i mod length cs = Suc j mod length cs" by (simp add: Suc j_def mod_Suc_eq)
    have u: "unat start = Suc (cs ! j)"
      using start sp(3) n unfolding cs by (simp add: Suc j_def [symmetric] unat_of_nat_small del: of_nat_Suc)
    show ?thesis
    proof (cases "Suc (cs ! j) < ?n")
      case True
      then have "filter ?Q ([unat start mod ?n..<?n] @ [0..<unat start mod ?n]) = drop (Suc j) cs @ take (Suc j) cs"
        using sp(1,2) u by (simp only: filter_append mod_less)
      then show ?thesis unfolding cs
        using hd_drop_take [OF j] ne'(1) by (intro goal) (simp_all only: i, auto)
    next
      case False
      then have "Suc (cs ! j) = ?n" using sp(3) by simp
      then have len: "length cs = Suc j" "unat start mod ?n = 0" using sp(2) j u by simp_all
      have "i mod length cs = 0" using i len(1) by simp
      moreover note len
      moreover have "hd cs = cs ! 0" using ne'(1) by (rule hd_conv_nth)
      ultimately show ?thesis unfolding cs using ne' by (intro goal) (simp_all add: cs_def [symmetric])
    qed
  qed
qed

subsection \<open>Dealing the loads\<close>

text \<open>Queueing a load that is in no queue yet.\<close>

definition enqueued :: "sys \<Rightarrow> nat \<Rightarrow> links \<Rightarrow> sys" where
  "enqueued s k h = set_stream (set_links s h) k (\<lambda>st. st\<lparr>nr_loads := nr_loads st + 1\<rparr>)"

lemma add_new_load:
  assumes wf: "wf_queues s" and k: "k < n_streams s" and l: "valid_load s l" "dest_rank (load_at s l) = of_nat k"
    and new: "\<forall>j < n_streams s. l \<notin> set (load_queue s j)" and node: "links s (LoadNode l) \<noteq> None"
  shows "\<exists>h. abtst_add_load_to_stream s k (LoadNode l) = Inr (enqueued s k h) \<and> wf_queues (enqueued s k h) \<and>
    (\<forall>j < n_streams s. load_queue (enqueued s k h) j = (if j = k then l # load_queue s k else load_queue s j))"
proof -
  let ?q = "LoadQ k" and ?xs = "map LoadNode (load_queue s k)"
  note d = wf_queuesD(1) [OF wf]
  have "LoadNode l \<notin> insert ?q (set ?xs)" using new k by auto
  from list_add_dlist [OF d [OF k] this node] obtain h where h: "list_add (links s) (LoadNode l) ?q = Inr h"
    "dlist h ?q (LoadNode l # ?xs)" "\<forall>m. m \<notin> insert (LoadNode l) (insert ?q (set ?xs)) \<longrightarrow> h m = links s m"
    by (auto simp: sat_total)
  define t where "t = enqueued s k h"
  have n: "n_streams t = n_streams s" and lk: "links t = h" and al: "all_loads t = all_loads s"
    and vl: "valid_load t = valid_load s" and la: "load_at t = load_at s" by (simp_all add: t_def enqueued_def)
  have st: "stream_at t j = (if j = k then (stream_at s k)\<lparr>nr_loads := nr_loads (stream_at s k) + 1\<rparr> else stream_at s j)" for j
    using k by (simp add: t_def enqueued_def)
  define Q where "Q j = (if j = k then l # load_queue s k else load_queue s j)" for j
  have "wf_queues t \<and> (\<forall>j < n_streams t. load_queue t j = Q j)"
  proof (rule wf_queuesI, unfold n lk al vl la st)
    fix j assume j: "j < n_streams s"
    show "dlist h (LoadQ j) (map LoadNode (Q j))"
    proof (cases "j = k")
      case False
      have "set (load_queue s j) \<inter> set (load_queue s k) = {}" by (rule wf_queues_disjoint [OF wf j k False])
      then have "insert (LoadQ j) (set (map LoadNode (load_queue s j))) \<inter> insert (LoadNode l) (insert ?q (set ?xs)) = {}"
        using new j False by auto
      from dlist_frame [OF d [OF j] h(3) this] show ?thesis by (simp add: Q_def False)
    qed (use h(2) in \<open>simp add: Q_def\<close>)
    fix x assume "x \<in> set (Q j)"
    then show "valid_load s x \<and> dest_rank (load_at s x) = of_nat j"
      using l wf_queuesD(4,5) [OF wf j, of x] by (auto simp: Q_def split: if_splits)
  qed (use wf wf_queuesD(2,3) [OF wf] in \<open>auto simp: wf_queues_def Q_def\<close>)
  moreover have "abtst_add_load_to_stream s k (LoadNode l) = Inr t"
    using h(1) k by (simp add: abtst_add_load_to_stream_def t_def enqueued_def)
  ultimately show ?thesis unfolding n by (auto simp: Q_def t_def)
qed

definition fresh_load :: "u32 \<Rightarrow> abt_handle \<Rightarrow> abt_handle \<Rightarrow> abtst_load \<Rightarrow> abtst_load" where
  "fresh_load rk pool sched ld = ld\<lparr>pkt_started := 0, pkt_ended := 0, init_rank := rk, curr_rank := rk,
     dest_rank := rk, load_used := False, load_pool := pool, load_sched := sched\<rparr>"

lemma fresh_load_simps [simp]:
  "init_rank (fresh_load rk p d ld) = rk" "curr_rank (fresh_load rk p d ld) = rk" "dest_rank (fresh_load rk p d ld) = rk"
  "pkt_started (fresh_load rk p d ld) = 0" "pkt_ended (fresh_load rk p d ld) = 0" "\<not> load_used (fresh_load rk p d ld)"
  "load_id (fresh_load rk p d ld) = load_id ld" "load_pool (fresh_load rk p d ld) = p" "load_sched (fresh_load rk p d ld) = d"
  by (simp_all add: fresh_load_def)

lemma set_load_set_load: "valid_load s l \<Longrightarrow> set_load (set_load s l f) l g = set_load s l (\<lambda>ld. g (f ld))"
  by (simp add: set_load_def valid_load_def load_at_def)

lemma set_load_set_links: "set_load (set_links s h) l f = set_links (set_load s l f) h"
  by (simp add: set_load_def set_links_def load_at_def)

lemma init_load_ok:
  assumes A: "abt_succeeds A" and l: "valid_load s l"
  shows "\<exists>p d r'. init_load A s r l rk =
    Inr (0, set_links (set_load s l (fresh_load rk p d)) (INIT_LIST_HEAD (links s) (LoadNode l)), r')"
proof -
  obtain p r1 where p: "ABT_pool_create_basic A r = (0, p, r1)" using abt_succeedsD(1) [OF A] by blast
  obtain d r2 where d: "abtst_init_sub_sched A (load_sched (load_at s l)) p l r1 = (0, d, r2)"
    using abt_succeedsD(4) [OF A] by blast
  have "init_load A s r l rk =
      Inr (0, set_links (set_load s l (fresh_load rk p d)) (INIT_LIST_HEAD (links s) (LoadNode l)), r2)"
    using l p d by (simp add: init_load_def Let_def set_load_set_load set_load_set_links)
      (simp add: fresh_load_def [abs_def])
  then show ?thesis by blast
qed

lemma wf_queues_new_node:
  assumes wf: "wf_queues s" and new: "\<forall>j < n_streams s. l \<notin> set (load_queue s j)" and l: "valid_load s l"
  shows "wf_queues (set_links (set_load s l g) (INIT_LIST_HEAD (links s) (LoadNode l))) \<and>
    (\<forall>j < n_streams s. load_queue (set_links (set_load s l g) (INIT_LIST_HEAD (links s) (LoadNode l))) j = load_queue s j)"
proof -
  let ?t = "set_links (set_load s l g) (INIT_LIST_HEAD (links s) (LoadNode l))"
  have "wf_queues ?t \<and> (\<forall>j < n_streams ?t. load_queue ?t j = load_queue s j)"
  proof (rule wf_queuesI)
    fix j x assume j: "j < n_streams ?t"
    show "dlist (links ?t) (LoadQ j) (map LoadNode (load_queue s j))"
      unfolding INIT_LIST_HEAD_def using wf_queuesD(1) [OF wf, of j] new j
      by (simp add: image_iff)
    assume "x \<in> set (load_queue s j)"
    then show "valid_load ?t x \<and> dest_rank (load_at ?t x) = of_nat j"
      using wf_queuesD(4,5) [OF wf, of j x] new l j by auto
  qed (use wf wf_queuesD(2,3) [OF wf] in \<open>auto simp: wf_queues_def\<close>)
  then show ?thesis by simp
qed

text \<open>The mappings without their loads: what dealing loads leaves alone.\<close>

definition mapping_shape :: "sys \<Rightarrow> abtst_mappings" where
  "mapping_shape s = (mappings s)\<lparr>mapping_array := map (set_load_array []) (mapping_array (mappings s))\<rparr>"

lemma mapping_shape_set_load [simp]: "mapping_shape (set_load s l f) = mapping_shape s"
proof (cases "fst l < length (mapping_array (mappings s))")
  case True
  then have "map (set_load_array []) (mapping_array (mappings (set_load s l f))) = map (set_load_array []) (mapping_array (mappings s))"
    by (intro nth_equalityI) (auto simp: set_load_def nth_list_update set_load_array_def)
  then show ?thesis by (simp add: mapping_shape_def) (simp add: set_load_def)
qed (simp add: mapping_shape_def set_load_def list_update_beyond)

lemma mapping_shape_frame [simp]:
  "mapping_shape (set_stream s k f) = mapping_shape s" "mapping_shape (set_links s h) = mapping_shape s"
  by (simp_all add: mapping_shape_def)

lemma streams_frame [simp]:
  "(streams (set_stream s k f))\<lparr>stream_array := []\<rparr> = (streams s)\<lparr>stream_array := []\<rparr>"
  by (simp add: set_stream_def)

lemma mapping_shapeD:
  assumes "mapping_shape s' = mapping_shape s"
  shows "length (mapping_array (mappings s')) = length (mapping_array (mappings s))"
    "nr_mappings (mappings s') = nr_mappings (mappings s)"
    "m < length (mapping_array (mappings s))
     \<Longrightarrow> set_load_array [] (mapping_array (mappings s') ! m) = set_load_array [] (mapping_array (mappings s) ! m)"
proof -
  have eq: "map (set_load_array []) (mapping_array (mappings s')) = map (set_load_array []) (mapping_array (mappings s))"
    and "nr_mappings (mappings s') = nr_mappings (mappings s)"
    using arg_cong [OF assms, of mapping_array] arg_cong [OF assms, of nr_mappings] by (simp_all add: mapping_shape_def)
  then show "nr_mappings (mappings s') = nr_mappings (mappings s)" by simp
  show len: "length (mapping_array (mappings s')) = length (mapping_array (mappings s))" using eq map_eq_imp_length_eq by blast
  show "m < length (mapping_array (mappings s))
     \<Longrightarrow> set_load_array [] (mapping_array (mappings s') ! m) = set_load_array [] (mapping_array (mappings s) ! m)"
    using arg_cong [OF eq, of "\<lambda>xs. xs ! m"] len by simp
qed

lemma set_load_array_eqD:
  assumes "set_load_array [] mp = set_load_array [] mp'"
  shows "loads_partition_id (mapping_loads mp) = loads_partition_id (mapping_loads mp')"
    "loads_nr (mapping_loads mp) = loads_nr (mapping_loads mp')"
    "mapping_partition_id mp = mapping_partition_id mp'" "mapping_ops mp = mapping_ops mp'" "param mp = param mp'"
  using arg_cong [OF assms, of "\<lambda>x. loads_partition_id (mapping_loads x)"] arg_cong [OF assms, of "\<lambda>x. loads_nr (mapping_loads x)"]
    arg_cong [OF assms, of mapping_partition_id] arg_cong [OF assms, of mapping_ops] arg_cong [OF assms, of param]
  by (simp_all add: set_load_array_def)

text \<open>The loads of mapping \<open>m\<close> below \<open>i\<close> have been dealt to the streams \<open>cs\<close> in turn.\<close>

definition dealt_to :: "nat \<Rightarrow> nat list \<Rightarrow> nat \<Rightarrow> nat \<Rightarrow> lptr list" where
  "dealt_to m cs i k = rev (map (Pair m) (filter (\<lambda>i'. cs ! (i' mod length cs) = k) [0..<i]))"

definition placed_load :: "abtst_load \<Rightarrow> nat \<Rightarrow> nat \<Rightarrow> bool" where
  "placed_load ld i k \<longleftrightarrow> load_id ld = int i \<and> init_rank ld = of_nat k \<and> curr_rank ld = of_nat k \<and>
     dest_rank ld = of_nat k \<and> pkt_started ld = 0 \<and> pkt_ended ld = 0 \<and> \<not> load_used ld"

definition dealt :: "sys \<Rightarrow> nat \<Rightarrow> nat list \<Rightarrow> nat \<Rightarrow> sys \<Rightarrow> bool" where
  "dealt s0 m cs i s \<longleftrightarrow> wf_queues s \<and>
     env s = env s0 \<and> power s = power s0 \<and> rebalance s = rebalance s0 \<and> partitions s = partitions s0 \<and>
     requests s = requests s0 \<and> allocs s = allocs s0 \<and> mapping_shape s = mapping_shape s0 \<and>
     (streams s)\<lparr>stream_array := []\<rparr> = (streams s0)\<lparr>stream_array := []\<rparr> \<and>
     n_streams s = n_streams s0 \<and>
     (\<forall>k < n_streams s0. (stream_at s k)\<lparr>nr_loads := 0\<rparr> = (stream_at s0 k)\<lparr>nr_loads := 0\<rparr>) \<and>
     valid_load s = valid_load s0 \<and> all_loads s = all_loads s0 \<and>
     (\<forall>l. fst l \<noteq> m \<longrightarrow> load_at s l = load_at s0 l) \<and>
     (\<forall>i' < i. placed_load (load_at s (m, i')) i' (cs ! (i' mod length cs))) \<and>
     (\<forall>k < n_streams s0. load_queue s k = dealt_to m cs i k @ load_queue s0 k)"

lemma dealtD:
  assumes "dealt s0 m cs i s"
  shows "wf_queues s" "n_streams s = n_streams s0" "valid_load s = valid_load s0"
    "mapping_shape s = mapping_shape s0" "(streams s)\<lparr>stream_array := []\<rparr> = (streams s0)\<lparr>stream_array := []\<rparr>"
    "k < n_streams s0 \<Longrightarrow> load_queue s k = dealt_to m cs i k @ load_queue s0 k"
    "k < n_streams s0 \<Longrightarrow> (stream_at s k)\<lparr>nr_loads := 0\<rparr> = (stream_at s0 k)\<lparr>nr_loads := 0\<rparr>"
  using assms by (auto simp: dealt_def)

lemma dealt_to_Suc:
  "dealt_to m cs (Suc i) k = (if cs ! (i mod length cs) = k then (m, i) # dealt_to m cs i k else dealt_to m cs i k)"
  by (simp add: dealt_to_def)

lemma dealt_to_mem: "(m', j) \<in> set (dealt_to m cs i k) \<longleftrightarrow> m' = m \<and> j < i \<and> cs ! (j mod length cs) = k"
  by (auto simp: dealt_to_def)

lemma deal_state:
  assumes d: "dealt s0 m cs i s" and k: "k < n_streams s0" "k = cs ! (i mod length cs)" and l: "valid_load s0 (m, i)"
    and new: "\<forall>j < n_streams s0. (m, i) \<notin> set (load_queue s0 j)"
    and g: "\<And>ld. placed_load (g ld) i k"
  defines "t \<equiv> set_links (set_load s (m, i) g) (INIT_LIST_HEAD (links s) (LoadNode (m, i)))"
  shows "\<exists>h. abtst_add_load_to_stream t k (LoadNode (m, i)) = Inr (enqueued t k h) \<and> dealt s0 m cs (Suc i) (enqueued t k h)"
proof -
  have vl: "valid_load s (m, i)" using l dealtD(3) [OF d] by simp
  have new': "\<forall>j < n_streams s. (m, i) \<notin> set (load_queue s j)"
    using new dealtD(2,6) [OF d] by (auto simp: dealt_to_mem)
  have t: "wf_queues t" "\<forall>j < n_streams s. load_queue t j = load_queue s j"
    using wf_queues_new_node [OF dealtD(1) [OF d] new' vl, of g] by (simp_all add: t_def)
  have v: "n_streams t = n_streams s" "valid_load t = valid_load s" "links t (LoadNode (m, i)) \<noteq> None"
    "load_at t = (load_at s)((m, i) := g (load_at s (m, i)))"
    "\<And>x. x \<in> set (dealt_to m cs i k) \<Longrightarrow> x \<noteq> (m, i)"
    using vl by (auto simp: t_def INIT_LIST_HEAD_def dealt_to_mem)
  obtain h where h: "abtst_add_load_to_stream t k (LoadNode (m, i)) = Inr (enqueued t k h)" "wf_queues (enqueued t k h)"
    "\<forall>j < n_streams t. load_queue (enqueued t k h) j = (if j = k then (m, i) # load_queue t k else load_queue t j)"
    using add_new_load [OF t(1), of k "(m, i)"] new' vl k(1) g [of "load_at s (m, i)"] dealtD(2) [OF d] t(2) v
    by (auto simp: placed_load_def)
  have "dealt s0 m cs (Suc i) (enqueued t k h)"
    unfolding dealt_def
  proof (intro conjI allI impI)
    show "load_queue (enqueued t k h) j = dealt_to m cs (Suc i) j @ load_queue s0 j" if "j < n_streams s0" for j
      using h(3) t(2) v(1) that dealtD(2,6) [OF d] k by (simp add: dealt_to_Suc)
    show "placed_load (load_at (enqueued t k h) (m, i')) i' (cs ! (i' mod length cs))" if "i' < Suc i" for i'
      using that v(4) g k(2) d by (auto simp: enqueued_def dealt_def less_Suc_eq)
    show "(stream_at (enqueued t k h) j)\<lparr>nr_loads := 0\<rparr> = (stream_at s0 j)\<lparr>nr_loads := 0\<rparr>" if "j < n_streams s0" for j
      using that k(1) v(1) dealtD(2,7) [OF d] by (simp add: enqueued_def) (simp add: t_def)
    show "load_at (enqueued t k h) x = load_at s0 x" if "fst x \<noteq> m" for x
      using that v(4) d by (auto simp: enqueued_def dealt_def)
  qed (use h(2) d in \<open>auto simp: enqueued_def t_def dealt_def\<close>)
  with h(1) show ?thesis by blast
qed

lemma nr_loads_eqD:
  "st\<lparr>nr_loads := 0\<rparr> = st'\<lparr>nr_loads := 0\<rparr> \<Longrightarrow>
   used st = used st' \<and> part_id st = part_id st' \<and> rank st = rank st' \<and> stat st = stat st' \<and>
   stream_pool st = stream_pool st' \<and> stream_sched st = stream_sched st' \<and> xstream st = xstream st' \<and> blocking st = blocking st'"
  by (cases st; cases st') simp

lemma dealt_part_streams:
  assumes "dealt s0 m cs i s"
  shows "part_streams s pid = part_streams s0 pid"
  unfolding part_streams_def dealtD(2) [OF assms]
proof (intro filter_cong refl)
  fix k assume "k \<in> set [0..<n_streams s0]"
  then have "k < n_streams s0" by simp
  from nr_loads_eqD [OF dealtD(7) [OF assms this]]
  show "(used (stream_at s k) \<and> part_id (stream_at s k) = pid) = (used (stream_at s0 k) \<and> part_id (stream_at s0 k) = pid)"
    by simp
qed

lemma init_loads_loop_ok:
  assumes A: "abt_succeeds A" and max: "unat (max_xstreams (streams s0)) = n_streams s0"
    and m: "m < length (mapping_array (mappings s0))"
    and cs: "cs = part_streams s0 (loads_partition_id (mapping_loads (mapping_array (mappings s0) ! m)))" "cs \<noteq> []"
    and new: "\<forall>i < N. valid_load s0 (m, i) \<and> (\<forall>j < n_streams s0. (m, i) \<notin> set (load_queue s0 j))"
    and d: "dealt s0 m cs i s" and i: "i \<le> N"
    and start: "start = (if i = 0 then 0 else of_nat (Suc (cs ! ((i - 1) mod length cs))))"
  shows "\<exists>s' r'. init_loads_loop A m [i..<N] start s r = Inr (0, s', r') \<and> dealt s0 m cs N s'"
  using i d start
proof (induction "N - i" arbitrary: i s r start)
  case 0
  then show ?case by simp
next
  case (Suc x)
  then have iN: "i < N" by simp
  note d = Suc.prems(2)
  let ?pid = "loads_partition_id (mapping_loads (mapping_array (mappings s0) ! m))" and ?k = "cs ! (i mod length cs)"
  have wf: "n_streams s < 2 ^ 31" using dealtD(1) [OF d] by (simp add: wf_queues_def)
  have k: "?k < n_streams s0"
  proof -
    have "?k \<in> set cs" using cs(2) by simp
    then show ?thesis by (simp add: cs(1) part_streams_def)
  qed
  have mp: "m < length (mapping_array (mappings s))" "loads_partition_id (mapping_loads (mapping_array (mappings s) ! m)) = ?pid"
    using mapping_shapeD(1) [OF dealtD(4) [OF d]] set_load_array_eqD(1) [OF mapping_shapeD(3) [OF dealtD(4) [OF d] m]] m
    by simp_all
  have "unat (max_xstreams (streams s)) = n_streams s"
    using max dealtD(2) [OF d] arg_cong [OF dealtD(5) [OF d], of max_xstreams] by simp
  moreover have ps: "part_streams s ?pid = cs" by (simp add: dealt_part_streams [OF d] cs(1))
  ultimately have next_s: "find_next_stream s ?pid start = Inr (Some ?k)"
    using find_next_stream_rotate [OF _ wf, of ?pid, unfolded ps, OF _ cs(2) Suc.prems(3)] by blast
  have vl: "valid_load s (m, i)" and ks: "?k < n_streams s"
    using new iN k dealtD(2,3) [OF d] by auto
  have rk: "rank (stream_at s ?k) = of_nat ?k" by (rule wf_queuesD(3) [OF dealtD(1) [OF d] ks])
  obtain p sd r1 where il: "init_load A (set_load s (m, i) (\<lambda>ld. ld\<lparr>load_id := int i\<rparr>)) r (m, i) (of_nat ?k) =
      Inr (0, set_links (set_load (set_load s (m, i) (\<lambda>ld. ld\<lparr>load_id := int i\<rparr>)) (m, i) (fresh_load (of_nat ?k) p sd))
        (INIT_LIST_HEAD (links s) (LoadNode (m, i))), r1)"
    using init_load_ok [OF A, of "set_load s (m, i) (\<lambda>ld. ld\<lparr>load_id := int i\<rparr>)" "(m, i)" r "of_nat ?k"] vl by auto
  define t where "t = set_links (set_load s (m, i) (\<lambda>ld. fresh_load (of_nat ?k) p sd (ld\<lparr>load_id := int i\<rparr>)))
    (INIT_LIST_HEAD (links s) (LoadNode (m, i)))"
  note il = il [unfolded set_load_set_load [OF vl] t_def [symmetric]]
  obtain h where h: "abtst_add_load_to_stream t ?k (LoadNode (m, i)) = Inr (enqueued t ?k h)"
    "dealt s0 m cs (Suc i) (enqueued t ?k h)"
    unfolding t_def by (rule exE [OF deal_state [OF d k refl, of "\<lambda>ld. fresh_load (of_nat ?k) p sd (ld\<lparr>load_id := int i\<rparr>)"]])
      (use new iN in \<open>auto simp: placed_load_def\<close>)
  obtain r2 where add: "ABT_pool_add_sched A (stream_pool (stream_at s ?k)) (load_sched (load_at t (m, i))) r1 = (0, r2)"
    using abt_succeedsD(2) [OF A] by blast
  have "valid_load t (m, i)" using vl by (simp add: t_def)
  then have "init_loads_loop A m (i # [Suc i..<N]) start s r = init_loads_loop A m [Suc i..<N] (of_nat (Suc ?k)) (enqueued t ?k h) r2"
    using mp next_s vl ks il h(1) add rk by (simp add: add.commute)
  moreover have "\<exists>s' r'. init_loads_loop A m [Suc i..<N] (of_nat (Suc ?k)) (enqueued t ?k h) r2 = Inr (0, s', r') \<and> dealt s0 m cs N s'"
    by (rule Suc.hyps(1)) (use Suc.hyps(2) iN h(2) in auto)
  ultimately show ?case using iN by (simp add: upt_conv_Cons)
qed

subsection \<open>Setting up the loads of a mapping\<close>

definition set_mapping :: "sys \<Rightarrow> nat \<Rightarrow> (abtst_mapping \<Rightarrow> abtst_mapping) \<Rightarrow> sys" where
  "set_mapping s m f = s\<lparr>mappings := (mappings s)\<lparr>mapping_array :=
     (mapping_array (mappings s))[m := f (mapping_array (mappings s) ! m)]\<rparr>\<rparr>"

lemma upd_mapping_ok [simp]: "m < length (mapping_array (mappings s)) \<Longrightarrow> upd_mapping s m f = Inr (set_mapping s m f)"
  by (simp add: upd_mapping_def set_mapping_def)

lemma set_mapping_frame [simp]:
  "env (set_mapping s m f) = env s" "power (set_mapping s m f) = power s" "streams (set_mapping s m f) = streams s"
  "rebalance (set_mapping s m f) = rebalance s" "partitions (set_mapping s m f) = partitions s"
  "links (set_mapping s m f) = links s" "requests (set_mapping s m f) = requests s" "allocs (set_mapping s m f) = allocs s"
  "n_streams (set_mapping s m f) = n_streams s" "stream_at (set_mapping s m f) = stream_at s"
  "load_queue (set_mapping s m f) = load_queue s"
  "length (mapping_array (mappings (set_mapping s m f))) = length (mapping_array (mappings s))"
  "nr_mappings (mappings (set_mapping s m f)) = nr_mappings (mappings s)"
  by (simp_all add: set_mapping_def n_streams_def stream_at_def load_queue_def fun_eq_iff)

lemma mapping_set_mapping [simp]:
  "m < length (mapping_array (mappings s)) \<Longrightarrow> mapping_array (mappings (set_mapping s m f)) ! m' =
     (if m' = m then f (mapping_array (mappings s) ! m) else mapping_array (mappings s) ! m')"
  by (simp add: set_mapping_def nth_list_update)

lemma load_set_mapping:
  assumes "m < length (mapping_array (mappings s))"
  shows "valid_load (set_mapping s m f) l \<longleftrightarrow>
      (if fst l = m then snd l < length (load_array (mapping_loads (f (mapping_array (mappings s) ! m)))) else valid_load s l)"
    "fst l \<noteq> m \<Longrightarrow> load_at (set_mapping s m f) l = load_at s l"
  using assms by (auto simp: valid_load_def load_at_def)

lemma set_mapping_set_mapping:
  "m < length (mapping_array (mappings s)) \<Longrightarrow> set_mapping (set_mapping s m f) m g = set_mapping s m (\<lambda>mp. g (f mp))"
  by (simp add: set_mapping_def)

lemma distinct_pairs: "distinct xs \<Longrightarrow> (\<And>m. distinct (g m)) \<Longrightarrow> distinct (concat (map (\<lambda>m. map (Pair m) (g m)) xs))"
  by (induction xs) (auto simp: distinct_map inj_on_def)

lemma length_all_loads_set_mapping:
  assumes m: "m < length (mapping_array (mappings s))"
  shows "length (all_loads (set_mapping s m f)) \<le>
    length (all_loads s) + length (load_array (mapping_loads (f (mapping_array (mappings s) ! m))))" (is "_ \<le> _ + ?n")
proof -
  let ?L = "all_loads (set_mapping s m f)"
  have d: "distinct ?L" unfolding all_loads_def by (intro distinct_pairs) auto
  have "length (filter (\<lambda>l. fst l \<noteq> m) ?L) \<le> length (all_loads s)"
    by (intro length_le_all_loads) (use d in \<open>auto simp: set_all_loads load_set_mapping [OF m]\<close>)
  moreover have "length (filter (\<lambda>l. fst l = m) ?L) \<le> ?n"
  proof -
    have "length (filter (\<lambda>l. fst l = m) ?L) = card (set (filter (\<lambda>l. fst l = m) ?L))"
      by (rule distinct_card [symmetric]) (simp add: d)
    also have "\<dots> \<le> card (Pair m ` {..<?n})"
      by (intro card_mono) (auto simp: set_all_loads load_set_mapping [OF m] image_iff prod_eq_iff)
    also have "\<dots> \<le> ?n" by (metis card_image_le card_lessThan finite_lessThan)
    finally show ?thesis .
  qed
  moreover have "length ?L = length (filter (\<lambda>l. fst l = m) ?L) + length (filter (\<lambda>l. fst l \<noteq> m) ?L)"
    by (rule sum_length_filter_compl [symmetric])
  ultimately show ?thesis by linarith
qed

lemma wf_queues_set_mapping:
  assumes wf: "wf_queues s" and m: "m < length (mapping_array (mappings s))"
    and free: "\<forall>j < n_streams s. \<forall>l \<in> set (load_queue s j). fst l \<noteq> m"
    and n: "length (all_loads s) + length (load_array (mapping_loads (f (mapping_array (mappings s) ! m)))) < 2 ^ 32"
  shows "wf_queues (set_mapping s m f)"
proof -
  have "length (all_loads (set_mapping s m f)) < 2 ^ 32" using length_all_loads_set_mapping [OF m, of f] n by linarith
  moreover have "wf_queue (set_mapping s m f) j" if j: "j < n_streams s" for j
    using wf j free by (auto simp: wf_queues_def wf_queue_def load_set_mapping [OF m])
  ultimately show ?thesis using wf by (simp add: wf_queues_def)
qed

lemma abtst_init_loads_ok:
  assumes A: "abt_succeeds A" and wf: "wf_queues s" and max: "unat (max_xstreams (streams s)) = n_streams s"
    and m: "m < length (mapping_array (mappings s))"
    and cs: "cs = part_streams s (loads_partition_id (mapping_loads (mapping_array (mappings s) ! m)))" "cs \<noteq> []"
    and N: "N = unat (loads_nr (mapping_loads (mapping_array (mappings s) ! m)))"
    and free: "\<forall>j < n_streams s. \<forall>l \<in> set (load_queue s j). fst l \<noteq> m"
    and bound: "length (all_loads s) + N < 2 ^ 32" and mem: "alloc s = (True, s1)"
  shows "\<exists>s' r'. abtst_init_loads A m s r = Inr (0, s', r') \<and>
    dealt (set_mapping s1 m (set_load_array (replicate N zero_load))) m cs N s'"
proof -
  let ?s = "set_mapping s1 m (set_load_array (replicate N zero_load))"
  note fr = alloc_frame [OF mem]
  have m1: "m < length (mapping_array (mappings s1))" using m fr(4) by simp
  have "wf_queues ?s"
    using wf_queues_alloc [OF mem wf] m1 free bound fr(14) all_loads_alloc [OF mem]
    by (intro wf_queues_set_mapping) (auto simp: fr set_load_array_def)
  then have d: "dealt ?s m cs 0 ?s" by (simp add: dealt_def dealt_to_def)
  have "\<exists>s' r'. init_loads_loop A m [0..<N] 0 ?s r = Inr (0, s', r') \<and> dealt ?s m cs N s'"
  proof (rule init_loads_loop_ok [OF A _ _ _ cs(2) _ d])
    show "cs = part_streams ?s (loads_partition_id (mapping_loads (mapping_array (mappings ?s) ! m)))"
      using m1 by (simp add: cs(1) set_load_array_def part_streams_def fr)
    show "\<forall>i < N. valid_load ?s (m, i) \<and> (\<forall>j < n_streams ?s. (m, i) \<notin> set (load_queue ?s j))"
      using m1 free by (fastforce simp: load_set_mapping set_load_array_def fr)
  qed (use max m1 fr in simp_all)
  then show ?thesis using mem m m1 by (simp add: abtst_init_loads_def Let_def N [symmetric])
qed

end
