(* ===== verification/Power_Saving.thy ===== *)
theory Power_Saving
  imports Partition
begin

text \<open>
  Power saving: \<^verbatim>\<open>include/power.h\<close> and \<^verbatim>\<open>src/power/power.c\<close>. Which NUMA nodes are in
  power-saving state, the percentage of time each node slept in the last interval, and the
  estimate of how many nodes the current work allows to switch off.
\<close>

definition abtst_init_power :: "sys \<Rightarrow> sys res" where
  "abtst_init_power s =
     rbind (for_each (\<lambda>i p.
         rbind (put (ps_state p) i False) (\<lambda>st.
         rbind (put (ps_pct p) i 0) (\<lambda>pct. Inr (p\<lparr>ps_state := st, ps_pct := pct\<rparr>))))
       [0..<unat (nr_numas (env s))] (power s)) (\<lambda>p.
     Inr (s\<lparr>power := p\<lparr>ps_enabled := False, nr_ps_numas := 0\<rparr>\<rparr>))"

definition abtst_is_power_saving_enabled :: "sys \<Rightarrow> bool" where
  "abtst_is_power_saving_enabled s = ps_enabled (power s)"

definition abtst_set_power_saving_enabled :: "sys \<Rightarrow> bool \<Rightarrow> sys" where
  "abtst_set_power_saving_enabled s b = s\<lparr>power := (power s)\<lparr>ps_enabled := b\<rparr>\<rparr>"

definition abtst_get_numas_in_ps_state :: "sys \<Rightarrow> int" where
  "abtst_get_numas_in_ps_state s = nr_ps_numas (power s)"

definition abtst_is_numa_in_ps_state :: "sys \<Rightarrow> nat \<Rightarrow> bool res" where
  "abtst_is_numa_in_ps_state s i = idx (ps_state (power s)) i"

definition abtst_set_numa_ps_state :: "sys \<Rightarrow> nat \<Rightarrow> bool \<Rightarrow> sys res" where
  "abtst_set_numa_ps_state s i state =
     rbind (put (ps_state (power s)) i state) (\<lambda>st.
     Inr (s\<lparr>power := (power s)\<lparr>ps_state := st,
       nr_ps_numas := (if state then nr_ps_numas (power s) + 1 else nr_ps_numas (power s) - 1)\<rparr>\<rparr>))"

definition abtst_get_numa_ps_pct :: "sys \<Rightarrow> nat \<Rightarrow> u32 res" where
  "abtst_get_numa_ps_pct s i = idx (ps_pct (power s)) i"

definition abtst_set_numa_ps_pct :: "sys \<Rightarrow> nat \<Rightarrow> u32 \<Rightarrow> sys res" where
  "abtst_set_numa_ps_pct s i pct =
     rbind (put (ps_pct (power s)) i pct) (\<lambda>x. Inr (s\<lparr>power := (power s)\<lparr>ps_pct := x\<rparr>\<rparr>))"

definition abtst_get_rebalance_interval :: "sys \<Rightarrow> int" where
  "abtst_get_rebalance_interval s = rebalance_interval (rebalance s)"

definition sum_sleep :: "sys \<Rightarrow> nat \<Rightarrow> u32 \<times> u32 \<Rightarrow> (u32 \<times> u32) res" where
  "sum_sleep s j acc =
     rbind (get_stream s j) (\<lambda>st.
     if \<not> used st then Inr acc
     else Inr (fst acc + abtst_stream_get_sleep_time st div 1000000, snd acc + 1))"

definition update_power_stat :: "nat \<Rightarrow> sys \<Rightarrow> sys res" where
  "update_power_stat i s =
     rbind (abtst_get_numa_info s (of_nat i)) (\<lambda>p. rbind (nonnull p) (\<lambda>info.
     rbind (for_each (sum_sleep s) (core_range (start_core info) (end_core info)) (0, 0)) (\<lambda>(msec, cnt).
     rbind (if cnt \<noteq> 0
            then rbind (udiv ((msec div cnt) * 100) (1000 * word_of_int (abtst_get_rebalance_interval s))) (\<lambda>pct.
                 Inr (if sint pct > 100 then 100 else pct))
            else Inr 100) (\<lambda>pct.
     abtst_set_numa_ps_pct s i pct))))"

definition abtst_update_power_stats :: "sys \<Rightarrow> sys res" where
  "abtst_update_power_stats s = for_each update_power_stat [0..<unat (nr_numas (env s))] s"

text \<open>
  The comparison of the unsigned left side with \<^verbatim>\<open>i * 100 * WORK_BALANCE_LEVEL\<close> is done
  in \<^verbatim>\<open>double\<close>, exactly: the right side is \<open>50 * i\<close>.
\<close>

fun estimate_loop :: "u32 \<Rightarrow> u32 \<Rightarrow> nat list \<Rightarrow> u32" where
  "estimate_loop nr pct [] = 0"
| "estimate_loop nr pct (i # is) =
     (if unat (nr * 100 - pct) < 50 * i then nr - of_nat i else estimate_loop nr pct is)"

definition abtst_estimate_ps_numas :: "sys \<Rightarrow> int res" where
  "abtst_estimate_ps_numas s =
     rbind (for_each (\<lambda>i pct. rbind (abtst_get_numa_ps_pct s i) (\<lambda>x. Inr (pct + x)))
       [0..<unat (nr_numas (env s))] 0) (\<lambda>pct.
     Inr (sint (estimate_loop (nr_numas (env s)) pct [1..<unat (nr_numas (env s))])))"

subsection \<open>Sleep percentages\<close>

definition sleep_sum :: "sys \<Rightarrow> nat list \<Rightarrow> u32" where
  "sleep_sum s ks = (\<Sum>k\<leftarrow>ks. abtst_stream_get_sleep_time (stream_at s k) div 1000000)"

definition ps_pct_of :: "sys \<Rightarrow> nat \<Rightarrow> u32" where
  "ps_pct_of s i =
     (if used_in s i = [] then 100
      else let pct = ((sleep_sum s (used_in s i) div of_nat (length (used_in s i))) * 100) div
             (1000 * word_of_int (rebalance_interval (rebalance s)))
           in if sint pct > 100 then 100 else pct)"

definition wf_power :: "sys \<Rightarrow> bool" where
  "wf_power s \<longleftrightarrow> length (ps_state (power s)) = MAX_NUMAS \<and> length (ps_pct (power s)) = MAX_NUMAS \<and>
     0 < rebalance_interval (rebalance s) \<and> rebalance_interval (rebalance s) \<le> 1000000"

lemma sum_sleep_loop:
  assumes "\<And>k. k \<in> set ks \<Longrightarrow> k < n_streams s"
  shows "for_each (sum_sleep s) ks (q, c)
    = Inr (q + sleep_sum s (filter (\<lambda>k. used (stream_at s k)) ks),
           c + of_nat (length (filter (\<lambda>k. used (stream_at s k)) ks)))"
  using assms by (induction ks arbitrary: q c) (auto simp: sum_sleep_def sleep_sum_def algebra_simps)

lemma interval_word:
  assumes "wf_power s"
  shows "uint (1000 * word_of_int (rebalance_interval (rebalance s)) :: u32) = 1000 * rebalance_interval (rebalance s)"
proof -
  let ?i = "rebalance_interval (rebalance s)"
  have "1000 * word_of_int ?i = (word_of_int (1000 * ?i) :: u32)" by simp
  then have "uint (1000 * word_of_int ?i :: u32) = (1000 * ?i) mod 2 ^ 32"
    by (simp only: uint_word_of_int_eq) (simp add: take_bit_eq_mod)
  also have "\<dots> = 1000 * ?i" using assms by (intro mod_pos_pos_trivial) (auto simp: wf_power_def)
  finally show ?thesis .
qed

lemma interval_nonzero:
  "wf_power s \<Longrightarrow> (1000 * word_of_int (rebalance_interval (rebalance s)) :: u32) \<noteq> 0"
  using interval_word [of s] by (auto simp: wf_power_def)

lemma update_power_stat_eq:
  assumes top: "wf_topology s" and pow: "wf_power s" and i: "i < n_numas s"
  shows "update_power_stat i s = Inr (s\<lparr>power := (power s)\<lparr>ps_pct := (ps_pct (power s))[i := ps_pct_of s i]\<rparr>\<rparr>)"
proof -
  have "for_each (sum_sleep s) (numa_cores s i) (0, 0) = Inr (sleep_sum s (used_in s i), of_nat (length (used_in s i)))"
    using sum_sleep_loop [of "numa_cores s i" s 0 0] numa_cores_bound [OF top i] by (simp add: used_in_def)
  moreover have "(of_nat (length (used_in s i)) :: u32) = 0 \<longleftrightarrow> used_in s i = []"
    using length_used_in [OF top i] by (subst of_nat_u32_0_iff) auto
  moreover have "i < length (ps_pct (power s))" using top pow i by (auto simp: wf_topology_def wf_power_def)
  ultimately show ?thesis
    using assms interval_nonzero [OF pow]
    by (simp add: update_power_stat_def ps_pct_of_def numa_cores_def Let_def
        abtst_set_numa_ps_pct_def abtst_get_rebalance_interval_def)
qed

definition ps_pct_upto :: "sys \<Rightarrow> nat \<Rightarrow> sys \<Rightarrow> bool" where
  "ps_pct_upto s n s' \<longleftrightarrow> (\<exists>x. s' = s\<lparr>power := (power s)\<lparr>ps_pct := x\<rparr>\<rparr> \<and>
     length x = length (ps_pct (power s)) \<and> (\<forall>i < n. x ! i = ps_pct_of s i))"

lemma abtst_update_power_stats_sat:
  assumes top: "wf_topology s" and pow: "wf_power s"
  shows "sat {} (abtst_update_power_stats s) (ps_pct_upto s (n_numas s))"
proof -
  have "sat {} (for_each update_power_stat [0..<n_numas s] s) ((\<lambda>is. ps_pct_upto s (length is)) [0..<n_numas s])"
  proof (rule for_each_sat_prefix [where P = "\<lambda>is. ps_pct_upto s (length is)"])
    show "ps_pct_upto s (length []) s"
      unfolding ps_pct_upto_def by (intro exI [of _ "ps_pct (power s)"]) auto
  next
    fix ys i zs s1
    assume split: "[0..<n_numas s] = ys @ i # zs" and s1: "ps_pct_upto s (length ys) s1"
    then have ys: "ys = [0..<i]" and i: "i < n_numas s" using upt_splitD [OF split] by auto
    obtain x where x: "s1 = s\<lparr>power := (power s)\<lparr>ps_pct := x\<rparr>\<rparr>" "length x = length (ps_pct (power s))"
      "\<forall>j < length ys. x ! j = ps_pct_of s j"
      using s1 by (auto simp: ps_pct_upto_def)
    have "ps_pct_of s1 i = ps_pct_of s i" "wf_power s1"
      using pow x(2) by (simp_all add: x(1) used_in_def ps_pct_of_def sleep_sum_def wf_power_def)
    then have "update_power_stat i s1 = Inr (s\<lparr>power := (power s)\<lparr>ps_pct := x[i := ps_pct_of s i]\<rparr>\<rparr>)"
      using top i x(1) by (subst update_power_stat_eq) auto
    moreover have "ps_pct_upto s (length (ys @ [i])) (s\<lparr>power := (power s)\<lparr>ps_pct := x[i := ps_pct_of s i]\<rparr>\<rparr>)"
      unfolding ps_pct_upto_def using x(2,3) ys i top pow
      by (intro exI [of _ "x[i := ps_pct_of s i]"]) (auto simp: nth_update_if wf_topology_def wf_power_def)
    ultimately show "sat {} (update_power_stat i s1) (ps_pct_upto s (length (ys @ [i])))" by simp
  qed
  then show ?thesis by (simp add: abtst_update_power_stats_def n_numas_def)
qed


text \<open>
  The quotient is below \<open>2 ^ 31\<close>, so that the signed comparison with 100 bounds the
  unsigned value too.
\<close>

lemma ps_pct_of_le:
  assumes "wf_power s"
  shows "ps_pct_of s i \<le> 100"
proof -
  let ?d = "1000 * word_of_int (rebalance_interval (rebalance s)) :: u32"
  have small: "\<not> sint (x div ?d) > 100 \<Longrightarrow> x div ?d \<le> 100" for x :: u32
  proof -
    assume le: "\<not> sint (x div ?d) > 100"
    have "1000 \<le> uint ?d" using interval_word [OF assms] assms by (simp add: wf_power_def)
    then have "uint (x div ?d) \<le> uint x div 1000" by (simp add: uint_div zdiv_mono2)
    moreover have "uint x < 4294967296" using uint_lt2p [of x] by simp
    ultimately have "uint (x div ?d) < 2147483648" by linarith
    then have "sint (x div ?d) = uint (x div ?d)" by (rule sint_small)
    with le show ?thesis by (simp add: word_le_def)
  qed
  then show ?thesis by (auto simp: ps_pct_of_def Let_def)
qed

subsection \<open>How many nodes may sleep\<close>

text \<open>
  The sleep percentages are at most 100, read as unsigned numbers; \<open>busy s\<close> is the work
  that the nodes did, in percent of one node.
\<close>

definition pct_bounded :: "sys \<Rightarrow> bool" where
  "pct_bounded s \<longleftrightarrow> (\<forall>i < n_numas s. ps_pct (power s) ! i \<le> 100)"

definition busy :: "sys \<Rightarrow> nat" where
  "busy s = 100 * n_numas s - (\<Sum>i < n_numas s. unat (ps_pct (power s) ! i))"

text \<open>\<open>r\<close> nodes may sleep: the work loads the other nodes by less than one half.\<close>

definition may_sleep :: "sys \<Rightarrow> nat \<Rightarrow> bool" where
  "may_sleep s r \<longleftrightarrow> r < n_numas s \<and> 2 * busy s < 100 * (n_numas s - r)"

lemma estimate_loop_cases:
  "(estimate_loop nr pct is = 0 \<and> (\<forall>i \<in> set is. \<not> unat (nr * 100 - pct) < 50 * i)) \<or>
   (\<exists>ys i zs. is = ys @ i # zs \<and> unat (nr * 100 - pct) < 50 * i \<and>
     (\<forall>j \<in> set ys. \<not> unat (nr * 100 - pct) < 50 * j) \<and> estimate_loop nr pct is = nr - of_nat i)"
proof (induction "is")
  case Nil
  then show ?case by simp
next
  case (Cons i js)
  show ?case
  proof (cases "unat (nr * 100 - pct) < 50 * i")
    case True
    then have "estimate_loop nr pct (i # js) = nr - of_nat i" by simp
    with True show ?thesis by (intro disjI2 exI [of _ "[]"]) auto
  next
    case False
    from Cons.IH show ?thesis
    proof (elim disjE exE conjE)
      fix ys k zs assume "js = ys @ k # zs" "\<forall>j\<in>set ys. \<not> unat (nr * 100 - pct) < 50 * j"
        "unat (nr * 100 - pct) < 50 * k" "estimate_loop nr pct js = nr - of_nat k"
      with False show ?thesis by (intro disjI2 exI [of _ "i # ys"]) auto
    qed (use False in auto)
  qed
qed

lemma pct_sum_loop:
  assumes "length (ps_pct (power s)) = MAX_NUMAS" "n \<le> MAX_NUMAS"
  shows "for_each (\<lambda>i pct. rbind (abtst_get_numa_ps_pct s i) (\<lambda>x. Inr (pct + x))) [0..<n] 0
    = Inr (\<Sum>i < n. ps_pct (power s) ! i)"
  using assms(2)
  by (induction n) (use assms(1) in \<open>auto simp: for_each_append abtst_get_numa_ps_pct_def\<close>)

lemma unat_sum_pct:
  fixes f :: "nat \<Rightarrow> u32"
  assumes "\<And>i. i < n \<Longrightarrow> f i \<le> 100" "n \<le> 8"
  shows "unat (\<Sum>i < n. f i) = (\<Sum>i < n. unat (f i)) \<and> (\<Sum>i < n. unat (f i)) \<le> 100 * n"
  using assms
proof (induction n)
  case (Suc n)
  then have IH: "unat (\<Sum>i < n. f i) = (\<Sum>i < n. unat (f i))" "(\<Sum>i < n. unat (f i)) \<le> 100 * n" by auto
  have f: "unat (f n) \<le> 100" using Suc.prems(1) [of n] by (simp add: word_le_nat_alt)
  have "unat ((\<Sum>i < n. f i) + f n) = unat (\<Sum>i < n. f i) + unat (f n)"
    using IH f Suc.prems(2) by (subst unat_plus_simple [THEN iffD1]) (auto simp: no_olen_add_nat)
  with IH f show ?case by simp
qed simp

lemma busy_word:
  assumes "wf_topology s" and "pct_bounded s"
  shows "unat (nr_numas (env s) * 100 - (\<Sum>i < n_numas s. ps_pct (power s) ! i)) = busy s"
proof -
  have n: "n_numas s \<le> 8" using assms(1) by (simp add: wf_topology_def MAX_NUMAS_def)
  note sum = unat_sum_pct [of "n_numas s" "\<lambda>i. ps_pct (power s) ! i"]
  have nr: "nr_numas (env s) = of_nat (n_numas s)" by (simp add: n_numas_def)
  have m: "unat (nr_numas (env s) * 100) = n_numas s * 100"
    unfolding nr using n unat_of_nat_small [of "n_numas s * 100"] by simp
  have "(\<Sum>i < n_numas s. ps_pct (power s) ! i) \<le> nr_numas (env s) * 100"
    using sum n assms(2) by (simp add: word_le_nat_alt m pct_bounded_def)
  then show ?thesis
    using sum n assms(2) by (simp add: unat_sub m busy_def pct_bounded_def mult.commute)
qed

lemma abtst_estimate_ps_numas_eq:
  assumes top: "wf_topology s" and pow: "wf_power s" and pct: "pct_bounded s"
  obtains r where "abtst_estimate_ps_numas s = Inr (int r)" "r = 0 \<or> may_sleep s r"
    "\<And>r'. r < r' \<Longrightarrow> \<not> may_sleep s r'"
proof -
  let ?n = "n_numas s" and ?pct = "\<Sum>i < n_numas s. ps_pct (power s) ! i"
  have n: "?n \<le> 8" using top by (simp add: wf_topology_def MAX_NUMAS_def)
  have eq: "abtst_estimate_ps_numas s = Inr (sint (estimate_loop (nr_numas (env s)) ?pct [1..<?n]))"
    using pct_sum_loop [of s ?n] pow top
    by (simp add: abtst_estimate_ps_numas_def n_numas_def wf_power_def wf_topology_def)
  note cases = estimate_loop_cases [of "nr_numas (env s)" ?pct "[1..<?n]", unfolded busy_word [OF top pct]]
  show ?thesis
  proof (cases "estimate_loop (nr_numas (env s)) ?pct [1..<?n] = 0 \<and> (\<forall>i \<in> set [1..<?n]. \<not> busy s < 50 * i)")
    case True
    then have "\<not> may_sleep s r'" if "0 < r'" for r'
      using that by (auto simp: may_sleep_def)
    with True eq show ?thesis by (intro that [of 0]) auto
  next
    case False
    then obtain ys i zs where i: "[1..<?n] = ys @ i # zs" "busy s < 50 * i"
      "\<forall>j \<in> set ys. \<not> busy s < 50 * j" "estimate_loop (nr_numas (env s)) ?pct [1..<?n] = nr_numas (env s) - of_nat i"
      using cases by blast
    note ys = upt_splitD [OF i(1)]
    have "nr_numas (env s) - of_nat i = of_nat (?n - i)" using ys by (simp add: n_numas_def of_nat_diff)
    moreover have "sint (of_nat (?n - i) :: u32) = int (?n - i)"
      using n by (simp add: signed_of_nat signed_take_bit_int_eq_self)
    ultimately have "abtst_estimate_ps_numas s = Inr (int (?n - i))" using eq i(4) by simp
    moreover have "may_sleep s (?n - i)" using i(2) ys by (auto simp: may_sleep_def)
    moreover have "\<not> may_sleep s r'" if "?n - i < r'" for r'
    proof
      assume "may_sleep s r'"
      then have "?n - r' \<in> set ys" "busy s < 50 * (?n - r')"
        using that ys by (auto simp: may_sleep_def)
      then show False using i(3) by blast
    qed
    ultimately show ?thesis by (intro that [of "?n - i"]) auto
  qed
qed

end
