(* ===== verification/Display.thy ===== *)
theory Display
  imports Power_Saving
begin

text \<open>
  What the program writes to the terminal: the \<^verbatim>\<open>print\<close> functions of
  \<^verbatim>\<open>src/stream/stream.c\<close>, \<^verbatim>\<open>src/arch/env.c\<close> and \<^verbatim>\<open>src/partition/partition.c\<close> with the
  colours of \<^verbatim>\<open>include/abtst_util.h\<close>. A function is the text it writes, or the fault it runs
  into. The rebalancer calls two of them when it is verbose: a pass runs into their faults, and drops
  the text. They do not change the state.
\<close>

subsection \<open>Conversions of printf\<close>

fun digits :: "nat \<Rightarrow> string" where
  "digits n = (if n < 10 then [char_of (48 + n)] else digits (n div 10) @ [char_of (48 + n mod 10)])"

declare digits.simps [simp del]

text \<open>\<open>%d\<close> and \<open>%4d\<close>, \<open>%8d\<close>: right-justified in a field of the given width.\<close>

definition fmt_d :: "int \<Rightarrow> string" where
  "fmt_d i = (if i < 0 then ''-'' @ digits (nat (- i)) else digits (nat i))"

definition fmt_wd :: "nat \<Rightarrow> int \<Rightarrow> string" where
  "fmt_wd w i = replicate (w - length (fmt_d i)) CHR '' '' @ fmt_d i"

definition newline :: string where
  "newline = [char_of (10::nat)]"

subsection \<open>Colours: abtst_util.h\<close>

definition esc :: "string \<Rightarrow> string" where
  "esc x = char_of (27::nat) # ''['' @ x @ ''m''"

text \<open>The remainder of C has the sign of the dividend: no colour for a negative partition, multiples of six apart.\<close>

definition set_color :: "int \<Rightarrow> string" where
  "set_color part =
     (let c = (if part \<ge> 0 then part mod 6 else - ((- part) mod 6)) in
      if c = 0 then esc ''0;31'' else if c = 1 then esc ''0;32'' else if c = 2 then esc ''0;33''
      else if c = 3 then esc ''0;34'' else if c = 4 then esc ''0;35'' else if c = 5 then esc ''0;36'' else [])"

definition reset_color :: string where
  "reset_color = esc ''0''"

subsection \<open>Streams: stream.c\<close>

definition print_streams :: "sys \<Rightarrow> string res" where
  "print_streams s = for_each (\<lambda>i out.
     rbind (get_stream s i) (\<lambda>st.
     if \<not> used st then Inr out
     else Inr (out @ ''stream '' @ fmt_wd 4 (int i) @ '', part '' @ fmt_wd 4 (part_id st) @ '', loads '' @ fmt_wd 4 (sint (nr_loads st)) @
       '', qdepth '' @ fmt_wd 8 (sint (total_qdepth (stat st))) @ newline)))
     [0..<unat (max_xstreams (streams s))] []"

text \<open>
  The two diagrams: a line of stars for each stream in use, node by node. \<open>stars\<close> is the number
  of stars of a stream.
\<close>

definition print_core :: "(abtst_stream \<Rightarrow> nat res) \<Rightarrow> sys \<Rightarrow> nat \<Rightarrow> string \<Rightarrow> string res" where
  "print_core stars s j out =
     rbind (get_stream s j) (\<lambda>st.
     if \<not> used st then Inr out
     else rbind (stars st) (\<lambda>n.
       Inr (out @ set_color (part_id st) @ ''core '' @ fmt_wd 4 (int j) @ '': '' @ replicate n (CHR ''*'') @ newline)))"

definition print_diagram :: "string \<Rightarrow> (abtst_stream \<Rightarrow> nat res) \<Rightarrow> sys \<Rightarrow> string res" where
  "print_diagram title stars s =
     for_each (\<lambda>i out.
       rbind (idx (numa_info (env s)) i) (\<lambda>info.
       rbind (for_each (print_core stars s) (core_range (start_core info) (end_core info)) (out @ ''NUMA '' @ fmt_d (int i) @ newline)) (\<lambda>out.
       Inr (out @ reset_color))))
     [0..<unat (nr_numas (env s))] (newline @ newline @ title @ newline)"

definition qdepth_stars :: "abtst_stream \<Rightarrow> nat res" where
  "qdepth_stars st = Inr (unat ((total_qdepth (stat st) + 10 - 1) div 10))"

definition print_stream_qdepth :: "sys \<Rightarrow> string res" where
  "print_stream_qdepth s = print_diagram ''Display Queue Depth:'' qdepth_stars s"

text \<open>The divisor is an \<^verbatim>\<open>int\<close> product, which wraps at 32 bits here (overflow is not a fault); the number of stars is an \<^verbatim>\<open>int\<close>.\<close>

definition sleep_stars :: "int \<Rightarrow> abtst_stream \<Rightarrow> nat res" where
  "sleep_stars interval st =
     (if abtst_stream_get_sleep_time st \<noteq> 0
      then rbind (udiv (abtst_stream_get_sleep_time st) (word_of_int (100000000 * interval))) (\<lambda>q. Inr (nat (sint (q + 1))))
      else Inr 0)"

definition print_stream_sleeptime :: "sys \<Rightarrow> int \<Rightarrow> string res" where
  "print_stream_sleeptime s interval = print_diagram ''Display sleep time:'' (sleep_stars interval) s"

subsection \<open>Nodes and partitions: env.c, partition.c\<close>

definition print_numas :: "sys \<Rightarrow> string res" where
  "print_numas s = for_each (\<lambda>i out.
     rbind (idx (numa_info (env s)) i) (\<lambda>info.
     rbind (idx (numa_stat (env s)) i) (\<lambda>st.
     Inr (out @ ''numa '' @ fmt_d (int i) @ '', cores '' @ fmt_wd 4 (sint (start_core info)) @ '' - '' @ fmt_wd 4 (sint (end_core info)) @
       '', used '' @ fmt_wd 4 (sint (numa_used_cores st)) @ '', qdepth '' @ fmt_wd 4 (sint (avg_qdepth st)) @ newline))))
     [0..<unat (nr_numas (env s))] []"

definition print_partitions :: "sys \<Rightarrow> string res" where
  "print_partitions s = for_each (\<lambda>i out.
     rbind (idx (part_stats (partitions s)) i) (\<lambda>st.
     rbind (for_each (\<lambda>j out.
         rbind (idx (numa_stats (partitions s)) i) (\<lambda>row. rbind (idx row j) (\<lambda>st.
         Inr (out @ fmt_wd 4 (sint (part_used_cores st)) @ ''/'' @ fmt_wd 4 (sint (part_qdepth st)) @ '' ''))))
       [0..<unat (nr_numas (env s))]
       (out @ ''part '' @ fmt_d (int i) @ '', cores/qdepth '' @ fmt_wd 4 (sint (part_used_cores st)) @ ''/'' @ fmt_wd 4 (sint (part_qdepth st)) @ '', '')) (\<lambda>out.
     Inr (out @ newline))))
     [0..<nat (nr_partitions (partitions s))] []"

subsection \<open>The output of a pass: rebalance.c\<close>

definition abtst_get_rebalance_verbose :: "sys \<Rightarrow> int" where
  "abtst_get_rebalance_verbose s = verbose (rebalance s)"

text \<open>What \<^verbatim>\<open>abtst_reb_update_stat\<close> writes after the depths were measured.\<close>

definition reb_update_output :: "sys \<Rightarrow> string res" where
  "reb_update_output s =
     rbind (if abtst_get_rebalance_verbose s \<ge> 1 then print_stream_qdepth s else Inr []) (\<lambda>out.
     rbind (if abtst_get_rebalance_verbose s \<ge> 2 then print_stream_sleeptime s (abtst_get_rebalance_interval s) else Inr []) (\<lambda>out'.
     Inr (out @ out')))"

subsection \<open>Lemmas\<close>

text \<open>\<open>%d\<close> loses nothing: the digits are read back.\<close>

definition undigits :: "string \<Rightarrow> nat" where
  "undigits ds = foldl (\<lambda>n d. 10 * n + (of_char d - 48)) 0 ds"

lemma undigits_digits: "undigits (digits n) = n"
proof (induction n rule: digits.induct)
  case (1 n)
  have c: "of_char (char_of (48 + d) :: char) = 48 + (d::nat)" if "d < 10" for d using that by simp
  show ?case
  proof (cases "n < 10")
    case True
    then show ?thesis using c [OF True] by (subst digits.simps) (simp add: undigits_def)
  next
    case False
    have "undigits (digits n) = 10 * undigits (digits (n div 10)) + n mod 10"
      using False c [of "n mod 10"] by (subst digits.simps) (simp add: undigits_def)
    then show ?thesis using 1 [OF False] by simp
  qed
qed

lemma print_diagram_sat:
  assumes top: "wf_topology s" and stars: "\<And>k. k < n_streams s \<Longrightarrow> used (stream_at s k) \<Longrightarrow> sat E (stars (stream_at s k)) (\<lambda>_. True)"
  shows "sat E (print_diagram title stars s) (\<lambda>_. True)"
  unfolding print_diagram_def
proof (rule for_each_sat)
  fix i out assume "i \<in> set [0..<unat (nr_numas (env s))]"
  then have i: "i < n_numas s" by (simp add: n_numas_def)
  have "sat E (for_each (print_core stars s) (numa_cores s i) out) (\<lambda>_. True)" for out
  proof (rule for_each_sat)
    fix j out assume "j \<in> set (numa_cores s i)"
    then have "j < n_streams s" using top i by (metis numa_cores_bound)
    then show "sat E (print_core stars s j out) (\<lambda>_. True)" using stars [of j] by (auto simp: print_core_def elim!: sat_mono)
  qed simp
  then show "sat E (rbind (idx (numa_info (env s)) i) (\<lambda>info. rbind (for_each (print_core stars s) (core_range (start_core info) (end_core info))
      (out @ ''NUMA '' @ fmt_d (int i) @ newline)) (\<lambda>out. Inr (out @ reset_color)))) (\<lambda>_. True)"
    using top i by (auto simp: wf_topology_def numa_cores_def numa_at_def)
qed simp

text \<open>
  On a legal state the output of a pass is a text. The exception is an interval of zero seconds,
  or one whose product with 100000000 is zero in 32 bits: then a stream in use that has slept
  makes a verbose rebalancer divide by zero.
\<close>

lemma print_stream_qdepth_sat: "wf_topology s \<Longrightarrow> sat E (print_stream_qdepth s) (\<lambda>_. True)"
  unfolding print_stream_qdepth_def by (rule print_diagram_sat) (simp_all add: qdepth_stars_def)

lemma reb_update_output_fault:
  assumes "wf_topology s" and "word_of_int (100000000 * rebalance_interval (rebalance s)) = (0::u32) \<Longrightarrow> DivByZero \<in> E"
  shows "sat E (reb_update_output s) (\<lambda>_. True)"
proof -
  have "sat E (print_stream_sleeptime s (rebalance_interval (rebalance s))) (\<lambda>_. True)"
    unfolding print_stream_sleeptime_def
    by (rule print_diagram_sat [OF assms(1)]) (use assms(2) in \<open>auto simp: sleep_stars_def udiv_def\<close>)
  with print_stream_qdepth_sat [OF assms(1), of E] show ?thesis
    by (auto simp: reb_update_output_def abtst_get_rebalance_interval_def elim!: sat_mono)
qed

text \<open>The product is zero in 32 bits for the multiples of \<open>2 ^ 24\<close> only, beyond every interval of a legal state.\<close>

lemma display_divisor:
  assumes "0 < n" and "n < 2 ^ 24"
  shows "word_of_int (100000000 * n) \<noteq> (0::u32)"
proof
  assume "word_of_int (100000000 * n) = (0::u32)"
  then have "2 ^ 32 dvd 100000000 * n"
    unfolding word_of_int_eq_0_iff by simp
  then have "2 ^ 8 * 2 ^ 24 dvd 2 ^ 8 * (390625 * n)" by simp
  then have "2 ^ 24 dvd 390625 * n" by (subst (asm) dvd_mult_cancel_left) simp
  moreover have "coprime (2 ^ 24 :: int) 390625"
    unfolding coprime_power_left_iff by (simp add: coprime_left_2_iff_odd)
  ultimately have "2 ^ 24 dvd n" using coprime_dvd_mult_right_iff by blast
  with assms show False by (auto dest: zdvd_imp_le)
qed

lemma reb_update_output_sat:
  assumes "wf_topology s" and "wf_power s"
  shows "sat E (reb_update_output s) (\<lambda>_. True)"
  using assms display_divisor [of "rebalance_interval (rebalance s)"]
  by (intro reb_update_output_fault) (auto simp: wf_power_def)

lemma for_each_fault:
  assumes "\<And>x s. x \<in> set xs \<Longrightarrow> sat {e} (f x s) (\<lambda>_. True)" and "y \<in> set xs" and "\<And>s. f y s = Inl e"
  shows "for_each f xs s = Inl e"
  using assms
proof (induction xs arbitrary: s)
  case (Cons x xs)
  show ?case
  proof (cases "x = y")
    case False
    then have y: "y \<in> set xs" using Cons.prems(2) by simp
    have rest: "for_each f xs t = Inl e" for t
      by (rule Cons.IH) (use Cons.prems(1,3) y in auto)
    show ?thesis using Cons.prems(1) [of x s] rest by (cases "f x s") auto
  qed (use Cons.prems(3) in simp)
qed simp

text \<open>One stream in use that has slept is enough for the fault.\<close>

lemma print_diagram_fault:
  assumes top: "wf_topology s" and k: "i < n_numas s" "k \<in> set (used_in s i)" "stars (stream_at s k) = Inl e"
    and stars: "\<And>st. sat {e} (stars st) (\<lambda>_. True)"
  shows "print_diagram title stars s = Inl e"
proof -
  have core: "sat {e} (print_core stars s j out) (\<lambda>_. True)" if "j < n_streams s" for j out
    using that stars [of "stream_at s j"] by (auto simp: print_core_def elim!: sat_mono)
  have node: "sat {e} (for_each (print_core stars s) (numa_cores s i') out) (\<lambda>_. True)" if "i' < n_numas s" for i' out
    by (rule for_each_sat) (use core numa_cores_bound [OF top that] in auto)
  have info: "idx (numa_info (env s)) i' = Inr (numa_at s i')" "core_range (start_core (numa_at s i')) (end_core (numa_at s i')) = numa_cores s i'"
    if "i' < n_numas s" for i'
    using top that by (auto simp: wf_topology_def numa_at_def numa_cores_def)
  have kc: "k \<in> set (numa_cores s i)" "used (stream_at s k)" using k(2) by (auto simp: used_in_def)
  have "print_core stars s k out = Inl e" for out
    using numa_cores_bound [OF top k(1) kc(1)] kc(2) k(3) by (simp add: print_core_def)
  then have bad: "for_each (print_core stars s) (numa_cores s i) out = Inl e" for out
    by (intro for_each_fault [OF _ kc(1)]) (use core numa_cores_bound [OF top k(1)] in auto)
  show ?thesis
    unfolding print_diagram_def
    by (rule for_each_fault [where y = i]) (use k(1) info node bad in \<open>auto simp: n_numas_def [symmetric]\<close>)
qed

lemma reb_update_output_zero:
  assumes top: "wf_topology s" and v: "2 \<le> verbose (rebalance s)" "rebalance_interval (rebalance s) = 0"
    and k: "i < n_numas s" "k \<in> set (used_in s i)" "sleep_nsec (stat (stream_at s k)) \<noteq> 0"
  shows "reb_update_output s = Inl DivByZero"
proof -
  have "print_stream_sleeptime s 0 = Inl DivByZero"
    unfolding print_stream_sleeptime_def
    by (rule print_diagram_fault [OF top k(1,2)])
      (use k(3) in \<open>auto simp: sleep_stars_def udiv_def abtst_stream_get_sleep_time_def\<close>)
  then show ?thesis
    using v print_stream_qdepth_sat [OF top, of "{}"] by (auto simp: reb_update_output_def abtst_get_rebalance_verbose_def abtst_get_rebalance_interval_def sat_total)
qed

text \<open>One star for every ten requests, rounded up.\<close>

lemma qdepth_stars_ceil:
  assumes "unat (total_qdepth (stat st)) + 9 < 2 ^ 32"
  shows "qdepth_stars st = Inr ((unat (total_qdepth (stat st)) + 9) div 10)"
proof -
  have "unat (total_qdepth (stat st) + 9) = unat (total_qdepth (stat st)) + 9" using assms by (simp add: unat_word_ariths)
  then show ?thesis by (simp add: qdepth_stars_def unat_div add_diff_eq [symmetric])
qed

end
