(* ===== verification/Qsort.thy ===== *)
theory Qsort
  imports Prelude
begin

text \<open>
  The sorting routine of the C library, which \<^verbatim>\<open>rebalance.c\<close> calls with its own
  comparison. What the C standard promises is the contract \<open>qsort_contract\<close>: the array is
  permuted, and in the order of the comparison when the comparison is consistent. Elements
  that compare equal come in any order, so the program must not depend on it: the operations
  that sort take the routine as an argument and their properties hold for every routine with
  the contract. \<open>qsort_by\<close> is one.
\<close>

type_synonym 'a sorter = "('a \<Rightarrow> 'a \<Rightarrow> int) \<Rightarrow> 'a list \<Rightarrow> 'a list"

definition consistent :: "('a \<Rightarrow> 'a \<Rightarrow> int) \<Rightarrow> bool" where
  "consistent cmp \<longleftrightarrow>
     (\<forall>a b. cmp a b \<le> 0 \<or> cmp b a \<le> 0) \<and>
     (\<forall>a b c. cmp a b \<le> 0 \<longrightarrow> cmp b c \<le> 0 \<longrightarrow> cmp a c \<le> 0)"

locale qsort_contract =
  fixes qs :: "'a sorter"
  assumes perm: "consistent cmp \<Longrightarrow> mset (qs cmp xs) = mset xs"
    and ordered: "consistent cmp \<Longrightarrow> sorted_wrt (\<lambda>a b. cmp a b \<le> 0) (qs cmp xs)"
begin

lemma set_qs: "consistent cmp \<Longrightarrow> set (qs cmp xs) = set xs"
  by (metis perm set_mset_mset)

lemma length_qs: "consistent cmp \<Longrightarrow> length (qs cmp xs) = length xs"
  by (metis perm size_mset)

lemma distinct_qs: "consistent cmp \<Longrightarrow> distinct (map f (qs cmp xs)) = distinct (map f xs)"
proof -
  assume "consistent cmp"
  then have "mset (map f (qs cmp xs)) = mset (map f xs)" by (simp add: perm)
  then show ?thesis by (rule mset_eq_imp_distinct_iff)
qed

lemma nth_qs_le: "consistent cmp \<Longrightarrow> i < j \<Longrightarrow> j < length xs \<Longrightarrow> cmp (qs cmp xs ! i) (qs cmp xs ! j) \<le> 0"
  using ordered [of cmp xs] by (auto simp: sorted_wrt_iff_nth_less length_qs)

end

subsection \<open>A sorting routine\<close>

primrec insert_by :: "('a \<Rightarrow> 'a \<Rightarrow> int) \<Rightarrow> 'a \<Rightarrow> 'a list \<Rightarrow> 'a list" where
  "insert_by cmp x [] = [x]"
| "insert_by cmp x (y # ys) = (if cmp x y \<le> 0 then x # y # ys else y # insert_by cmp x ys)"

primrec qsort_by :: "'a sorter" where
  "qsort_by cmp [] = []"
| "qsort_by cmp (x # xs) = insert_by cmp x (qsort_by cmp xs)"

lemma mset_insert_by [simp]: "mset (insert_by cmp x xs) = add_mset x (mset xs)"
  by (induction xs) auto

lemma set_insert_by [simp]: "set (insert_by cmp x xs) = insert x (set xs)"
  by (induction xs) auto

lemma sorted_insert_by:
  assumes "consistent cmp" and "sorted_wrt (\<lambda>a b. cmp a b \<le> 0) xs"
  shows "sorted_wrt (\<lambda>a b. cmp a b \<le> 0) (insert_by cmp x xs)"
  using assms(2)
proof (induction xs)
  case (Cons y ys)
  have "cmp y x \<le> 0" if "\<not> cmp x y \<le> 0" using assms(1) that by (auto simp: consistent_def)
  moreover have "cmp x z \<le> 0" if "cmp x y \<le> 0" "z \<in> set ys" for z
    using assms(1) that Cons.prems by (auto simp: consistent_def)
  ultimately show ?case using Cons by auto
qed simp

interpretation ins: qsort_contract qsort_by
proof
  fix cmp :: "'a \<Rightarrow> 'a \<Rightarrow> int" and xs :: "'a list"
  assume c: "consistent cmp"
  show "mset (qsort_by cmp xs) = mset xs" by (induction xs) auto
  show "sorted_wrt (\<lambda>a b. cmp a b \<le> 0) (qsort_by cmp xs)"
    by (induction xs) (auto intro: sorted_insert_by [OF c])
qed

end
