(* ===== verification/Rebalance.thy ===== *)
theory Rebalance
  imports Display Qsort
begin

text \<open>
  The rebalancer: \<^verbatim>\<open>src/rebalance/rebalance.c\<close>, the four levels of work of its thread
  and the pass that its loop repeats. The routine \<open>qs\<close> is the \<^verbatim>\<open>qsort\<close> of the C
  library. A result that may be a null pointer is an option. Of what the code prints the text is
  dropped and the faults are kept: the diagrams of a verbose pass are those of \<open>Display\<close>, and
  the reads that the other messages make through pointers are in the functions. \<^verbatim>\<open>free\<close> has no effect on
  the model's state: arrays are values. A pointer to a statistics cell is read when it is
  taken; nothing writes the statistics between that and its last use.
\<close>

definition REBALANCE_LEVEL_NONE :: int where "REBALANCE_LEVEL_NONE = 0"
definition REBALANCE_LEVEL_IN_PARTITION :: int where "REBALANCE_LEVEL_IN_PARTITION = 1"
definition REBALANCE_LEVEL_IN_NUMA :: int where "REBALANCE_LEVEL_IN_NUMA = 2"
definition REBALANCE_LEVEL_BETWEEN_NUMA :: int where "REBALANCE_LEVEL_BETWEEN_NUMA = 3"

definition MIN_IOS_TO_START_REB :: u32 where "MIN_IOS_TO_START_REB = 100"

definition abtst_get_rebalance_level :: "sys \<Rightarrow> int" where
  "abtst_get_rebalance_level s = rebalance_level (rebalance s)"

definition abtst_set_rebalance_level :: "sys \<Rightarrow> int \<Rightarrow> sys" where
  "abtst_set_rebalance_level s l = s\<lparr>rebalance := (rebalance s)\<lparr>rebalance_level := l\<rparr>\<rparr>"

definition abtst_set_rebalance_intervall :: "sys \<Rightarrow> int \<Rightarrow> sys" where
  "abtst_set_rebalance_intervall s n = s\<lparr>rebalance := (rebalance s)\<lparr>rebalance_interval := n\<rparr>\<rparr>"

definition abtst_set_rebalance_verbose :: "sys \<Rightarrow> int \<Rightarrow> sys" where
  "abtst_set_rebalance_verbose s v = s\<lparr>rebalance := (rebalance s)\<lparr>verbose := v\<rparr>\<rparr>"

subsection \<open>Sorting\<close>

definition cmp_func :: "sort_param \<Rightarrow> sort_param \<Rightarrow> int" where
  "cmp_func s1 s2 = (if sint (ios s1) > sint (ios s2) then 1 else if sint (ios s1) < sint (ios s2) then -1 else 0)"

definition null_param :: sort_param where
  "null_param = \<lparr>ios = 0, sp_stream = NullStream\<rparr>"

text \<open>\<^verbatim>\<open>calloc(n, sizeof(sort_param))\<close>; a negative count is a size that cannot be had.\<close>

definition calloc_params :: "sys \<Rightarrow> int \<Rightarrow> sort_param list option \<times> sys" where
  "calloc_params s n = (case alloc s of (ok, s) \<Rightarrow>
     (if ok \<and> 0 \<le> n then Some (replicate (nat n) null_param) else None, s))"

text \<open>\<^verbatim>\<open>qsort(params, cnt, sizeof(sort_param), cmp_func)\<close> sorts the first entries.\<close>

definition qsort_params :: "sort_param sorter \<Rightarrow> sort_param list \<Rightarrow> nat \<Rightarrow> sort_param list" where
  "qsort_params qs params cnt = qs cmp_func (take cnt params) @ drop cnt params"

definition collect_stream :: "sys \<Rightarrow> int \<Rightarrow> int \<Rightarrow> nat \<times> sort_param list \<Rightarrow> (nat \<times> sort_param list) res" where
  "collect_stream s pid j acc =
     (if j < 0 then Inl OutOfBounds
      else rbind (get_stream s (nat j)) (\<lambda>st.
        if \<not> used st then Inr acc
        else if pid \<noteq> -1 \<and> pid \<noteq> part_id st then Inr acc
        else rbind (put (snd acc) (fst acc) \<lparr>ios = abtst_stream_get_qdepth st, sp_stream = StreamPtr (nat j)\<rparr>)
          (\<lambda>ps. Inr (Suc (fst acc), ps))))"

definition sort_range :: "sys \<Rightarrow> int \<Rightarrow> (int \<times> int) option res" where
  "sort_range s numa_id =
     (if numa_id = -1 then Inr (Some (0, sint (nr_cores (env s) - 1)))
      else rbind (abtst_get_numa_info s (word_of_int numa_id)) (\<lambda>p.
        Inr (case p of None \<Rightarrow> None
             | Some info \<Rightarrow> Some (sint (start_core info), sint (end_core info)))))"

definition sort_streams :: "sort_param sorter \<Rightarrow> sys \<Rightarrow> int \<Rightarrow> int \<Rightarrow> (sort_param list option \<times> sys) res" where
  "sort_streams qs s numa_id pid =
     rbind (sort_range s numa_id) (\<lambda>r. case r of None \<Rightarrow> Inr (None, s) | Some (start, end) \<Rightarrow>
     (case calloc_params s (end - start + 1) of (p, s) \<Rightarrow>
      case p of None \<Rightarrow> Inr (None, s) | Some params \<Rightarrow>
      rbind (for_each (collect_stream s pid) [start..end] (0, params)) (\<lambda>(cnt, params).
      if cnt = 0 then Inr (None, s) else Inr (Some (qsort_params qs params cnt), s))))"

definition collect_partition :: "sys \<Rightarrow> int \<Rightarrow> nat \<Rightarrow> sort_param list \<Rightarrow> sort_param list res" where
  "collect_partition s numa_id i params =
     rbind (if numa_id = -1 then idx (part_stats (partitions s)) i
            else rbind (idx (numa_stats (partitions s)) i) (\<lambda>row. idx_int row numa_id)) (\<lambda>st.
     rbind (udiv (part_qdepth st) (part_used_cores st)) (\<lambda>q.
     put params i \<lparr>ios = q, sp_stream = IntPtr i\<rparr>))"

definition sort_partitions :: "sort_param sorter \<Rightarrow> sys \<Rightarrow> int \<Rightarrow> (sort_param list option \<times> sys) res" where
  "sort_partitions qs s numa_id =
     (case calloc_params s (nr_partitions (partitions s)) of (p, s) \<Rightarrow>
      case p of None \<Rightarrow> Inr (None, s) | Some params \<Rightarrow>
      rbind (for_each (collect_partition s numa_id) [0..<nat (nr_partitions (partitions s))] params) (\<lambda>params.
      Inr (Some (qsort_params qs params (nat (nr_partitions (partitions s)))), s)))"

definition collect_numa :: "sys \<Rightarrow> bool \<Rightarrow> bool \<Rightarrow> nat \<Rightarrow> nat \<times> sort_param list \<Rightarrow> (nat \<times> sort_param list) res" where
  "collect_numa s sort_qdepth check_ps i acc =
     rbind (if check_ps then abtst_is_numa_in_ps_state s i else Inr False) (\<lambda>skip.
     if skip then Inr acc
     else rbind (abtst_get_numa_stat s (of_nat i)) (\<lambda>p. rbind (nonnull p) (\<lambda>st.
       rbind (put (snd acc) (fst acc)
         \<lparr>ios = (if sort_qdepth then avg_qdepth st else numa_used_cores st), sp_stream = IntPtr i\<rparr>) (\<lambda>ps.
       Inr (Suc (fst acc), ps)))))"

text \<open>The array with the number of its entries, \<^verbatim>\<open>*nr_numas\<close>.\<close>

definition sort_numas :: "sort_param sorter \<Rightarrow> sys \<Rightarrow> bool \<Rightarrow> bool \<Rightarrow> ((sort_param list \<times> nat) option \<times> sys) res" where
  "sort_numas qs s sort_qdepth check_ps =
     (case calloc_params s (int (unat (nr_numas (env s)))) of (p, s) \<Rightarrow>
      case p of None \<Rightarrow> Inr (None, s) | Some params \<Rightarrow>
      rbind (for_each (collect_numa s sort_qdepth check_ps) [0..<unat (nr_numas (env s))] (0, params)) (\<lambda>(cnt, params).
      Inr (Some (if cnt > 1 then qsort_params qs params cnt else params, cnt), s)))"

subsection \<open>Level 1: inside a node, inside a partition\<close>

text \<open>The loop of \<^verbatim>\<open>reb_in_partition\<close> runs its body once.\<close>

definition reb_in_partition :: "sort_param sorter \<Rightarrow> nat \<Rightarrow> nat \<Rightarrow> sys \<Rightarrow> sys res" where
  "reb_in_partition qs numa_id pid s =
     rbind (abtst_get_partition_stat (partitions s) (int numa_id) (int pid)) (\<lambda>st.
     rbind (sort_streams qs s (int numa_id) (int pid)) (\<lambda>(p, s). case p of None \<Rightarrow> Inr s | Some params \<Rightarrow>
     rbind (idx params (unat (part_used_cores st - 1))) (\<lambda>last.
     rbind (idx params 0) (\<lambda>first.
     if sint (ios last - ios first) < sint MIN_IOS_TO_START_REB then Inr s
     else
       rbind (deref_stream (sp_stream first)) (\<lambda>k.
       rbind (get_stream s k) (\<lambda>stream.
       if abtst_stream_get_sleep_time stream = 0 then Inr s
       else
         rbind (udiv (part_qdepth st) (part_used_cores st)) (\<lambda>avg.
         rbind (abtst_rebalance_streams s first last avg) (\<lambda>(ret, s). Inr s))))))))"

definition reb_in_partition_guarded :: "sort_param sorter \<Rightarrow> nat \<Rightarrow> nat \<Rightarrow> sys \<Rightarrow> sys res" where
  "reb_in_partition_guarded qs i j s =
     rbind (abtst_get_partition_stat (partitions s) (int i) (int j)) (\<lambda>st.
     if part_used_cores st \<le> 1 \<or> part_qdepth st = 0 then Inr s else reb_in_partition qs i j s)"

definition abtst_reb_in_partitions :: "sort_param sorter \<Rightarrow> sys \<Rightarrow> sys res" where
  "abtst_reb_in_partitions qs s =
     for_each (\<lambda>i s. for_each (reb_in_partition_guarded qs i) [0..<nat (nr_partitions (partitions s))] s)
       [0..<unat (nr_numas (env s))] s"

subsection \<open>Level 2: inside a node, between partitions\<close>

definition pick_from_part :: "sys \<Rightarrow> nat \<Rightarrow> abtst_numa_stat option \<Rightarrow> sort_param list \<Rightarrow> nat \<Rightarrow> nat option res" where
  "pick_from_part s numa_id np params from =
     rbind (idx params from) (\<lambda>x. rbind (ptr_to_int (sp_stream x)) (\<lambda>pid.
     rbind (abtst_get_partition_stat (partitions s) (int numa_id) (int pid)) (\<lambda>st.
     if part_used_cores st > 1
     then rbind (udiv (part_qdepth st) (part_used_cores st - 1)) (\<lambda>q. rbind (nonnull np) (\<lambda>ns.
          Inr (if q \<le> avg_qdepth ns then Some pid else None)))
     else Inr None)))"

definition pick_to_part :: "sys \<Rightarrow> nat \<Rightarrow> abtst_numa_stat option \<Rightarrow> sort_param list \<Rightarrow> nat \<Rightarrow> nat option res" where
  "pick_to_part s numa_id np params to =
     rbind (idx params to) (\<lambda>x. rbind (ptr_to_int (sp_stream x)) (\<lambda>pid.
     rbind (abtst_get_partition_stat (partitions s) (int numa_id) (int pid)) (\<lambda>st.
     rbind (udiv (part_qdepth st) (part_used_cores st + 1)) (\<lambda>q. rbind (nonnull np) (\<lambda>ns.
     if q \<ge> avg_qdepth ns
     then rbind (udiv (part_qdepth st) (part_used_cores st)) (\<lambda>q.
          Inr (if q > MIN_IOS_TO_START_REB then Some pid else None))
     else Inr None)))))"

text \<open>A stream of the sorted array that is not in the partition it was configured for.\<close>

definition pick_moved :: "sys \<Rightarrow> sort_param list \<Rightarrow> nat \<Rightarrow> stream_ptr option res" where
  "pick_moved s params i =
     rbind (idx params i) (\<lambda>x. rbind (deref_stream (sp_stream x)) (\<lambda>k. rbind (get_stream s k) (\<lambda>st.
     rbind (idx (partition_map (partitions s)) (unat (rank st))) (\<lambda>home.
     Inr (if part_id st \<noteq> home then Some (sp_stream x) else None)))))"

text \<open>The second half: combine two streams of \<open>from_pid\<close> and give the emptied one to \<open>to_pid\<close>.\<close>

definition move_core :: "sort_param sorter \<Rightarrow> nat \<Rightarrow> nat \<Rightarrow> nat \<Rightarrow> sys \<Rightarrow> sys res" where
  "move_core qs numa_id from_pid to_pid s =
     rbind (sort_streams qs s (int numa_id) (int from_pid)) (\<lambda>(p, s). case p of None \<Rightarrow> Inr s | Some params \<Rightarrow>
     rbind (idx params 0) (\<lambda>p0. rbind (idx params 1) (\<lambda>p1.
     rbind (abtst_get_partition_stat (partitions s) (int numa_id) (int from_pid)) (\<lambda>st.
     rbind (find_first (pick_moved s params) [0..<unat (part_used_cores st)]) (\<lambda>m.
     case (case m of None \<Rightarrow> (sp_stream p0, sp_stream p1)
           | Some (i, x) \<Rightarrow> (x, if i \<ge> 1 then sp_stream p0 else sp_stream p1)) of (from_stream, to_stream) \<Rightarrow>
     rbind (deref_stream from_stream) (\<lambda>from. rbind (deref_stream to_stream) (\<lambda>to.
     rbind (abtst_combine_streams s from to) (\<lambda>(ret, s).
     if ret \<noteq> 0 then Inr s
     else rbind (upd_stream s from (abtst_stream_set_partition_id (int to_pid))) (\<lambda>s.
          abtst_update_partition_stats s)))))))))"

definition reb_in_numa :: "sort_param sorter \<Rightarrow> nat \<Rightarrow> sys \<Rightarrow> sys res" where
  "reb_in_numa qs numa_id s =
     rbind (abtst_get_numa_stat s (of_nat numa_id)) (\<lambda>np.
     rbind (sort_partitions qs s (int numa_id)) (\<lambda>(p, s). case p of None \<Rightarrow> Inr s | Some params \<Rightarrow>
     rbind (find_first (pick_from_part s numa_id np params)
       [0..<nat (nr_partitions (partitions s) - 1)]) (\<lambda>f. case f of None \<Rightarrow> Inr s | Some (from, from_pid) \<Rightarrow>
     rbind (find_first (pick_to_part s numa_id np params)
       (rev [Suc from..<nat (nr_partitions (partitions s))])) (\<lambda>t. case t of None \<Rightarrow> Inr s | Some (to, to_pid) \<Rightarrow>
     move_core qs numa_id from_pid to_pid s))))"

definition reb_in_numa_guarded :: "sort_param sorter \<Rightarrow> nat \<Rightarrow> sys \<Rightarrow> sys res" where
  "reb_in_numa_guarded qs i s =
     rbind (abtst_get_numa_stat s (of_nat i)) (\<lambda>p. rbind (nonnull p) (\<lambda>ns.
     if numa_used_cores ns = 0 \<or> avg_qdepth ns = 0 then Inr s else reb_in_numa qs i s))"

definition abtst_reb_in_numas :: "sort_param sorter \<Rightarrow> sys \<Rightarrow> sys res" where
  "abtst_reb_in_numas qs s =
     (if nr_partitions (partitions s) \<le> 1 then Inr s
      else for_each (reb_in_numa_guarded qs) [0..<unat (nr_numas (env s))] s)"

subsection \<open>Level 3: between nodes\<close>

text \<open>
  The partition with the largest difference of depths: \<^verbatim>\<open>part_id\<close> and \<^verbatim>\<open>max\<close>, an
  \<^verbatim>\<open>int\<close> that is compared signed and never negative.
\<close>

definition max_diff :: "sys \<Rightarrow> nat \<Rightarrow> nat \<Rightarrow> nat \<Rightarrow> int \<times> u32 \<Rightarrow> (int \<times> u32) res" where
  "max_diff s from to i acc =
     rbind (abtst_get_partition_stat (partitions s) (int from) (int i)) (\<lambda>from_pstat.
     rbind (abtst_get_partition_stat (partitions s) (int to) (int i)) (\<lambda>to_pstat.
     if part_used_cores from_pstat = 0 then Inr acc
     else if part_used_cores to_pstat = 0 then Inr acc
     else if part_qdepth from_pstat \<le> part_qdepth to_pstat then Inr acc
     else let cnt = part_qdepth from_pstat - part_qdepth to_pstat in
       Inr (if sint cnt > sint (snd acc) then (int i, cnt) else acc)))"

definition move_between :: "sort_param list \<Rightarrow> sort_param list \<Rightarrow> u32 \<Rightarrow> nat \<Rightarrow> u32 \<times> sys \<Rightarrow> (u32 \<times> sys) res" where
  "move_between params_from params_to limit i acc = (case acc of (cnt, s) \<Rightarrow>
     rbind (idx params_from i) (\<lambda>x. rbind (deref_stream (sp_stream x)) (\<lambda>k. rbind (get_stream s k) (\<lambda>st.
     if abtst_stream_get_qdepth st = 0 then Inr (cnt, s)
     else if cnt + abtst_stream_get_qdepth st > limit then Inr (cnt, s)
     else
       rbind (idx params_to 0) (\<lambda>y. rbind (deref_stream (sp_stream y)) (\<lambda>to. rbind (get_stream s to) (\<lambda>_.
       rbind (abtst_combine_streams s k to) (\<lambda>(ret, s').
       Inr (cnt + abtst_stream_get_qdepth st, s')))))))))"

definition reb_between_numas :: "sort_param sorter \<Rightarrow> nat \<Rightarrow> nat \<Rightarrow> u32 \<Rightarrow> sys \<Rightarrow> sys res" where
  "reb_between_numas qs from to avg s =
     rbind (abtst_get_numa_stat s (of_nat to)) (\<lambda>p. rbind (nonnull p) (\<lambda>to_nstat.
     let ios_to_migrate = (avg - avg_qdepth to_nstat) * numa_used_cores to_nstat in
     rbind (for_each (max_diff s from to) [0..<nat (nr_partitions (partitions s))] (-1, 0)) (\<lambda>(pid, mx).
     if pid < 0 then Inr s
     else
       rbind (sort_streams qs s (int from) pid) (\<lambda>(p, s). case p of None \<Rightarrow> Inr s | Some params_from \<Rightarrow>
       rbind (sort_streams qs s (int to) pid) (\<lambda>(p, s). case p of None \<Rightarrow> Inr s | Some params_to \<Rightarrow>
       rbind (abtst_get_partition_stat (partitions s) (int from) pid) (\<lambda>from_pstat.
       rbind (for_each (move_between params_from params_to (min ios_to_migrate (mx div 2)))
         (rev [0..<unat (part_used_cores from_pstat)]) (0, s)) (\<lambda>(_, s).
       rbind (abtst_update_partition_stats s) (\<lambda>s.
       abtst_update_numa_stats s))))))))"

definition pick_to_numa :: "sys \<Rightarrow> u32 \<Rightarrow> sort_param list \<Rightarrow> nat \<Rightarrow> nat option res" where
  "pick_to_numa s avg params to =
     rbind (idx params to) (\<lambda>x. rbind (ptr_to_int (sp_stream x)) (\<lambda>i.
     rbind (abtst_get_numa_stat s (of_nat i)) (\<lambda>p. rbind (nonnull p) (\<lambda>st.
     Inr (if numa_used_cores st > 0 \<and> avg_qdepth st < avg then Some i else None)))))"

definition pick_from_numa :: "sys \<Rightarrow> u32 \<Rightarrow> sort_param list \<Rightarrow> nat \<Rightarrow> nat option res" where
  "pick_from_numa s avg params from =
     rbind (idx params from) (\<lambda>x. rbind (ptr_to_int (sp_stream x)) (\<lambda>i.
     rbind (abtst_get_numa_stat s (of_nat i)) (\<lambda>p. rbind (nonnull p) (\<lambda>st.
     Inr (if numa_used_cores st > 0 \<and> avg_qdepth st \<ge> 2 * avg \<and> avg_qdepth st > 2 * MIN_IOS_TO_START_REB
          then Some i else None)))))"

definition abtst_reb_between_numas :: "sort_param sorter \<Rightarrow> sys \<Rightarrow> sys res" where
  "abtst_reb_between_numas qs s =
     rbind (abtst_get_average_qdepth s) (\<lambda>avg.
     rbind (sort_numas qs s True True) (\<lambda>(p, s). case p of None \<Rightarrow> Inr s | Some (params, nr) \<Rightarrow>
     if nr \<le> 1 then Inr s
     else
       rbind (find_first (pick_to_numa s avg params) [0..<nr - 1]) (\<lambda>t. case t of None \<Rightarrow> Inr s | Some (to, to_numa) \<Rightarrow>
       rbind (find_first (pick_from_numa s avg params) (rev [Suc to..<nr])) (\<lambda>f. case f of None \<Rightarrow> Inr s | Some (from, from_numa) \<Rightarrow>
       reb_between_numas qs from_numa to_numa avg s))))"

subsection \<open>Power saving\<close>

text \<open>The search for another node, awake, that has a core of the partition.\<close>

definition usable_numa :: "sys \<Rightarrow> nat \<Rightarrow> nat \<Rightarrow> nat \<Rightarrow> unit option res" where
  "usable_numa s numa_id pid j =
     (if j = numa_id then Inr None
      else rbind (abtst_is_numa_in_ps_state s j) (\<lambda>ps.
        if ps then Inr None
        else rbind (abtst_get_partition_stat (partitions s) (int j) (int pid)) (\<lambda>st.
          Inr (if part_used_cores st \<noteq> 0 then Some () else None))))"

definition core_of_part :: "sys \<Rightarrow> nat \<Rightarrow> nat \<Rightarrow> unit option res" where
  "core_of_part s pid j =
     rbind (get_stream s j) (\<lambda>st.
     Inr (if \<not> used st then None else if part_id st = int pid then Some () else None))"

text \<open>
  The destinations \<^verbatim>\<open>to_cores\<close>, one cell per partition, \<open>None\<close> while a cell is not
  written; the result is \<open>None\<close> on the early return.
\<close>

fun target_cores :: "sys \<Rightarrow> nat \<Rightarrow> nat list \<Rightarrow> nat option list \<Rightarrow> nat option list option res" where
  "target_cores s numa_id [] to_cores = Inr (Some to_cores)"
| "target_cores s numa_id (i # is) to_cores =
     rbind (abtst_get_partition_stat (partitions s) (int numa_id) (int i)) (\<lambda>from_stat.
     if part_used_cores from_stat = 0 then target_cores s numa_id is to_cores
     else
       rbind (find_first (usable_numa s numa_id i) [0..<unat (nr_numas (env s))]) (\<lambda>t. case t of None \<Rightarrow> Inr None | Some (to_numa, _) \<Rightarrow>
       rbind (abtst_get_numa_info s (of_nat to_numa)) (\<lambda>p. rbind (nonnull p) (\<lambda>info.
       rbind (find_first (core_of_part s i) (core_range (start_core info) (end_core info))) (\<lambda>c.
       rbind (case c of None \<Rightarrow> Inr to_cores | Some (j, _) \<Rightarrow> put to_cores i (Some j)) (\<lambda>to_cores.
       target_cores s numa_id is to_cores))))))"

definition written :: "nat option \<Rightarrow> nat res" where
  "written c = (case c of None \<Rightarrow> Inl UninitRead | Some x \<Rightarrow> Inr x)"

fun migrate_numa :: "nat option list \<Rightarrow> nat list \<Rightarrow> sys \<Rightarrow> (int \<times> sys) res" where
  "migrate_numa to_cores [] s = Inr (0, s)"
| "migrate_numa to_cores (i # is) s =
     rbind (get_stream s i) (\<lambda>st.
     if \<not> used st then migrate_numa to_cores is s
     else
       rbind (idx_int to_cores (part_id st)) (\<lambda>c. rbind (written c) (\<lambda>to_core.
       rbind (abtst_combine_streams s i to_core) (\<lambda>(ret, s).
       if ret \<noteq> 0 then Inr (-1, s) else migrate_numa to_cores is s))))"

definition reb_combine_numas :: "nat \<Rightarrow> sys \<Rightarrow> (int \<times> sys) res" where
  "reb_combine_numas numa_id s =
     rbind (abtst_get_numa_info s (of_nat numa_id)) (\<lambda>ip.
     rbind (abtst_get_numa_stat s (of_nat numa_id)) (\<lambda>np. rbind (nonnull np) (\<lambda>ns.
     if numa_used_cores ns = 0 then Inr (0, s)
     else
       rbind (target_cores s numa_id [0..<nat (nr_partitions (partitions s))] (replicate MAX_PARTITIONS None)) (\<lambda>t.
       case t of None \<Rightarrow> Inr (-1, s) | Some to_cores \<Rightarrow>
       rbind (nonnull ip) (\<lambda>info.
       migrate_numa to_cores (core_range (start_core info) (end_core info)) s)))))"

definition sleep_numa :: "sort_param sorter \<Rightarrow> sys \<Rightarrow> sys res" where
  "sleep_numa qs s =
     rbind (sort_numas qs s False True) (\<lambda>(p, s). case p of None \<Rightarrow> Inr s | Some (params, nr) \<Rightarrow>
     if nr \<le> 1 then Inr s
     else
       rbind (rbind (idx params 0) (\<lambda>x. ptr_to_int (sp_stream x))) (\<lambda>i.
       rbind (if i = 0 then rbind (idx params 1) (\<lambda>x. ptr_to_int (sp_stream x)) else Inr i) (\<lambda>from_numa.
       rbind (reb_combine_numas from_numa s) (\<lambda>(ret, s).
       rbind (if ret = 0 then abtst_set_numa_ps_state s from_numa True else Inr s) (\<lambda>s.
       rbind (abtst_update_partition_stats s) (\<lambda>s.
       rbind (abtst_update_numa_stats s) (\<lambda>s.
       abtst_update_power_stats s)))))))"

definition pick_sleeping :: "sys \<Rightarrow> sort_param list \<Rightarrow> nat \<Rightarrow> nat option res" where
  "pick_sleeping s params i =
     rbind (idx params i) (\<lambda>x. rbind (ptr_to_int (sp_stream x)) (\<lambda>n.
     rbind (abtst_is_numa_in_ps_state s n) (\<lambda>ps. Inr (if ps then Some n else None))))"

definition wake_numa :: "sort_param sorter \<Rightarrow> sys \<Rightarrow> sys res" where
  "wake_numa qs s =
     rbind (sort_numas qs s False False) (\<lambda>(p, s). case p of None \<Rightarrow> Inr s | Some (params, nr) \<Rightarrow>
     if nr \<le> 1 then Inr s
     else
       rbind (find_first (pick_sleeping s params) (rev [0..<nr])) (\<lambda>f. case f of None \<Rightarrow> Inr s | Some (_, from_numa) \<Rightarrow>
       abtst_set_numa_ps_state s from_numa False))"

definition abtst_reb_power_saving :: "sort_param sorter \<Rightarrow> sys \<Rightarrow> sys res" where
  "abtst_reb_power_saving qs s =
     (if \<not> abtst_is_power_saving_enabled s then Inr s
      else rbind (abtst_estimate_ps_numas s) (\<lambda>num.
        if num > abtst_get_numas_in_ps_state s then sleep_numa qs s
        else if num < abtst_get_numas_in_ps_state s then wake_numa qs s
        else Inr s))"

subsection \<open>The pass of the rebalancer thread\<close>

definition abtst_reb_update_stat :: "sys \<Rightarrow> sys res" where
  "abtst_reb_update_stat s =
     rbind (abtst_update_streams_stat s) (\<lambda>s.
     rbind (reb_update_output s) (\<lambda>_.
     rbind (abtst_update_partition_stats s) (\<lambda>s.
     rbind (abtst_update_numa_stats s) (\<lambda>s.
     abtst_update_power_stats s))))"

text \<open>One iteration of the loop of \<^verbatim>\<open>reb_func\<close>, up to the \<^verbatim>\<open>sleep\<close>.\<close>

definition reb_pass :: "sort_param sorter \<Rightarrow> sys \<Rightarrow> sys res" where
  "reb_pass qs s =
     rbind (abtst_reb_update_stat s) (\<lambda>s.
     let level = abtst_get_rebalance_level s in
     rbind (if level \<ge> REBALANCE_LEVEL_BETWEEN_NUMA
            then rbind (abtst_reb_power_saving qs s) (abtst_reb_between_numas qs) else Inr s) (\<lambda>s.
     rbind (if level \<ge> REBALANCE_LEVEL_IN_NUMA then abtst_reb_in_numas qs s else Inr s) (\<lambda>s.
     rbind (if level \<ge> REBALANCE_LEVEL_IN_PARTITION then abtst_reb_in_partitions qs s else Inr s) (\<lambda>s.
     rbind (if abtst_get_rebalance_verbose s \<ge> 1 \<and> level > REBALANCE_LEVEL_NONE then print_stream_qdepth s else Inr []) (\<lambda>_.
     abtst_reset_streams_stat s)))))"

text \<open>
  The loop of the rebalancer thread, which runs until the system is stopping. What the other
  threads do to the state while the thread sleeps after pass \<open>n\<close> is \<open>others n\<close>; a budget
  bounds the passes the model looks at. The request queue is not read: its call is disabled.
\<close>

fun reb_func :: "nat \<Rightarrow> sort_param sorter \<Rightarrow> (nat \<Rightarrow> sys \<Rightarrow> sys) \<Rightarrow> nat \<Rightarrow> sys \<Rightarrow> sys res" where
  "reb_func fuel qs others n s =
     (if abtst_is_system_stopping s then Inr s
      else if fuel = 0 then Inl Diverge
      else rbind (reb_pass qs s) (\<lambda>s. reb_func (fuel - 1) qs others (Suc n) (others n s)))"

declare reb_func.simps [simp del]

end
