(* ===== verification/Spinlock.thy ===== *)
theory Spinlock
  imports Prelude
begin

text \<open>
  The spin lock of \<^verbatim>\<open>include/spinlock.h\<close>. One atomic access to the lock's value at a time
  is a step of a thread; the threads interleave freely. The invariant says that the value is
  set exactly while one thread is inside, from which mutual exclusion follows; and a waiting
  thread can always be let in.
\<close>

text \<open>
  Where a thread is: outside; before the \<^verbatim>\<open>atomic_flag_test_and_set\<close> of
  \<^verbatim>\<open>spin_lock\<close>; in its inner loop, which only reads; inside, up to its
  \<^verbatim>\<open>spin_unlock\<close>.
\<close>

datatype spin_pc = Outside | TestSet | SpinRead | Inside

record spin_sys =
  lock_val :: int
  spin_pcs :: "nat \<Rightarrow> spin_pc"

definition spinlock_init :: int where
  "spinlock_init = 0"

text \<open>
  One access of a thread inside \<^verbatim>\<open>spin_lock\<close>, on the lock's value. The loop
  \<^verbatim>\<open>while (test_and_set) { while (load != 0); }\<close> leaves at the test-and-set that found
  the value clear.
\<close>

fun spin_lock_step :: "int \<times> spin_pc \<Rightarrow> int \<times> spin_pc" where
  "spin_lock_step (v, TestSet) = (1, if v \<noteq> 0 then SpinRead else Inside)"
| "spin_lock_step (v, SpinRead) = (v, if v \<noteq> 0 then SpinRead else TestSet)"
| "spin_lock_step (v, pc) = (v, pc)"

definition spin_unlock_step :: "int \<times> spin_pc \<Rightarrow> int \<times> spin_pc" where
  "spin_unlock_step x = (0, Outside)"

text \<open>
  \<^verbatim>\<open>spin_lock\<close> of a thread that is alone: a lock that is held is never given back, so the
  loop does not end.
\<close>

definition spin_lock :: "int \<Rightarrow> int res" where
  "spin_lock v = (if v \<noteq> 0 then Inl Diverge else Inr 1)"

definition spin_unlock :: "int \<Rightarrow> int" where
  "spin_unlock v = 0"

definition at_thread :: "spin_sys \<Rightarrow> nat \<Rightarrow> (int \<times> spin_pc \<Rightarrow> int \<times> spin_pc) \<Rightarrow> spin_sys" where
  "at_thread w i f = (case f (lock_val w, spin_pcs w i) of (v, pc) \<Rightarrow>
     w\<lparr>lock_val := v, spin_pcs := (spin_pcs w)(i := pc)\<rparr>)"

inductive spin_step :: "spin_sys \<Rightarrow> spin_sys \<Rightarrow> bool" where
  call: "spin_pcs w i = Outside \<Longrightarrow> spin_step w (w\<lparr>spin_pcs := (spin_pcs w)(i := TestSet)\<rparr>)"
| access: "spin_pcs w i \<in> {TestSet, SpinRead} \<Longrightarrow> spin_step w (at_thread w i spin_lock_step)"
| unlock: "spin_pcs w i = Inside \<Longrightarrow> spin_step w (at_thread w i spin_unlock_step)"

inductive spin_reachable :: "spin_sys \<Rightarrow> bool" where
  start: "spin_reachable \<lparr>lock_val = spinlock_init, spin_pcs = (\<lambda>_. Outside)\<rparr>"
| step: "spin_reachable w \<Longrightarrow> spin_step w w' \<Longrightarrow> spin_reachable w'"

definition spin_inv :: "spin_sys \<Rightarrow> bool" where
  "spin_inv w \<longleftrightarrow>
     (lock_val w \<noteq> 0 \<longleftrightarrow> (\<exists>i. spin_pcs w i = Inside)) \<and>
     (\<forall>i j. spin_pcs w i = Inside \<longrightarrow> spin_pcs w j = Inside \<longrightarrow> i = j)"

inductive_cases spin_stepE: "spin_step w w'"

lemma at_thread_access:
  "spin_pcs w i = TestSet \<Longrightarrow> at_thread w i spin_lock_step =
     w\<lparr>lock_val := 1, spin_pcs := (spin_pcs w)(i := if lock_val w \<noteq> 0 then SpinRead else Inside)\<rparr>"
  "spin_pcs w i = SpinRead \<Longrightarrow> at_thread w i spin_lock_step =
     w\<lparr>spin_pcs := (spin_pcs w)(i := if lock_val w \<noteq> 0 then SpinRead else TestSet)\<rparr>"
  "at_thread w i spin_unlock_step = w\<lparr>lock_val := 0, spin_pcs := (spin_pcs w)(i := Outside)\<rparr>"
  by (simp_all add: at_thread_def spin_unlock_step_def)

text \<open>A move that neither enters nor leaves keeps the invariant.\<close>

lemma spin_inv_move:
  assumes "spin_inv w" and "spin_pcs w i \<noteq> Inside" and "pc \<noteq> Inside"
  shows "spin_inv (w\<lparr>spin_pcs := (spin_pcs w)(i := pc)\<rparr>)"
proof -
  have "((spin_pcs w)(i := pc)) j = Inside \<longleftrightarrow> spin_pcs w j = Inside" for j using assms(2,3) by auto
  then show ?thesis using assms(1) unfolding spin_inv_def by simp
qed

lemma spin_step_inv: "spin_step w w' \<Longrightarrow> spin_inv w \<Longrightarrow> spin_inv w'"
proof (induction rule: spin_step.induct)
  case (call w i)
  then show ?case by (intro spin_inv_move) auto
next
  case (access w i)
  then consider "spin_pcs w i = TestSet" | "spin_pcs w i = SpinRead" by auto
  then show ?case
  proof cases
    case 1
    show ?thesis
    proof (cases "lock_val w = 0")
      case True
      then show ?thesis unfolding at_thread_access(1) [OF 1] using access.prems by (auto simp: spin_inv_def)
    next
      case False
      then have "spin_inv (w\<lparr>lock_val := 1\<rparr>)" using access.prems by (simp add: spin_inv_def)
      from spin_inv_move [OF this, of i SpinRead] show ?thesis
        unfolding at_thread_access(1) [OF 1] using False 1 by simp
    qed
  next
    case 2
    show ?thesis
      unfolding at_thread_access(2) [OF 2] using access.prems 2 by (intro spin_inv_move) auto
  qed
next
  case (unlock w i)
  then have "\<forall>j. j \<noteq> i \<longrightarrow> spin_pcs w j \<noteq> Inside" unfolding spin_inv_def by blast
  then show ?case unfolding at_thread_access(3) spin_inv_def by simp
qed

lemma spin_reachable_inv: "spin_reachable w \<Longrightarrow> spin_inv w"
proof (induction rule: spin_reachable.induct)
  case start
  then show ?case by (simp add: spin_inv_def spinlock_init_def)
next
  case (step w w')
  then show ?case by (blast intro: spin_step_inv)
qed

lemma spin_acquire:
  assumes "lock_val w = 0" and "spin_pcs w i \<in> {TestSet, SpinRead}"
  shows "\<exists>w'. spin_step\<^sup>*\<^sup>* w w' \<and> spin_pcs w' i = Inside"
proof -
  have get: "\<exists>w'. spin_step v w' \<and> spin_pcs w' i = Inside" if "lock_val v = 0" "spin_pcs v i = TestSet" for v
    using that spin_step.access [of v i] by (intro exI [of _ "at_thread v i spin_lock_step"]) (simp add: at_thread_access)
  from assms(2) consider "spin_pcs w i = TestSet" | "spin_pcs w i = SpinRead" by auto
  then show ?thesis
  proof cases
    case 1
    then show ?thesis using get [OF assms(1)] by blast
  next
    case 2
    let ?v = "at_thread w i spin_lock_step"
    have "spin_step w ?v" using 2 by (intro spin_step.access) simp
    moreover have "lock_val ?v = 0" "spin_pcs ?v i = TestSet" using 2 assms(1) by (simp_all add: at_thread_access)
    ultimately show ?thesis using get [of ?v] by (meson rtranclp.rtrancl_into_rtrancl r_into_rtranclp)
  qed
qed

text \<open>C31: mutual exclusion. In every state that any interleaving of the threads reaches, at most one thread is between its \<^verbatim>\<open>spin_lock\<close> and its \<^verbatim>\<open>spin_unlock\<close>, and the lock's value is clear when none is.\<close>

theorem spinlock_exclusive:
  assumes "spin_reachable w" and "spin_pcs w i = Inside"
  shows "lock_val w \<noteq> 0 \<and> (\<forall>j. j \<noteq> i \<longrightarrow> spin_pcs w j \<noteq> Inside)"
  using spin_reachable_inv [OF assms(1)] assms(2) by (auto simp: spin_inv_def)

definition spin_one_in :: spin_sys where
  "spin_one_in = \<lparr>lock_val = 1, spin_pcs = (\<lambda>_. Outside)(0 := Inside, 1 := TestSet)\<rparr>"

lemma spin_one_in_reachable: "spin_reachable spin_one_in"
proof -
  let ?w0 = "\<lparr>lock_val = spinlock_init, spin_pcs = (\<lambda>_. Outside)\<rparr>"
  let ?w1 = "?w0\<lparr>spin_pcs := (spin_pcs ?w0)(0 := TestSet)\<rparr>"
  let ?w2 = "at_thread ?w1 0 spin_lock_step"
  let ?w3 = "?w2\<lparr>spin_pcs := (spin_pcs ?w2)(1 := TestSet)\<rparr>"
  have "spin_reachable ?w1" by (rule spin_reachable.step [OF start spin_step.call]) simp
  then have "spin_reachable ?w2" by (rule spin_reachable.step) (rule spin_step.access, simp)
  then have "spin_reachable ?w3"
    by (rule spin_reachable.step) (rule spin_step.call, simp add: at_thread_access spinlock_init_def)
  then show ?thesis by (simp add: at_thread_access spin_one_in_def spinlock_init_def)
qed

theorem spinlock_exclusive_witness: "lock_val spin_one_in \<noteq> 0 \<and> spin_pcs spin_one_in 1 \<noteq> Inside"
  using spinlock_exclusive [OF spin_one_in_reachable, of 0] by (simp add: spin_one_in_def)

text \<open>C32: the lock can always be had. From every reachable state and for every thread that is waiting in \<^verbatim>\<open>spin_lock\<close>, there is a continuation of the run in which it gets inside: no interleaving leads to a state where the lock is lost.\<close>

theorem spinlock_obtainable:
  assumes "spin_reachable w" and "spin_pcs w i \<in> {TestSet, SpinRead}"
  shows "\<exists>w'. spin_step\<^sup>*\<^sup>* w w' \<and> spin_pcs w' i = Inside"
proof (cases "lock_val w = 0")
  case True
  then show ?thesis using spin_acquire assms(2) by blast
next
  case False
  then obtain j where j: "spin_pcs w j = Inside"
    using spin_reachable_inv [OF assms(1)] by (auto simp: spin_inv_def)
  let ?v = "at_thread w j spin_unlock_step"
  have "i \<noteq> j" using j assms(2) by auto
  then have "\<exists>w'. spin_step\<^sup>*\<^sup>* ?v w' \<and> spin_pcs w' i = Inside"
    using assms(2) by (intro spin_acquire) (simp_all add: at_thread_access)
  moreover have "spin_step w ?v" using j by (rule spin_step.unlock)
  ultimately show ?thesis by (meson converse_rtranclp_into_rtranclp)
qed

theorem spinlock_obtainable_witness: "\<exists>w'. spin_step\<^sup>*\<^sup>* spin_one_in w' \<and> spin_pcs w' 1 = Inside"
  by (rule spinlock_obtainable [OF spin_one_in_reachable]) (simp add: spin_one_in_def)

end
