(* ===== verification/Init.thy ===== *)
theory Init
  imports Loads Rebalance Spinlock
begin

text \<open>
  Start and end of the program: \<^verbatim>\<open>abtst_init_env\<close> of \<^verbatim>\<open>src/arch/env.c\<close>, the set-up
  and tear-down of streams in \<^verbatim>\<open>src/stream/stream.c\<close>, of partitions and of the
  rebalancer, and \<^verbatim>\<open>src/app/abt_st.c\<close>, which composes them. What the program reads from
  the operating system is a record \<open>machine\<close>: the number of processors, the names in the
  directory of NUMA nodes and the first line of each node's list of processors.
\<close>

subsection \<open>The machine: env.c\<close>

record machine =
  nprocessors :: u32
  node_dir :: "string list option"
  cpulist :: "nat \<Rightarrow> string option"

definition is_space :: "char \<Rightarrow> bool" where
  "is_space c \<longleftrightarrow> c \<in> {CHR '' '', CHR 0x09, CHR 0x0A, CHR 0x0B, CHR 0x0C, CHR 0x0D}"

definition digit_val :: "char \<Rightarrow> nat" where
  "digit_val c = (let n = of_char c :: nat in
     if 48 \<le> n \<and> n \<le> 57 then n - 48
     else if 97 \<le> n \<and> n \<le> 122 then n - 87
     else if 65 \<le> n \<and> n \<le> 90 then n - 55 else 36)"

fun scan_digits :: "nat \<Rightarrow> nat \<Rightarrow> string \<Rightarrow> nat \<times> string" where
  "scan_digits b acc [] = (acc, [])"
| "scan_digits b acc (c # cs) =
     (if digit_val c < b then scan_digits b (acc * b + digit_val c) cs else (acc, c # cs))"

definition scan_sign :: "string \<Rightarrow> bool \<times> string" where
  "scan_sign s = (case s of CHR ''-'' # cs \<Rightarrow> (True, cs) | CHR ''+'' # cs \<Rightarrow> (False, cs) | _ \<Rightarrow> (False, s))"

text \<open>
  \<^verbatim>\<open>strtoul\<close> with base 0: white space, a sign, and a number in C notation, saturated at the
  largest \<^verbatim>\<open>unsigned long\<close>. The result is assigned to an \<^verbatim>\<open>int\<close>.
\<close>

definition strtoul0 :: "string \<Rightarrow> u64" where
  "strtoul0 s =
     (case scan_sign (dropWhile is_space s) of (neg, cs) \<Rightarrow>
      let v = (case cs of
          CHR ''0'' # x # d # ds \<Rightarrow>
            if x \<in> {CHR ''x'', CHR ''X''} \<and> digit_val d < 16 then fst (scan_digits 16 0 (d # ds))
            else fst (scan_digits 8 0 cs)
        | CHR ''0'' # ds \<Rightarrow> fst (scan_digits 8 0 cs)
        | _ \<Rightarrow> fst (scan_digits 10 0 cs))
      in if v < 2 ^ 64 then (if neg then - of_nat v else of_nat v) else -1)"

text \<open>The conversion \<^verbatim>\<open>%d\<close> of \<^verbatim>\<open>sscanf\<close>: the number and the rest, or no match.\<close>

definition scan_int :: "string \<Rightarrow> (u32 \<times> string) option" where
  "scan_int s =
     (case scan_sign (dropWhile is_space s) of (neg, cs) \<Rightarrow>
      if cs = [] \<or> digit_val (hd cs) \<ge> 10 then None
      else case scan_digits 10 0 cs of (v, rest) \<Rightarrow> Some (if neg then - of_nat v else of_nat v, rest))"

definition max_node :: "string \<Rightarrow> u32 \<Rightarrow> u32" where
  "max_node name mx =
     (if take 4 name \<noteq> ''node'' then mx
      else let nd = ucast (strtoul0 (drop 4 name)) in if sint mx < sint nd then nd else mx)"

definition get_numa_nodes :: "machine \<Rightarrow> u32" where
  "get_numa_nodes M = (case node_dir M of None \<Rightarrow> 1 | Some names \<Rightarrow> fold max_node names 0 + 1)"

text \<open>\<^verbatim>\<open>sscanf(buf, "%d-%d", start, end)\<close> writes the numbers it could match.\<close>

definition get_node_cpus :: "machine \<Rightarrow> nat \<Rightarrow> abtst_numa \<Rightarrow> int \<times> abtst_numa" where
  "get_node_cpus M node n =
     (case cpulist M node of None \<Rightarrow> (-1, n) | Some buf \<Rightarrow>
      (0, case scan_int buf of None \<Rightarrow> n | Some (a, rest) \<Rightarrow>
          (case rest of
             CHR ''-'' # cs \<Rightarrow> (case scan_int cs of None \<Rightarrow> n\<lparr>start_core := a\<rparr>
               | Some (b, _) \<Rightarrow> n\<lparr>start_core := a, end_core := b\<rparr>)
           | _ \<Rightarrow> n\<lparr>start_core := a\<rparr>)))"

text \<open>The single node over all cores, used when the machine's nodes cannot be read.\<close>

definition one_node :: "abtst_env \<Rightarrow> abtst_env res" where
  "one_node e =
     rbind (put (numa_info e) 0 \<lparr>start_core = 0, end_core = nr_cores e - 1\<rparr>) (\<lambda>info.
     Inr (e\<lparr>nr_numas := 1, numa_info := info\<rparr>))"

text \<open>The loop over the nodes; the flag is \<open>False\<close> on the error return.\<close>

fun read_nodes :: "machine \<Rightarrow> nat list \<Rightarrow> abtst_env \<Rightarrow> (bool \<times> abtst_env) res" where
  "read_nodes M [] e = Inr (True, e)"
| "read_nodes M (i # is) e =
     rbind (idx (numa_info e) i) (\<lambda>n.
     case get_node_cpus M i n of (ret, n) \<Rightarrow>
     rbind (put (numa_info e) i n) (\<lambda>info.
     let e = e\<lparr>numa_info := info\<rparr> in
     if ret \<noteq> 0 \<or> start_core n \<ge> nr_cores e \<or> end_core n \<ge> nr_cores e
     then rbind (one_node e) (\<lambda>e. Inr (False, e))
     else read_nodes M is e))"

definition abtst_init_env :: "machine \<Rightarrow> sys \<Rightarrow> sys res" where
  "abtst_init_env M s =
     rbind (one_node ((env s)\<lparr>nr_cores := nprocessors M\<rparr>)) (\<lambda>e.
     let e = e\<lparr>nr_numas := get_numa_nodes M\<rparr> in
     rbind (if nr_numas e > 1 then read_nodes M [0..<unat (nr_numas e)] e else Inr (True, e)) (\<lambda>(ok, e).
     Inr (s\<lparr>env := if ok then e\<lparr>stopping := False, rebalance_enabled := False\<rparr> else e\<rparr>)))"

subsection \<open>Streams: stream.c\<close>

definition zero_stream :: abtst_stream where
  "zero_stream = \<lparr>rank = 0, used = False, part_id = 0, xstream = 0, stream_pool = 0, stream_sched = 0,
     nr_loads = 0, blocking = False, stat = \<lparr>total_qdepth = 0, sleep_nsec = 0\<rparr>\<rparr>"

definition config_stream :: "int list \<Rightarrow> nat \<Rightarrow> sys \<times> u32 \<Rightarrow> (sys \<times> u32) res" where
  "config_stream pmap i acc =
     rbind (idx pmap i) (\<lambda>p.
     if p \<ge> 0
     then rbind (upd_stream (fst acc) i (\<lambda>st. st\<lparr>used := True, part_id := p\<rparr>)) (\<lambda>s. Inr (s, snd acc + 1))
     else Inr acc)"

definition apply_stream_config :: "sys \<Rightarrow> int list \<Rightarrow> (int \<times> sys) res" where
  "apply_stream_config s pmap =
     rbind (for_each (config_stream pmap) [0..<unat (nr_cores (env s))] (s, 0)) (\<lambda>(s, cnt).
     Inr (0, s\<lparr>streams := (streams s)\<lparr>init_xstreams := cnt, nr_xstreams := cnt\<rparr>\<rparr>))"

definition init_xstream :: "'r argobots \<Rightarrow> nat \<Rightarrow> u32 \<Rightarrow> sys \<Rightarrow> 'r \<Rightarrow> (int \<times> sys \<times> 'r) res" where
  "init_xstream A k rk s r =
     rbind (upd_stream s k (\<lambda>st. abtst_stream_init_stat (st\<lparr>rank := rk, nr_loads := 0\<rparr>))) (\<lambda>s.
     let s = set_links s (INIT_LIST_HEAD (links s) (LoadQ k)) in
     if rk = 0 then
       (case ABT_xstream_self A r of (ret, x, r) \<Rightarrow>
        rbind (upd_stream s k (\<lambda>st. st\<lparr>xstream := x\<rparr>)) (\<lambda>s.
        if ret \<noteq> 0 then Inr (-1, s, r)
        else case ABT_xstream_get_main_pools A x r of (ret, p, r) \<Rightarrow>
          rbind (upd_stream s k (\<lambda>st. st\<lparr>stream_pool := p\<rparr>)) (\<lambda>s.
          Inr (if ret \<noteq> 0 then -1 else 0, s, r))))
     else rbind (get_stream s k) (\<lambda>st.
       if \<not> used st then Inr (0, s, r)
       else case ABT_pool_create_basic A r of (ret, p, r) \<Rightarrow>
         rbind (upd_stream s k (\<lambda>st. st\<lparr>stream_pool := p\<rparr>)) (\<lambda>s.
         if ret \<noteq> 0 then Inr (-1, s, r)
         else case abtst_init_sched A (stream_sched st) p k r of (ret, d, r) \<Rightarrow>
           rbind (upd_stream s k (\<lambda>st. st\<lparr>stream_sched := d\<rparr>)) (\<lambda>s.
           if ret \<noteq> 0 then Inr (-1, s, r)
           else case ABT_xstream_create_with_rank A d rk r of (ret, x, r) \<Rightarrow>
             rbind (upd_stream s k (\<lambda>st. st\<lparr>xstream := x\<rparr>)) (\<lambda>s.
             Inr (if ret \<noteq> 0 then -1 else 0, s, r))))))"

fun init_xstreams_loop :: "'r argobots \<Rightarrow> nat list \<Rightarrow> sys \<Rightarrow> 'r \<Rightarrow> (int \<times> sys \<times> 'r) res" where
  "init_xstreams_loop A [] s r = Inr (0, s, r)"
| "init_xstreams_loop A (i # is) s r =
     rbind (init_xstream A i (of_nat i) s r) (\<lambda>(ret, s, r).
     if ret \<noteq> 0 then Inr (-1, s, r) else init_xstreams_loop A is s r)"

definition set_streams :: "sys \<Rightarrow> abtst_stream list \<Rightarrow> sys" where
  "set_streams s xs = s\<lparr>streams := (streams s)\<lparr>stream_array := xs\<rparr>\<rparr>"

text \<open>The error exit frees the array; later accesses are invalid.\<close>

definition abtst_init_streams :: "'r argobots \<Rightarrow> sys \<Rightarrow> 'r \<Rightarrow> (int \<times> sys \<times> 'r) res" where
  "abtst_init_streams A s r =
     (case alloc (s\<lparr>streams := (streams s)\<lparr>max_xstreams := nr_cores (env s), init_xstreams := 1, nr_xstreams := 1\<rparr>\<rparr>) of (ok, s) \<Rightarrow>
      if \<not> ok then Inr (-1, set_streams s [], r)
      else
        rbind (apply_stream_config (set_streams s (replicate (unat (max_xstreams (streams s))) zero_stream))
          (get_partition_map (partitions s))) (\<lambda>(ret, s).
        if ret \<noteq> 0 then Inr (-1, set_streams s [], r)
        else rbind (init_xstreams_loop A [0..<unat (max_xstreams (streams s))] s r) (\<lambda>(ret, s, r).
          if ret \<noteq> 0 then Inr (-1, set_streams s [], r) else Inr (0, s, r))))"

definition abtst_finalize_streams :: "'r argobots \<Rightarrow> sys \<Rightarrow> 'r \<Rightarrow> (int \<times> sys \<times> 'r) res" where
  "abtst_finalize_streams A s r =
     (if stream_array (streams s) = [] then Inr (0, s, r)
      else
        rbind (for_each (\<lambda>i (ret, r). rbind (get_stream s i) (\<lambda>st.
            Inr (if xstream st \<noteq> 0 then ABT_xstream_join A (xstream st) r else (ret, r))))
          [1..<unat (max_xstreams (streams s))] (0, r)) (\<lambda>(ret, r).
        for_each (\<lambda>i (ret, s, r). rbind (get_stream s i) (\<lambda>st.
            if xstream st = 0 then Inr (ret, s, r)
            else case ABT_xstream_free A (xstream st) r of (ret, x, r) \<Rightarrow>
              case abtst_free_sched A (stream_sched st) r of (d, r) \<Rightarrow>
              rbind (upd_stream s i (\<lambda>st. st\<lparr>xstream := x, stream_sched := d\<rparr>)) (\<lambda>s. Inr (ret, s, r))))
          [1..<unat (max_xstreams (streams s))] (ret, s, r)))"

definition abtst_free_streams :: "sys \<Rightarrow> sys" where
  "abtst_free_streams s = (if stream_array (streams s) = [] then s else set_streams s [])"

subsection \<open>Partitions, rebalancer and the whole: partition.c, rebalance.c, abt_st.c\<close>

definition free_partition_map :: "sys \<Rightarrow> sys" where
  "free_partition_map s = s\<lparr>partitions := (partitions s)\<lparr>partition_map := []\<rparr>\<rparr>"

definition abtst_free_partitions :: "sys \<Rightarrow> sys" where
  "abtst_free_partitions s = free_partition_map s"

definition REBALANCE_DEFAULT_INTERVAL :: int where "REBALANCE_DEFAULT_INTERVAL = 1"

text \<open>\<open>thr\<close> is the result of \<^verbatim>\<open>pthread_create\<close>, which starts the loop of passes.\<close>

definition abtst_init_rebalance :: "int \<Rightarrow> sys \<Rightarrow> int \<times> sys" where
  "abtst_init_rebalance thr s =
     (let s = (set_links s (INIT_LIST_HEAD (links s) ReqQ))\<lparr>rebalance :=
        (rebalance s)\<lparr>rebalance_level := REBALANCE_LEVEL_IN_PARTITION, rebalance_interval := REBALANCE_DEFAULT_INTERVAL,
          reb_lock := spinlock_init, verbose := 0\<rparr>\<rparr>
      in (if thr \<noteq> 0 then -1 else 0, s))"

record create_params =
  cp_nr_partitions :: int
  cp_init_partitions :: "abtst_partition list"

definition default_params :: create_params where
  "default_params = \<lparr>cp_nr_partitions = 2, cp_init_partitions =
     [\<lparr>partition_id = 0, part_nr_cores = 8, partition_cores = [2, 3, 4, 5, 6, 7, 8, 9]\<rparr>,
      \<lparr>partition_id = 1, part_nr_cores = 8, partition_cores = [10, 11, 12, 13, 14, 15, 16, 17]\<rparr>]\<rparr>"

text \<open>\<^verbatim>\<open>abtst_init\<close> ignores the results of the steps it calls.\<close>

definition abtst_init :: "'r argobots \<Rightarrow> machine \<Rightarrow> int \<Rightarrow> create_params option \<Rightarrow> sys \<Rightarrow> 'r \<Rightarrow> (int \<times> sys \<times> 'r) res" where
  "abtst_init A M thr cp s r =
     (let params = (case cp of None \<Rightarrow> default_params | Some p \<Rightarrow> p) in
      rbind (abtst_init_env M s) (\<lambda>s.
      rbind (abtst_init_power s) (\<lambda>s.
      rbind (abtst_init_partitions s (cp_nr_partitions params) (cp_init_partitions params)) (\<lambda>(_, s).
      rbind (abtst_init_streams A s r) (\<lambda>(_, s, r).
      case abtst_init_rebalance thr s of (_, s) \<Rightarrow> Inr (0, s, r))))))"

text \<open>
  \<^verbatim>\<open>abtst_finalize\<close>, after the rebalancer thread has been joined, and \<^verbatim>\<open>abtst_free\<close>.
\<close>

definition abtst_finalize :: "'r argobots \<Rightarrow> sys \<Rightarrow> 'r \<Rightarrow> (int \<times> sys \<times> 'r) res" where
  "abtst_finalize A s r =
     rbind (abtst_finalize_streams A s r) (\<lambda>(ret, s, r).
     rbind (abtst_free_mappings A (s, r)) (\<lambda>(s, r).
     Inr (ret, s, r)))"

definition abtst_free :: "sys \<Rightarrow> sys" where
  "abtst_free s = abtst_free_partitions (abtst_free_streams s)"

end
