(* ===== verification/Setup_Env.thy ===== *)
theory Setup_Env
  imports Init
begin

text \<open>
  What \<^verbatim>\<open>abtst_init_env\<close> and \<^verbatim>\<open>abtst_init_partitions\<close> establish: a topology whose
  nodes lie within the cores, and a map that assigns to every core the one partition that
  names it.
\<close>

text \<open>The program's state before its start: the zero-initialised globals.\<close>

definition sys0 :: sys where
  "sys0 = \<lparr>env = \<lparr>nr_cores = 0, nr_numas = 0, numa_info = replicate MAX_NUMAS \<lparr>start_core = 0, end_core = 0\<rparr>,
       numa_stat = replicate MAX_NUMAS \<lparr>numa_used_cores = 0, avg_qdepth = 0\<rparr>, rebalance_enabled = False, stopping = False\<rparr>,
     power = \<lparr>ps_state = replicate MAX_NUMAS False, ps_pct = replicate MAX_NUMAS 0, ps_enabled = False, nr_ps_numas = 0\<rparr>,
     streams = \<lparr>nr_xstreams = 0, init_xstreams = 0, max_xstreams = 0, stream_array = []\<rparr>,
     mappings = \<lparr>nr_mappings = 0, mapping_array = replicate MAX_MAPPINGS \<lparr>mapping_id = 0, mapping_partition_id = 0,
       mapping_kind = 0, param = None, mapping_ops = None,
       mapping_loads = \<lparr>loads_partition_id = 0, loads_nr = 0, load_array = []\<rparr>\<rparr>\<rparr>,
     rebalance = \<lparr>rebalance_level = 0, rebalance_interval = 0, reb_lock = 0, verbose = 0\<rparr>,
     partitions = \<lparr>nr_partitions = 0, partition_array = [], partition_map = [],
       numa_stats = replicate MAX_PARTITIONS (replicate MAX_NUMAS zero_stat), part_stats = replicate MAX_PARTITIONS zero_stat\<rparr>,
     links = (\<lambda>_. None), requests = (\<lambda>_. None), allocs = []\<rparr>"

subsection \<open>Reading the topology\<close>

definition nodes_in_range :: "abtst_env \<Rightarrow> nat \<Rightarrow> bool" where
  "nodes_in_range e n \<longleftrightarrow> (\<forall>i < n. start_core (numa_info e ! i) < nr_cores e \<and> end_core (numa_info e ! i) < nr_cores e)"

lemma one_node_range:
  assumes "nr_cores e \<noteq> 0" "numa_info e \<noteq> []"
  shows "\<exists>e'. one_node e = Inr e' \<and> nr_numas e' = 1 \<and> nr_cores e' = nr_cores e \<and>
    length (numa_info e') = length (numa_info e) \<and> numa_stat e' = numa_stat e \<and> nodes_in_range e' 1 \<and>
    numa_info e' ! 0 = \<lparr>start_core = 0, end_core = nr_cores e - 1\<rparr>"
  using assms measure_unat [of "nr_cores e"] by (simp add: one_node_def nodes_in_range_def word_neq_0_conv [symmetric] word_less_nat_alt)

lemma read_nodes_range:
  assumes "nr_cores e \<noteq> 0" "set is \<subseteq> {..<length (numa_info e)}" "numa_info e \<noteq> []"
  shows "\<exists>ok e'. read_nodes M is e = Inr (ok, e') \<and> nr_cores e' = nr_cores e \<and> numa_stat e' = numa_stat e \<and>
    length (numa_info e') = length (numa_info e) \<and>
    (if ok then nr_numas e' = nr_numas e \<and> (\<forall>i. i \<in> set is \<or> start_core (numa_info e ! i) < nr_cores e \<and> end_core (numa_info e ! i) < nr_cores e
        \<longrightarrow> start_core (numa_info e' ! i) < nr_cores e' \<and> end_core (numa_info e' ! i) < nr_cores e')
     else nr_numas e' = 1 \<and> nodes_in_range e' 1 \<and> numa_info e' ! 0 = \<lparr>start_core = 0, end_core = nr_cores e - 1\<rparr>)"
  using assms
proof (induction "is" arbitrary: e)
  case (Cons i js)
  obtain ret n where g: "get_node_cpus M i (numa_info e ! i) = (ret, n)" by (cases "get_node_cpus M i (numa_info e ! i)")
  let ?e = "e\<lparr>numa_info := (numa_info e)[i := n]\<rparr>"
  have i: "i < length (numa_info e)" using Cons.prems(2) by simp
  show ?case
  proof (cases "ret \<noteq> 0 \<or> start_core n \<ge> nr_cores e \<or> end_core n \<ge> nr_cores e")
    case True
    obtain e' where "one_node ?e = Inr e'" "nr_numas e' = 1" "nr_cores e' = nr_cores e" "numa_stat e' = numa_stat e"
      "length (numa_info e') = length (numa_info e)" "nodes_in_range e' 1"
      "numa_info e' ! 0 = \<lparr>start_core = 0, end_core = nr_cores e - 1\<rparr>"
      using one_node_range [of ?e] Cons.prems by auto
    then show ?thesis using True g i by (auto simp: Let_def)
  next
    case False
    obtain ok e' where e': "read_nodes M js ?e = Inr (ok, e')" "nr_cores e' = nr_cores ?e" "numa_stat e' = numa_stat ?e"
      "length (numa_info e') = length (numa_info ?e)"
      "if ok then nr_numas e' = nr_numas ?e \<and> (\<forall>i. i \<in> set js \<or> start_core (numa_info ?e ! i) < nr_cores ?e \<and> end_core (numa_info ?e ! i) < nr_cores ?e
        \<longrightarrow> start_core (numa_info e' ! i) < nr_cores e' \<and> end_core (numa_info e' ! i) < nr_cores e')
      else nr_numas e' = 1 \<and> nodes_in_range e' 1 \<and> numa_info e' ! 0 = \<lparr>start_core = 0, end_core = nr_cores ?e - 1\<rparr>"
      using Cons.IH [of ?e] Cons.prems by auto
    have "read_nodes M (i # js) e = Inr (ok, e')" using False g i e'(1) by (simp add: Let_def)
    then show ?thesis using False i e' by (auto simp: nth_list_update linorder_not_le split: if_splits)
  qed
qed auto

lemma max_node_mono: "sint mx \<le> sint (fold max_node names mx)"
proof (induction names arbitrary: mx)
  case (Cons a names)
  have "sint mx \<le> sint (max_node a mx)" by (simp add: max_node_def Let_def)
  with Cons [of "max_node a mx"] show ?case by simp
qed simp

lemma get_numa_nodes_pos: "get_numa_nodes M \<noteq> 0"
proof (cases "node_dir M")
  case (Some names)
  have "fold max_node names 0 + 1 \<noteq> 0"
  proof
    assume "fold max_node names 0 + 1 = 0"
    then have "fold max_node names 0 = -1" by (simp add: eq_neg_iff_add_eq_0)
    with max_node_mono [of 0 names] show False by simp
  qed
  with Some show ?thesis by (simp add: get_numa_nodes_def)
qed (simp add: get_numa_nodes_def)

text \<open>
  C36: \<^verbatim>\<open>abtst_init_env\<close> on a machine with at least one processor and at most
  \<^verbatim>\<open>MAX_NUMAS\<close> nodes ends without a fault, with at least one node and every node within
  the cores, whatever the files of the system hold; when a file cannot be read or names cores
  that do not exist, there is one node with all cores.
\<close>

theorem init_env_in_range:
  assumes "nprocessors M \<noteq> 0" and "unat (get_numa_nodes M) \<le> MAX_NUMAS" and "length (numa_info (env s)) = MAX_NUMAS"
  shows "\<exists>e. abtst_init_env M s = Inr (s\<lparr>env := e\<rparr>) \<and> nr_cores e = nprocessors M \<and> nr_numas e \<noteq> 0 \<and>
    numa_stat e = numa_stat (env s) \<and> length (numa_info e) = MAX_NUMAS \<and> nodes_in_range e (unat (nr_numas e)) \<and>
    (nr_numas e = get_numa_nodes M \<or> nr_numas e = 1 \<and> numa_info e ! 0 = \<lparr>start_core = 0, end_core = nr_cores e - 1\<rparr>)"
proof -
  let ?e0 = "(env s)\<lparr>nr_cores := nprocessors M\<rparr>" and ?n = "get_numa_nodes M"
  have ne: "numa_info (env s) \<noteq> []" using assms(3) by (auto simp: MAX_NUMAS_def)
  obtain e1 where e1: "one_node ?e0 = Inr e1" "nr_numas e1 = 1" "nr_cores e1 = nprocessors M" "numa_stat e1 = numa_stat (env s)"
    "length (numa_info e1) = MAX_NUMAS" "nodes_in_range e1 1"
    using one_node_range [of ?e0] ne assms(1,3) by auto
  show ?thesis
  proof (cases "1 < ?n")
    case False
    then have "\<not> 1 < unat ?n" by (simp add: word_less_nat_alt)
    moreover have "unat ?n \<noteq> 0" using get_numa_nodes_pos [of M] by (simp add: unat_eq_zero)
    ultimately have "unat ?n = unat (1 :: u32)" by simp
    then have "?n = 1" by (simp only: word_unat_eq_iff)
    then show ?thesis using e1
      by (intro exI [of _ "e1\<lparr>nr_numas := 1, stopping := False, rebalance_enabled := False\<rparr>"])
        (simp add: abtst_init_env_def Let_def nodes_in_range_def)
  next
    case True
    let ?e = "e1\<lparr>nr_numas := ?n\<rparr>"
    have "nr_cores ?e \<noteq> 0" "set [0..<unat ?n] \<subseteq> {..<length (numa_info ?e)}" "numa_info ?e \<noteq> []"
      using assms e1(3,5) by (auto simp: MAX_NUMAS_def)
    from read_nodes_range [OF this, of M] obtain ok e' where r: "read_nodes M [0..<unat ?n] ?e = Inr (ok, e')"
      "nr_cores e' = nr_cores ?e" "numa_stat e' = numa_stat ?e" "length (numa_info e') = length (numa_info ?e)"
      and range: "if ok then nr_numas e' = nr_numas ?e \<and> (\<forall>i. i \<in> set [0..<unat ?n] \<or>
          start_core (numa_info ?e ! i) < nr_cores ?e \<and> end_core (numa_info ?e ! i) < nr_cores ?e
          \<longrightarrow> start_core (numa_info e' ! i) < nr_cores e' \<and> end_core (numa_info e' ! i) < nr_cores e')
        else nr_numas e' = 1 \<and> nodes_in_range e' 1 \<and> numa_info e' ! 0 = \<lparr>start_core = 0, end_core = nr_cores ?e - 1\<rparr>"
      by blast
    have "if ok then nr_numas e' = ?n \<and> nodes_in_range e' (unat ?n)
        else nr_numas e' = 1 \<and> nodes_in_range e' 1 \<and> numa_info e' ! 0 = \<lparr>start_core = 0, end_core = nprocessors M - 1\<rparr>"
      using range e1(3) by (cases ok) (simp add: nodes_in_range_def, simp)
    with r show ?thesis
      using True e1 get_numa_nodes_pos [of M]
      by (intro exI [of _ "if ok then e'\<lparr>stopping := False, rebalance_enabled := False\<rparr> else e'"])
        (auto simp: abtst_init_env_def Let_def nodes_in_range_def)
  qed
qed

text \<open>Sixteen processors in two nodes.\<close>

definition two_nodes :: machine where
  "two_nodes = \<lparr>nprocessors = 16, node_dir = Some [''.'', ''node0'', ''possible'', ''node1''],
     cpulist = (\<lambda>i. if i = 0 then Some ''0-7'' else if i = 1 then Some ''8-15'' else None)\<rparr>"

lemmas scan_simps = strtoul0_def scan_int_def scan_sign_def is_space_def digit_val_def Let_def

lemma node_numbers: "strtoul0 ''0'' = 0" "strtoul0 ''1'' = 1" "strtoul0 ''8'' = 8"
  by (simp_all add: scan_simps)

lemma two_nodes_eval: "get_numa_nodes two_nodes = 2"
  by (simp add: get_numa_nodes_def two_nodes_def max_node_def Let_def node_numbers)

theorem init_env_in_range_witness:
  "\<exists>e. abtst_init_env two_nodes sys0 = Inr (sys0\<lparr>env := e\<rparr>) \<and> nr_cores e = nprocessors two_nodes \<and> nr_numas e \<noteq> 0 \<and>
    numa_stat e = numa_stat (env sys0) \<and> length (numa_info e) = MAX_NUMAS \<and> nodes_in_range e (unat (nr_numas e)) \<and>
    (nr_numas e = get_numa_nodes two_nodes \<or>
     nr_numas e = 1 \<and> numa_info e ! 0 = \<lparr>start_core = 0, end_core = nr_cores e - 1\<rparr>)"
  by (rule init_env_in_range) (simp_all add: two_nodes_eval, simp_all add: two_nodes_def sys0_def MAX_NUMAS_def)

subsection \<open>More nodes than the table holds\<close>

definition node_readable :: "machine \<Rightarrow> nat \<Rightarrow> bool" where
  "node_readable M i \<longleftrightarrow> (\<forall>n. fst (get_node_cpus M i n) = 0 \<and>
     start_core (snd (get_node_cpus M i n)) < nprocessors M \<and> end_core (snd (get_node_cpus M i n)) < nprocessors M)"

lemma read_nodes_readable:
  assumes "\<forall>i \<in> set is. i < length (numa_info e) \<and> node_readable M i" "nr_cores e = nprocessors M"
  shows "\<exists>e'. read_nodes M (is @ js) e = read_nodes M js e' \<and> length (numa_info e') = length (numa_info e) \<and>
    nr_cores e' = nprocessors M"
  using assms
proof (induction "is" arbitrary: e)
  case (Cons i js')
  obtain ret n where g: "get_node_cpus M i (numa_info e ! i) = (ret, n)" by (cases "get_node_cpus M i (numa_info e ! i)")
  let ?e = "e\<lparr>numa_info := (numa_info e)[i := n]\<rparr>"
  have "node_readable M i" and i: "i < length (numa_info e)" using Cons.prems by auto
  then have "ret = 0" "start_core n < nprocessors M" "end_core n < nprocessors M"
    unfolding node_readable_def using g by (metis fst_conv snd_conv)+
  then have "ret = 0" "\<not> nprocessors M \<le> start_core n" "\<not> nprocessors M \<le> end_core n"
    by (simp_all only: linorder_not_le)
  then have "read_nodes M ((i # js') @ js) e = read_nodes M (js' @ js) ?e"
    using g i Cons.prems(2) by (simp add: Let_def)
  moreover have "\<exists>e'. read_nodes M (js' @ js) ?e = read_nodes M js e' \<and> length (numa_info e') = length (numa_info ?e) \<and>
      nr_cores e' = nprocessors M"
    using Cons.prems by (intro Cons.IH) auto
  ultimately show ?case by simp
qed auto

text \<open>
  C37: The number of nodes is not compared with \<^verbatim>\<open>MAX_NUMAS\<close>: on a machine with more
  nodes, whose lists of processors can be read, \<^verbatim>\<open>abtst_init_env\<close> writes behind the end
  of \<^verbatim>\<open>numa_info\<close>.
\<close>

theorem init_env_too_many_nodes:
  assumes "length (numa_info (env s)) = MAX_NUMAS" and "MAX_NUMAS < unat (get_numa_nodes M)"
    and "\<forall>i < MAX_NUMAS. node_readable M i"
  shows "abtst_init_env M s = Inl OutOfBounds"
proof -
  let ?n = "unat (get_numa_nodes M)"
  have "numa_info (env s) \<noteq> []" using assms(1) by (auto simp: MAX_NUMAS_def)
  then obtain e1 where e1: "one_node ((env s)\<lparr>nr_cores := nprocessors M\<rparr>) = Inr e1" "nr_cores e1 = nprocessors M"
    "length (numa_info e1) = MAX_NUMAS"
    using assms(1) by (simp add: one_node_def put_def MAX_NUMAS_def)
  have split: "[0..<?n] = [0..<MAX_NUMAS] @ MAX_NUMAS # [Suc MAX_NUMAS..<?n]"
    using assms(2) upt_add_eq_append [of 0 MAX_NUMAS "?n - MAX_NUMAS"] by (simp add: upt_conv_Cons)
  obtain e' where e': "read_nodes M [0..<?n] (e1\<lparr>nr_numas := get_numa_nodes M\<rparr>) = read_nodes M (MAX_NUMAS # [Suc MAX_NUMAS..<?n]) e'"
    "length (numa_info e') = MAX_NUMAS"
    using read_nodes_readable [of "[0..<MAX_NUMAS]" "e1\<lparr>nr_numas := get_numa_nodes M\<rparr>" M "MAX_NUMAS # [Suc MAX_NUMAS..<?n]"]
      assms(3) e1 unfolding split by auto
  have "1 < get_numa_nodes M" using assms(2) by (simp add: word_less_nat_alt MAX_NUMAS_def)
  then show ?thesis using e1(1) e' by (simp add: abtst_init_env_def Let_def idx_def)
qed

definition nine_nodes :: machine where
  "nine_nodes = \<lparr>nprocessors = 16, node_dir = Some [''node8''], cpulist = (\<lambda>i. Some ''0-7'')\<rparr>"

theorem init_env_too_many_nodes_witness: "abtst_init_env nine_nodes sys0 = Inl OutOfBounds"
proof (rule init_env_too_many_nodes)
  have "get_numa_nodes nine_nodes = 9"
    by (simp add: get_numa_nodes_def nine_nodes_def max_node_def Let_def node_numbers)
  then show "MAX_NUMAS < unat (get_numa_nodes nine_nodes)" by (simp add: MAX_NUMAS_def)
  have "scan_int ''0-7'' = Some (0, ''-7'')" "scan_int ''7'' = Some (7, [])" by (simp_all add: scan_simps)
  then have "get_node_cpus nine_nodes i n = (0, n\<lparr>start_core := 0, end_core := 7\<rparr>)" for i n
    by (simp add: get_node_cpus_def nine_nodes_def)
  then show "\<forall>i < MAX_NUMAS. node_readable nine_nodes i" by (simp add: node_readable_def) (simp add: nine_nodes_def)
qed (simp add: sys0_def MAX_NUMAS_def)

subsection \<open>The map of the partitions\<close>

text \<open>
  The configuration as a list of pairs of a partition and a core, and the writes that the two
  loops of \<^verbatim>\<open>abtst_init_partitions\<close> make for it.
\<close>

definition config_pairs :: "int \<Rightarrow> abtst_partition list \<Rightarrow> (int \<times> int) list" where
  "config_pairs num ps = concat (map (\<lambda>j. map (Pair (partition_id (ps ! j)))
     (take (nat (part_nr_cores (ps ! j))) (partition_cores (ps ! j)))) [0..<nat num])"

fun assign :: "(int \<times> int) list \<Rightarrow> int list \<Rightarrow> bool \<times> int list" where
  "assign [] m = (True, m)"
| "assign ((p, c) # xs) m = (if m ! nat c \<ge> 0 then (False, m) else assign xs (m[nat c := p]))"

text \<open>A configuration whose lists are as long as they say and whose cores exist.\<close>

definition config_ok :: "nat \<Rightarrow> int \<Rightarrow> abtst_partition list \<Rightarrow> bool" where
  "config_ok n num ps \<longleftrightarrow> nat num \<le> length ps \<and> (\<forall>j < nat num. 0 \<le> partition_id (ps ! j) \<and>
     nat (part_nr_cores (ps ! j)) \<le> length (partition_cores (ps ! j)) \<and>
     (\<forall>c \<in> set (partition_cores (ps ! j)). 0 \<le> c \<and> nat c < n))"

lemma length_assign [simp]: "length (snd (assign xs m)) = length m"
  by (induction xs m rule: assign.induct) auto

lemma assign_append: "assign (xs @ ys) m = (case assign xs m of (ok, m) \<Rightarrow> if ok then assign ys m else (False, m))"
  by (induction xs m rule: assign.induct) auto

lemma map_cores_assign:
  assumes "set is \<subseteq> {..<length cores}" "\<forall>c \<in> set cores. 0 \<le> c \<and> nat c < length m"
  shows "map_cores pid cores is m = Inr (assign (map (\<lambda>i. (pid, cores ! i)) is) m)"
  using assms by (induction "is" arbitrary: m) (auto simp: Let_def)

lemma map_partitions_assign:
  assumes "set js \<subseteq> {..<length ps}" "\<forall>j \<in> set js. nat (part_nr_cores (ps ! j)) \<le> length (partition_cores (ps ! j)) \<and>
      (\<forall>c \<in> set (partition_cores (ps ! j)). 0 \<le> c \<and> nat c < length m)"
  shows "map_partitions ps js m = Inr (assign (concat (map (\<lambda>j. map (Pair (partition_id (ps ! j)))
     (take (nat (part_nr_cores (ps ! j))) (partition_cores (ps ! j)))) js)) m)"
  using assms
proof (induction js arbitrary: m)
  case (Cons j js)
  let ?p = "ps ! j"
  have eq: "map (\<lambda>i. (partition_id ?p, partition_cores ?p ! i)) [0..<nat (part_nr_cores ?p)] =
      map (Pair (partition_id ?p)) (take (nat (part_nr_cores ?p)) (partition_cores ?p))"
    using Cons.prems by (intro nth_equalityI) auto
  let ?xs = "map (Pair (partition_id ?p)) (take (nat (part_nr_cores ?p)) (partition_cores ?p))"
  obtain ok m' where m': "assign ?xs m = (ok, m')" by (cases "assign ?xs m")
  then have len: "length m' = length m" using length_assign [of ?xs m] by simp
  have "map_cores (partition_id ?p) (partition_cores ?p) [0..<nat (part_nr_cores ?p)] m = Inr (ok, m')"
    using map_cores_assign [of "[0..<nat (part_nr_cores ?p)]" "partition_cores ?p" m "partition_id ?p"] Cons.prems
    by (simp add: eq m' subset_eq)
  moreover have "map_partitions ps js m' = Inr (assign (concat (map (\<lambda>j. map (Pair (partition_id (ps ! j)))
     (take (nat (part_nr_cores (ps ! j))) (partition_cores (ps ! j)))) js)) m')"
    using Cons.prems len by (intro Cons.IH) auto
  ultimately show ?case using Cons.prems(1) m' by (simp add: assign_append)
qed simp

lemma assign_success:
  assumes "\<forall>x \<in> set xs. 0 \<le> fst x \<and> 0 \<le> snd x \<and> nat (snd x) < length m"
  shows "fst (assign xs m) \<longleftrightarrow> distinct (map snd xs) \<and> (\<forall>c \<in> set (map snd xs). m ! nat c < 0)"
  using assms by (induction xs m rule: assign.induct) (auto simp: nth_list_update nat_eq_iff split: if_splits)

lemma assign_other:
  assumes "\<forall>x \<in> set xs. 0 \<le> snd x" "int k \<notin> snd ` set xs"
  shows "snd (assign xs m) ! k = m ! k"
  using assms by (induction xs m rule: assign.induct) auto

lemma assign_written:
  assumes "\<forall>x \<in> set xs. 0 \<le> fst x \<and> 0 \<le> snd x \<and> nat (snd x) < length m" "fst (assign xs m)" "(p, c) \<in> set xs"
  shows "snd (assign xs m) ! nat c = p"
  using assms
proof (induction xs m rule: assign.induct)
  case (2 q d xs m)
  have neg: "\<not> m ! nat d \<ge> 0" using "2.prems"(2) by (simp split: if_splits)
  then have ok: "fst (assign xs (m[nat d := q]))" using "2.prems"(2) by simp
  show ?case
  proof (cases "(p, c) = (q, d)")
    case True
    have "d \<notin> snd ` set xs"
      using assign_success [of xs "m[nat d := q]"] "2.prems"(1) ok by (fastforce simp: nth_list_update)
    then have "snd (assign xs (m[nat d := q])) ! nat d = m[nat d := q] ! nat d"
      using "2.prems"(1) by (intro assign_other) auto
    then show ?thesis using True neg "2.prems"(1) by simp
  next
    case False
    then show ?thesis using "2.IH" [OF neg] "2.prems" ok neg by auto
  qed
qed simp

lemma init_partitions_result:
  assumes "config_ok (unat (nr_cores (env s))) num ps" and "alloc s = (True, s1)"
  shows "\<exists>ret m. abtst_init_partitions s num ps = Inr (ret, s1\<lparr>partitions := (partitions s)\<lparr>nr_partitions := num,
      partition_array := ps, partition_map := m\<rparr>\<rparr>) \<and> length m = unat (nr_cores (env s)) \<and>
    (ret = 0 \<longleftrightarrow> distinct (map snd (config_pairs num ps))) \<and>
    (ret = 0 \<longrightarrow> (\<forall>(p, c) \<in> set (config_pairs num ps). m ! nat c = p) \<and>
       (\<forall>k < length m. int k \<notin> snd ` set (config_pairs num ps) \<longrightarrow> m ! k = -1))"
proof -
  let ?xs = "config_pairs num ps" and ?m = "replicate (unat (nr_cores (env s))) (-1 :: int)"
  obtain ok m where m: "assign ?xs ?m = (ok, m)" by (cases "assign ?xs ?m")
  have xs: "\<forall>x \<in> set ?xs. 0 \<le> fst x \<and> 0 \<le> snd x \<and> nat (snd x) < length ?m"
    using assms(1) by (auto simp: config_pairs_def config_ok_def dest!: in_set_takeD)
  have "map_partitions ps [0..<nat num] ?m = Inr (ok, m)"
    using map_partitions_assign [of "[0..<nat num]" ps ?m] assms(1) m by (simp add: config_ok_def config_pairs_def subset_eq)
  moreover have "alloc (s\<lparr>partitions := p\<rparr>) = (True, s1\<lparr>partitions := p\<rparr>)" for p
    using assms(2) by (auto simp: alloc_def split: list.splits)
  ultimately have "abtst_init_partitions s num ps = Inr (if ok then 0 else -1, s1\<lparr>partitions := (partitions s)\<lparr>nr_partitions := num,
      partition_array := ps, partition_map := m\<rparr>\<rparr>)"
    using alloc_frame(1) [OF assms(2)] by (simp add: abtst_init_partitions_def init_partition_map_def)
  moreover have "length m = unat (nr_cores (env s))" using length_assign [of ?xs ?m] m by simp
  moreover have "ok \<longleftrightarrow> distinct (map snd ?xs)" using assign_success [OF xs] xs m by auto
  moreover have "ok \<Longrightarrow> (p, c) \<in> set ?xs \<Longrightarrow> m ! nat c = p" for p c
    using assign_written [OF xs] m by simp
  moreover have "int k \<notin> snd ` set ?xs \<Longrightarrow> k < length m \<Longrightarrow> m ! k = -1" for k
    using assign_other [of ?xs k ?m] xs m length_assign [of ?xs ?m] by simp
  ultimately show ?thesis by (intro exI [of _ "if ok then 0 else -1"] exI [of _ m]) auto
qed

lemma init_partitions_facts:
  assumes "config_ok (unat (nr_cores (env s))) num ps" and "alloc s = (True, s1)" and "distinct (map snd (config_pairs num ps))"
  shows "\<exists>m. abtst_init_partitions s num ps = Inr (0, s1\<lparr>partitions := (partitions s)\<lparr>nr_partitions := num,
      partition_array := ps, partition_map := m\<rparr>\<rparr>) \<and> length m = unat (nr_cores (env s)) \<and>
    (\<forall>(p, c) \<in> set (config_pairs num ps). m ! nat c = p) \<and>
    (\<forall>k < length m. int k \<notin> snd ` set (config_pairs num ps) \<longrightarrow> m ! k = -1)"
  using init_partitions_result [OF assms(1,2)] assms(3) by blast

text \<open>
  C39: \<^verbatim>\<open>abtst_init_partitions\<close>, on a configuration whose cores exist, succeeds exactly
  when no core is named twice (and the map could be allocated). Then the map sends every core
  of a partition to that partition and every other core to \<open>-1\<close>.
\<close>

theorem init_partitions_map:
  assumes "config_ok (unat (nr_cores (env s))) num ps" and "alloc s = (True, s1)"
  shows "\<exists>ret m. abtst_init_partitions s num ps = Inr (ret, s1\<lparr>partitions := (partitions s)\<lparr>nr_partitions := num,
      partition_array := ps, partition_map := m\<rparr>\<rparr>) \<and> length m = unat (nr_cores (env s)) \<and>
    (ret = 0 \<longleftrightarrow> distinct (map snd (config_pairs num ps))) \<and>
    (ret = 0 \<longrightarrow> (\<forall>(p, c) \<in> set (config_pairs num ps). m ! nat c = p) \<and>
       (\<forall>k < length m. int k \<notin> snd ` set (config_pairs num ps) \<longrightarrow> m ! k = -1))"
  by (rule init_partitions_result [OF assms])

definition sys32 :: sys where
  "sys32 = sys0\<lparr>env := (env sys0)\<lparr>nr_cores := 32\<rparr>\<rparr>"

theorem init_partitions_map_witness:
  "\<exists>ret m. abtst_init_partitions sys32 2 (cp_init_partitions default_params) =
      Inr (ret, sys32\<lparr>partitions := (partitions sys32)\<lparr>nr_partitions := 2,
      partition_array := cp_init_partitions default_params, partition_map := m\<rparr>\<rparr>) \<and> length m = unat (nr_cores (env sys32)) \<and>
    (ret = 0 \<longleftrightarrow> distinct (map snd (config_pairs 2 (cp_init_partitions default_params)))) \<and>
    (ret = 0 \<longrightarrow> (\<forall>(p, c) \<in> set (config_pairs 2 (cp_init_partitions default_params)). m ! nat c = p) \<and>
       (\<forall>k < length m. int k \<notin> snd ` set (config_pairs 2 (cp_init_partitions default_params)) \<longrightarrow> m ! k = -1))"
proof (rule init_partitions_map)
  show "alloc sys32 = (True, sys32)" by (simp add: alloc_def sys32_def sys0_def)
  show "config_ok (unat (nr_cores (env sys32))) 2 (cp_init_partitions default_params)"
    by (simp add: config_ok_def default_params_def sys32_def less_2_cases_iff all_conj_distrib)
qed

text \<open>
  C40: The built-in configuration names the cores 2 to 17 without asking whether they exist:
  with fewer than 18 cores \<^verbatim>\<open>abtst_init_partitions\<close> accesses the map out of bounds.
\<close>

theorem default_params_need_18_cores:
  assumes "unat (nr_cores (env s)) < 18" and "alloc s = (True, s1)"
  shows "abtst_init_partitions s 2 (cp_init_partitions default_params) = Inl OutOfBounds"
proof -
  have upts: "[0..<8] = [0, 1, 2, 3, 4, 5, 6, 7 :: nat]" "[0..<2] = [0, 1 :: nat]" by (simp_all add: upt_rec)
  have al: "alloc (s\<lparr>partitions := p\<rparr>) = (True, s1\<lparr>partitions := p\<rparr>)" for p
    using assms(2) by (auto simp: alloc_def split: list.splits)
  have "map_partitions (cp_init_partitions default_params) [0..<2] (replicate n (-1)) = Inl OutOfBounds" if "n < 18" for n
  proof -
    have "n \<in> {0, 1, 2, 3, 4, 5, 6, 7, 8, 9, 10, 11, 12, 13, 14, 15, 16, 17}" using that by simp presburger
    then show ?thesis unfolding upts
      by (elim insertE emptyE) (simp_all add: default_params_def idx_int_def put_int_def idx_def put_def upts nth_list_update)
  qed
  from this [OF assms(1)] show ?thesis
    using al alloc_frame(1) [OF assms(2)] by (simp add: abtst_init_partitions_def init_partition_map_def)
qed

theorem default_params_need_18_cores_witness:
  "abtst_init_partitions (sys0\<lparr>env := (env sys0)\<lparr>nr_cores := 16\<rparr>\<rparr>) 2 (cp_init_partitions default_params) = Inl OutOfBounds"
  by (rule default_params_need_18_cores) (simp_all add: alloc_def sys0_def)

end
