(* ===== verification/Reb_Sort.thy ===== *)
theory Reb_Sort
  imports Rebalance
begin

text \<open>
  What the three sorting helpers of the rebalancer return, for every sorting routine with the
  contract of \<^verbatim>\<open>qsort\<close>: the streams in use of a partition and node in the order of
  their queue depths, the partitions in the order of their average depths in a node, the nodes
  in the order of their depths or their numbers of cores.
\<close>

lemma cmp_func_consistent [simp]: "consistent cmp_func"
  by (auto simp: consistent_def cmp_func_def)

lemma cmp_func_le [simp]: "cmp_func a b \<le> 0 \<longleftrightarrow> sint (ios a) \<le> sint (ios b)"
  by (auto simp: cmp_func_def)

subsection \<open>Filling an array\<close>

lemma collect_loop:
  assumes "\<And>j acc. j \<in> set js \<Longrightarrow> f j acc =
      (if P j then rbind (put (snd acc) (fst acc) (F j)) (\<lambda>ps. Inr (Suc (fst acc), ps)) else Inr acc)"
    and "length (filter P js) \<le> n"
  shows "for_each f js (length dn, dn @ replicate n z) =
    Inr (length dn + length (filter P js), dn @ map F (filter P js) @ replicate (n - length (filter P js)) z)"
  using assms
proof (induction js arbitrary: dn n)
  case (Cons j js)
  show ?case
  proof (cases "P j")
    case False
    with Cons show ?thesis by simp
  next
    case True
    with Cons.prems(2) obtain m where n: "n = Suc m" by (cases n) auto
    have "put (dn @ replicate n z) (length dn) (F j) = Inr ((dn @ [F j]) @ replicate m z)"
      by (simp add: n put_def list_update_append)
    moreover have "for_each f js (length (dn @ [F j]), (dn @ [F j]) @ replicate m z) =
        Inr (length (dn @ [F j]) + length (filter P js),
          (dn @ [F j]) @ map F (filter P js) @ replicate (m - length (filter P js)) z)"
      using Cons.prems True n by (intro Cons.IH) auto
    ultimately show ?thesis using Cons.prems(1) [of j] True n by simp
  qed
qed simp

lemma collect_loop0:
  assumes "\<And>j acc. j \<in> set js \<Longrightarrow> f j acc =
      (if P j then rbind (put (snd acc) (fst acc) (F j)) (\<lambda>ps. Inr (Suc (fst acc), ps)) else Inr acc)"
    and "length (filter P js) \<le> n"
  shows "for_each f js (0, replicate n z) =
    Inr (length (filter P js), map F (filter P js) @ replicate (n - length (filter P js)) z)"
  using collect_loop [where dn = "[]" and js = js and n = n and z = z and f = f and P = P and F = F] assms by simp

lemma fill_loop:
  assumes "\<And>i ps. i < n \<Longrightarrow> f i ps = put ps i (F i)"
  shows "for_each f [0..<n] (replicate n z) = Inr (map F [0..<n])"
proof -
  have "for_each f [0..<k] (replicate n z) = Inr (map F [0..<k] @ replicate (n - k) z)" if "k \<le> n" for k
    using that
  proof (induction k)
    case (Suc k)
    then have "n - k = Suc (n - Suc k)" by simp
    with Suc assms [of k] show ?case by (simp add: for_each_append put_def list_update_append)
  qed simp
  from this [of n] show ?thesis by simp
qed

lemma perm_map:
  assumes "mset ys = mset (map f xs)" and "\<And>x. g (f x) = x"
  shows "mset (map g ys) = mset xs" "map f (map g ys) = ys"
proof -
  have "mset (map g ys) = mset (map g (map f xs))" using assms(1) by (metis mset_map)
  then show "mset (map g ys) = mset xs" using assms(2) by (simp add: o_def)
  have "set ys = f ` set xs" using assms(1) by (metis mset_eq_setD set_map)
  then have "f (g y) = y" if "y \<in> set ys" for y using that assms(2) by auto
  then show "map f (map g ys) = ys" by (simp add: map_idI)
qed

subsection \<open>The sorted arrays\<close>

definition stream_param :: "sys \<Rightarrow> nat \<Rightarrow> sort_param" where
  "stream_param s k = \<lparr>ios = abtst_stream_get_qdepth (stream_at s k), sp_stream = StreamPtr k\<rparr>"

definition id_param :: "(nat \<Rightarrow> u32) \<Rightarrow> nat \<Rightarrow> sort_param" where
  "id_param q i = \<lparr>ios = q i, sp_stream = IntPtr i\<rparr>"

lemma param_simps [simp]:
  "ios (stream_param s k) = abtst_stream_get_qdepth (stream_at s k)"
  "sp_stream (stream_param s k) = StreamPtr k"
  "ios (id_param q i) = q i" "sp_stream (id_param q i) = IntPtr i"
  by (simp_all add: stream_param_def id_param_def)

text \<open>\<open>ks\<close> is a list of streams or identifiers in the order of the key \<open>q\<close>.\<close>

definition arranged :: "(nat \<Rightarrow> u32) \<Rightarrow> nat list \<Rightarrow> nat list \<Rightarrow> bool" where
  "arranged q xs ks \<longleftrightarrow> mset ks = mset xs \<and> sorted_wrt (\<lambda>a b. sint (q a) \<le> sint (q b)) ks"

lemma arrangedD:
  assumes "arranged q xs ks"
  shows "set ks = set xs" "length ks = length xs" "distinct ks = distinct xs"
    "i < j \<Longrightarrow> j < length xs \<Longrightarrow> sint (q (ks ! i)) \<le> sint (q (ks ! j))"
proof -
  show *: "set ks = set xs" "length ks = length xs" "distinct ks = distinct xs"
    using assms by (auto simp: arranged_def dest: mset_eq_setD mset_eq_length mset_eq_imp_distinct_iff)
  show "i < j \<Longrightarrow> j < length xs \<Longrightarrow> sint (q (ks ! i)) \<le> sint (q (ks ! j))"
    using assms * by (auto simp: arranged_def sorted_wrt_iff_nth_less)
qed

definition ptr_num :: "stream_ptr \<Rightarrow> nat" where
  "ptr_num p = (case p of StreamPtr k \<Rightarrow> k | IntPtr i \<Rightarrow> i | NullStream \<Rightarrow> 0)"

abbreviation depth_at :: "sys \<Rightarrow> nat \<Rightarrow> u32" where
  "depth_at s k \<equiv> abtst_stream_get_qdepth (stream_at s k)"

definition streams_sorted :: "sys \<Rightarrow> nat \<Rightarrow> nat \<Rightarrow> nat list \<Rightarrow> sort_param list \<Rightarrow> bool" where
  "streams_sorted s i p ks params \<longleftrightarrow>
     arranged (depth_at s) (part_cores s i p) ks \<and> ks \<noteq> [] \<and>
     (\<exists>n. params = map (stream_param s) ks @ replicate n null_param)"

lemma sint_core:
  assumes "wf_topology s" "i < n_numas s"
  shows "sint (start_core (numa_at s i)) = int (unat (start_core (numa_at s i)))"
    "sint (end_core (numa_at s i)) = int (unat (end_core (numa_at s i)))"
    "unat (start_core (numa_at s i)) \<le> unat (end_core (numa_at s i))"
proof -
  have e: "unat (end_core (numa_at s i)) < 2147483648"
    and le: "unat (start_core (numa_at s i)) \<le> unat (end_core (numa_at s i))"
    using assms by (auto simp: wf_topology_def word_less_nat_alt word_le_nat_alt)
  then show "unat (start_core (numa_at s i)) \<le> unat (end_core (numa_at s i))" by simp
  have sint: "sint w = int (unat w)" if "unat w < 2147483648" for w :: u32
    using that sint_small [of w] by (metis of_nat_less_numeral_iff uint_nat)
  show "sint (start_core (numa_at s i)) = int (unat (start_core (numa_at s i)))"
    "sint (end_core (numa_at s i)) = int (unat (end_core (numa_at s i)))"
    using e le by (simp_all add: sint)
qed

lemma map_int_upt: "a \<le> b \<Longrightarrow> [int a..int b] = map int [a..<Suc b]"
proof (induction b rule: dec_induct)
  case (step b)
  then show ?case using upto_rec2 [of "int a" "int (Suc b)"] by simp
qed simp

lemma numa_range:
  assumes "wf_topology s" "i < n_numas s"
  shows "[sint (start_core (numa_at s i))..sint (end_core (numa_at s i))] = map int (numa_cores s i)"
    "nat (sint (end_core (numa_at s i)) - sint (start_core (numa_at s i)) + 1) = length (numa_cores s i)"
    "0 \<le> sint (end_core (numa_at s i)) - sint (start_core (numa_at s i)) + 1"
proof -
  have "[x..y] = map int [a..<Suc b] \<and> nat (y - x + 1) = length [a..<Suc b] \<and> 0 \<le> y - x + 1"
    if "x = int a" "y = int b" "a \<le> b" for x y a b
    using that by (simp add: map_int_upt del: upt_Suc)
  from this [OF sint_core [OF assms]]
  show "[sint (start_core (numa_at s i))..sint (end_core (numa_at s i))] = map int (numa_cores s i)"
    "nat (sint (end_core (numa_at s i)) - sint (start_core (numa_at s i)) + 1) = length (numa_cores s i)"
    "0 \<le> sint (end_core (numa_at s i)) - sint (start_core (numa_at s i)) + 1"
    unfolding numa_cores_def core_range_def by blast+
qed

lemma calloc_params_cases:
  assumes "calloc_params s n = (p, s')" "0 \<le> n"
  shows "\<exists>b. alloc s = (b, s')" "p = None \<or> p = Some (replicate (nat n) null_param)"
  using assms by (auto simp: calloc_params_def split: prod.splits if_splits)

lemma part_cores_length: "length (part_cores s i p) \<le> length (numa_cores s i)"
  by (simp add: part_cores_def)

lemma collect_streams_loop:
  assumes "wf_topology s" "i < n_numas s"
  shows "for_each (collect_stream s (int p)) (map int (numa_cores s i)) (0, replicate (length (numa_cores s i)) null_param)
    = Inr (length (part_cores s i p), map (stream_param s) (part_cores s i p) @
        replicate (length (numa_cores s i) - length (part_cores s i p)) null_param)"
proof -
  let ?P = "\<lambda>j. in_part s p (nat j)" and ?F = "\<lambda>j. stream_param s (nat j)"
  have filt: "filter ?P (map int xs) = map int (filter (in_part s p) xs)" for xs
    by (induction xs) auto
  have "collect_stream s (int p) j acc =
      (if ?P j then rbind (put (snd acc) (fst acc) (?F j)) (\<lambda>ps. Inr (Suc (fst acc), ps)) else Inr acc)"
    if "j \<in> set (map int (numa_cores s i))" for j acc
    using that numa_cores_bound [OF assms] by (auto simp: collect_stream_def in_part_def stream_param_def)
  from collect_loop0 [where f = "collect_stream s (int p)" and js = "map int (numa_cores s i)" and P = ?P and F = ?F,
      OF this, where n = "length (numa_cores s i)" and z = null_param] show ?thesis
    using part_cores_length [of s i p] by (simp add: filt part_cores_def o_def)
qed

subsection \<open>Statistics cells\<close>

definition stats_shaped :: "sys \<Rightarrow> bool" where
  "stats_shaped s \<longleftrightarrow> length (numa_stats (partitions s)) = MAX_PARTITIONS \<and>
     length (part_stats (partitions s)) = MAX_PARTITIONS \<and>
     (\<forall>p < MAX_PARTITIONS. length (numa_stats (partitions s) ! p) = MAX_NUMAS)"

definition pstat :: "sys \<Rightarrow> nat \<Rightarrow> nat \<Rightarrow> abtst_partition_stat" where
  "pstat s i p = numa_stats (partitions s) ! p ! i"

definition part_avg :: "sys \<Rightarrow> nat \<Rightarrow> nat \<Rightarrow> u32" where
  "part_avg s i p = part_qdepth (pstat s i p) div part_used_cores (pstat s i p)"

lemma get_partition_stat_ok [simp]:
  "stats_shaped s \<Longrightarrow> p < MAX_PARTITIONS \<Longrightarrow> i < MAX_NUMAS
   \<Longrightarrow> abtst_get_partition_stat (partitions s) (int i) (int p) = Inr (pstat s i p)"
  by (simp add: abtst_get_partition_stat_def stats_shaped_def pstat_def)

definition numa_key :: "sys \<Rightarrow> bool \<Rightarrow> nat \<Rightarrow> u32" where
  "numa_key s sort_qdepth i =
     (if sort_qdepth then avg_qdepth (numa_stat (env s) ! i) else numa_used_cores (numa_stat (env s) ! i))"

definition candidates :: "sys \<Rightarrow> bool \<Rightarrow> nat list" where
  "candidates s check_ps = filter (\<lambda>i. \<not> (check_ps \<and> ps_state (power s) ! i)) [0..<n_numas s]"

locale reb_sorter = qsort_contract qs for qs :: "sort_param sorter"
begin

lemma qs_arranged:
  assumes "\<And>x. ios (F x) = q x" and "\<And>x. ptr_num (sp_stream (F x)) = x"
  shows "\<exists>ks. arranged q xs ks \<and> qs cmp_func (map F xs) = map F ks"
proof -
  let ?ys = "qs cmp_func (map F xs)"
  let ?ks = "map (\<lambda>x. ptr_num (sp_stream x)) ?ys"
  note pm = perm_map [OF perm [OF cmp_func_consistent, of "map F xs"], of "\<lambda>x. ptr_num (sp_stream x)"]
  have map: "map F ?ks = ?ys" and mset: "mset ?ks = mset xs"
    using pm assms(2) by blast+
  have "sorted_wrt (\<lambda>a b. sint (ios a) \<le> sint (ios b)) (map F ?ks)"
    unfolding map using ordered [OF cmp_func_consistent, of "map F xs"] by simp
  then have "sorted_wrt (\<lambda>a b. sint (q a) \<le> sint (q b)) ?ks" by (simp only: sorted_wrt_map assms(1))
  with mset map show ?thesis by (intro exI [of _ ?ks]) (auto simp: arranged_def)
qed

lemma sort_streams_sat:
  assumes top: "wf_topology s" and i: "i < n_numas s"
  shows "sat {} (sort_streams qs s (int i) (int p)) (\<lambda>(po, s'). (\<exists>b. alloc s = (b, s')) \<and>
    (\<forall>params. po = Some params \<longrightarrow> (\<exists>ks. streams_sorted s i p ks params)))"
proof -
  let ?len = "length (numa_cores s i)" and ?sel = "part_cores s i p"
  obtain ks where ks: "arranged (depth_at s) ?sel ks"
    "qs cmp_func (map (stream_param s) ?sel) = map (stream_param s) ks"
    using qs_arranged [of "stream_param s" "depth_at s"] by (auto simp: ptr_num_def)
  obtain po s1 where c: "calloc_params s (int ?len) = (po, s1)" by (cases "calloc_params s (int ?len)")
  note c' = calloc_params_cases [OF c, simplified]
  then obtain b where al: "alloc s = (b, s1)" by blast
  note fr = alloc_frame [OF al]
  have "collect_stream s1 = collect_stream s" by (auto simp: fun_eq_iff collect_stream_def get_stream_def fr)
  then have loop: "for_each (collect_stream s1 (int p)) (map int (numa_cores s i)) (0, replicate ?len null_param)
      = Inr (length ?sel, map (stream_param s) ?sel @ replicate (?len - length ?sel) null_param)"
    using collect_streams_loop [OF top i] by simp
  have range: "sort_range s (int i) = Inr (Some (sint (start_core (numa_at s i)), sint (end_core (numa_at s i))))"
    using top i by (simp add: sort_range_def)
  have "int ?len = sint (end_core (numa_at s i)) - sint (start_core (numa_at s i)) + 1"
    using numa_range(2,3) [OF top i] by linarith
  moreover have "length ks = length ?sel" using arrangedD(2) [OF ks(1)] .
  ultimately show ?thesis
    using c c' al ks loop numa_range(1) [OF top i]
    by (auto simp: sort_streams_def range qsort_params_def streams_sorted_def split: option.splits
        intro!: exI [of _ ks])
qed

lemma sort_partitions_sat:
  assumes st: "stats_shaped s" and n: "0 \<le> nr_partitions (partitions s)" "n_partitions s \<le> MAX_PARTITIONS"
    and i: "i < MAX_NUMAS" and used: "\<And>p. p < n_partitions s \<Longrightarrow> part_used_cores (pstat s i p) \<noteq> 0"
  shows "sat {} (sort_partitions qs s (int i)) (\<lambda>(po, s'). (\<exists>b. alloc s = (b, s')) \<and>
    (\<forall>params. po = Some params \<longrightarrow> (\<exists>ps. arranged (part_avg s i) [0..<n_partitions s] ps \<and>
      params = map (id_param (part_avg s i)) ps)))"
proof -
  let ?n = "n_partitions s" and ?F = "id_param (part_avg s i)"
  obtain ps where ps: "arranged (part_avg s i) [0..<?n] ps" "qs cmp_func (map ?F [0..<?n]) = map ?F ps"
    using qs_arranged [of ?F "part_avg s i"] by (auto simp: ptr_num_def)
  obtain po s1 where c: "calloc_params s (nr_partitions (partitions s)) = (po, s1)"
    by (cases "calloc_params s (nr_partitions (partitions s))")
  note c' = calloc_params_cases [OF c n(1)]
  then obtain b where al: "alloc s = (b, s1)" by blast
  note fr = alloc_frame [OF al]
  have "collect_partition s1 (int i) p params = put params p (?F p)" if "p < ?n" for p params
    using that n(2) st i used [OF that]
    by (simp add: collect_partition_def fr stats_shaped_def id_param_def part_avg_def pstat_def)
  then have "for_each (collect_partition s1 (int i)) [0..<?n] (replicate ?n null_param) = Inr (map ?F [0..<?n])"
    by (intro fill_loop) auto
  then show ?thesis
    using c c' al ps
    by (auto simp: sort_partitions_def qsort_params_def fr n_partitions_def split: option.splits
        intro!: exI [of _ ps])
qed

lemma sort_numas_sat:
  assumes top: "wf_topology s" and ps: "length (ps_state (power s)) = MAX_NUMAS"
  shows "sat {} (sort_numas qs s sort_qdepth check_ps) (\<lambda>(po, s'). (\<exists>b. alloc s = (b, s')) \<and>
    (\<forall>params nr. po = Some (params, nr) \<longrightarrow> (\<exists>ids n. nr = length ids \<and>
      arranged (numa_key s sort_qdepth) (candidates s check_ps) ids \<and>
      params = map (id_param (numa_key s sort_qdepth)) ids @ replicate n null_param)))"
proof -
  let ?q = "numa_key s sort_qdepth" and ?sel = "candidates s check_ps" and ?n = "n_numas s"
  let ?P = "\<lambda>i. \<not> (check_ps \<and> ps_state (power s) ! i)"
  obtain ks where ks: "arranged ?q ?sel ks" "qs cmp_func (map (id_param ?q) ?sel) = map (id_param ?q) ks"
    using qs_arranged [of "id_param ?q" ?q] by (auto simp: ptr_num_def)
  obtain po s1 where c: "calloc_params s (int ?n) = (po, s1)" by (cases "calloc_params s (int ?n)")
  note c' = calloc_params_cases [OF c, simplified]
  then obtain b where al: "alloc s = (b, s1)" by blast
  note fr = alloc_frame [OF al]
  have "wf_topology s1" "n_numas s1 = ?n" using top same_shape_topology [OF same_shape_alloc [OF al]] by simp_all
  then have body: "collect_numa s1 sort_qdepth check_ps i acc = (if ?P i then
      rbind (put (snd acc) (fst acc) (id_param ?q i)) (\<lambda>ps. Inr (Suc (fst acc), ps)) else Inr acc)"
    if "i \<in> set [0..<?n]" for i acc
    using that ps top by (auto simp: collect_numa_def abtst_is_numa_in_ps_state_def fr wf_topology_def
        id_param_def numa_key_def)
  have "length ?sel \<le> ?n" using length_filter_le [of ?P "[0..<?n]"] by (simp add: candidates_def)
  then have loop: "for_each (collect_numa s1 sort_qdepth check_ps) [0..<?n] (0, replicate ?n null_param) =
      Inr (length ?sel, map (id_param ?q) ?sel @ replicate (?n - length ?sel) null_param)"
    using collect_loop0 [where P = ?P and js = "[0..<?n]", OF body, where n = ?n and z = null_param] by (simp add: candidates_def)
  have "arranged ?q ?sel ?sel" if "\<not> Suc 0 < length ?sel"
    using that by (cases ?sel rule: remdups_adj.cases) (auto simp: arranged_def)
  then obtain ids where ids: "arranged ?q ?sel ids"
    "(if Suc 0 < length ?sel then qs cmp_func (map (id_param ?q) ?sel) else map (id_param ?q) ?sel) = map (id_param ?q) ids"
    using ks by (cases "Suc 0 < length ?sel") auto
  then show ?thesis
    using c c' al loop arrangedD(2) [OF ids(1)]
    by (auto simp: sort_numas_def n_numas_def [symmetric] qsort_params_def fr split: option.splits if_splits
        intro!: exI [of _ ids])
qed

end

interpretation reb_qsort: reb_sorter qsort_by
  by unfold_locales

end
