(* ===== verification/Reb_Inv.thy ===== *)
theory Reb_Inv
  imports Reb_Sort
begin

text \<open>
  The invariant of the rebalancer and the moves that keep it. \<open>reb_base\<close> joins the
  well-formedness of the queues, the topology and the partitions with the three promises of
  the rebalancer: every partition has a stream in use in every node (\<open>covered\<close>), a load is
  queued only at streams of its own partition (\<open>isolated\<close>), a node in power-saving state
  has no load (\<open>ps_quiet\<close>) and the number of such nodes is the counter's, node 0 not among
  them (\<open>ps_counted\<close>). \<open>reb_inv\<close> adds that the statistics count the streams that
  are there. \<open>reb_frame s s'\<close> is what no pass of the rebalancer changes: the loads with
  their identity and traffic, the multiset of queued loads, the topology, which streams are in
  use.
\<close>

definition asleep :: "sys \<Rightarrow> nat \<Rightarrow> bool" where
  "asleep s i = ps_state (power s) ! i"

definition covered :: "sys \<Rightarrow> bool" where
  "covered s \<longleftrightarrow> (\<forall>i < n_numas s. \<forall>p < n_partitions s. part_cores s i p \<noteq> [])"

definition isolated :: "sys \<Rightarrow> bool" where
  "isolated s \<longleftrightarrow> (\<forall>k < n_streams s. used (stream_at s k) \<longrightarrow>
     (\<forall>l \<in> set (load_queue s k). load_partition s l = part_id (stream_at s k)))"

definition ps_quiet :: "sys \<Rightarrow> bool" where
  "ps_quiet s \<longleftrightarrow> (\<forall>i < n_numas s. asleep s i \<longrightarrow> (\<forall>k \<in> set (used_in s i). load_queue s k = []))"

definition ps_counted :: "sys \<Rightarrow> bool" where
  "ps_counted s \<longleftrightarrow> nr_ps_numas (power s) = int (length (filter (asleep s) [0..<n_numas s])) \<and>
     (0 < n_numas s \<longrightarrow> \<not> asleep s 0)"

definition reb_base :: "sys \<Rightarrow> bool" where
  "reb_base s \<longleftrightarrow> wf_queues s \<and> wf_topology s \<and> wf_partitions s \<and> wf_power s \<and>
     covered s \<and> isolated s \<and> ps_quiet s \<and> ps_counted s"

definition part_counts :: "sys \<Rightarrow> bool" where
  "part_counts s \<longleftrightarrow> stats_shaped s \<and> (\<forall>i < n_numas s. \<forall>p < n_partitions s.
     part_used_cores (pstat s i p) = of_nat (length (part_cores s i p)))"

definition numa_counts :: "sys \<Rightarrow> bool" where
  "numa_counts s \<longleftrightarrow> (\<forall>i < n_numas s. numa_used_cores (numa_stat (env s) ! i) = of_nat (length (used_in s i)))"

definition reb_inv :: "sys \<Rightarrow> bool" where
  "reb_inv s \<longleftrightarrow> reb_base s \<and> part_counts s \<and> numa_counts s"

definition reb_frame :: "sys \<Rightarrow> sys \<Rightarrow> bool" where
  "reb_frame s s' \<longleftrightarrow>
     n_streams s' = n_streams s \<and> queued_loads s' = queued_loads s \<and>
     (\<forall>k < n_streams s. used (stream_at s' k) = used (stream_at s k) \<and> rank (stream_at s' k) = rank (stream_at s k)) \<and>
     valid_load s' = valid_load s \<and> all_loads s' = all_loads s \<and> load_partition s' = load_partition s \<and>
     (\<forall>l. valid_load s l \<longrightarrow> load_core (load_at s' l) = load_core (load_at s l)) \<and>
     (env s')\<lparr>numa_stat := []\<rparr> = (env s)\<lparr>numa_stat := []\<rparr> \<and>
     rebalance s' = rebalance s \<and> requests s' = requests s \<and> ps_enabled (power s') = ps_enabled (power s) \<and>
     nr_partitions (partitions s') = nr_partitions (partitions s) \<and>
     partition_map (partitions s') = partition_map (partitions s) \<and>
     set (allocs s') \<subseteq> set (allocs s)"

lemma reb_frame_refl [simp]: "reb_frame s s"
  by (simp add: reb_frame_def)

lemma reb_frame_trans: "reb_frame s t \<Longrightarrow> reb_frame t u \<Longrightarrow> reb_frame s u"
  by (auto simp: reb_frame_def)

lemma mem_ok_frame: "mem_ok E s \<Longrightarrow> reb_frame s t \<Longrightarrow> mem_ok E t"
  by (auto simp: mem_ok_def reb_frame_def)

lemma env_numa_statD:
  assumes "e'\<lparr>numa_stat := []\<rparr> = e\<lparr>numa_stat := []\<rparr>"
  shows "numa_info e' = numa_info e" "nr_numas e' = nr_numas e" "nr_cores e' = nr_cores e"
  using assms by (cases e, cases e', simp)+

lemma reb_frame_views:
  assumes "reb_frame s s'"
  shows "n_numas s' = n_numas s" "numa_cores s' = numa_cores s" "n_partitions s' = n_partitions s"
    "n_streams s' = n_streams s" "nr_partitions (partitions s') = nr_partitions (partitions s)"
    "rebalance s' = rebalance s"
  using assms env_numa_statD [of "env s'" "env s"]
  by (auto simp: reb_frame_def n_numas_def numa_cores_def numa_at_def n_partitions_def fun_eq_iff)

subsection \<open>States of the same shape\<close>

lemma same_shape_views:
  assumes sh: "same_shape s s'" and top: "wf_topology s"
  shows "n_partitions s' = n_partitions s" "pstat s' = pstat s" "stats_shaped s' = stats_shaped s"
    "candidates s' = candidates s" "asleep s' = asleep s" "wf_power s' = wf_power s"
    "ps_counted s' = ps_counted s" "wf_partitions s' = wf_partitions s"
    "i < n_numas s \<Longrightarrow> part_cores s' i p = part_cores s i p" "i < n_numas s \<Longrightarrow> used_in s' i = used_in s i"
proof -
  note d = same_shapeD [OF sh] same_shape_topology [OF sh] and st = same_shape_stream [OF sh]
  show "n_partitions s' = n_partitions s" "pstat s' = pstat s" "stats_shaped s' = stats_shaped s"
    "candidates s' = candidates s" "asleep s' = asleep s" "wf_power s' = wf_power s"
    by (simp_all add: d n_partitions_def pstat_def stats_shaped_def candidates_def asleep_def wf_power_def fun_eq_iff)
  then show "ps_counted s' = ps_counted s" "wf_partitions s' = wf_partitions s"
    by (auto simp: ps_counted_def wf_partitions_def d st)
  show "i < n_numas s \<Longrightarrow> part_cores s' i p = part_cores s i p" "i < n_numas s \<Longrightarrow> used_in s' i = used_in s i"
    unfolding part_cores_def used_in_def d
    by (auto intro!: filter_cong simp: in_part_def st dest: numa_cores_bound [OF top])
qed

lemma same_shape_counts:
  assumes "same_shape s s'" and "wf_topology s"
  shows "part_counts s' = part_counts s" "numa_counts s' = numa_counts s" "covered s' = covered s"
  using same_shape_views [OF assms] same_shapeD [OF assms(1)] same_shape_topology [OF assms(1)]
  by (auto simp: part_counts_def numa_counts_def covered_def)

lemma same_shape_frame:
  assumes "same_shape s s'" and "queued_loads s' = queued_loads s"
  shows "reb_frame s s'"
  using assms same_shape_stream [OF assms(1)] by (auto simp: reb_frame_def same_shapeD [OF assms(1)]) (auto simp: same_shape_def)

lemma part_coresD:
  assumes "k \<in> set (part_cores s i p)" "wf_topology s" "i < n_numas s"
  shows "k < n_streams s" "used (stream_at s k)" "part_id (stream_at s k) = int p" "k \<in> set (used_in s i)"
    "k \<in> set (numa_cores s i)"
  using assms numa_cores_bound [OF assms(2,3)] by (auto simp: part_cores_def in_part_def used_in_def)

lemma distinct_part_cores [simp]: "distinct (part_cores s i p)"
  by (simp add: part_cores_def)

lemma used_in_numa_cores: "k \<in> set (used_in s i) \<Longrightarrow> k \<in> set (numa_cores s i)"
  by (simp add: used_in_def)

lemma used_in_unique:
  "wf_topology s \<Longrightarrow> k \<in> set (numa_cores s i) \<Longrightarrow> k \<in> set (numa_cores s j) \<Longrightarrow> i < n_numas s \<Longrightarrow> j < n_numas s \<Longrightarrow> i = j"
  using numa_cores_disjoint by blast

subsection \<open>Moving loads keeps the invariant\<close>

lemma move_inv:
  assumes inv: "reb_inv s" and r: "requeued s from to ms s'"
    and i: "i < n_numas s" "from \<in> set (part_cores s i p)" and j: "j < n_numas s" "to \<in> set (part_cores s j p)"
    and ne: "from \<noteq> to" and ms: "set ms \<subseteq> set (load_queue s from)" "distinct ms"
    and quiet: "asleep s j \<Longrightarrow> ms = []"
  shows "reb_inv s' \<and> reb_frame s s' \<and> same_shape s s'"
proof -
  have base: "wf_queues s" "wf_topology s" "isolated s" "ps_quiet s" using inv by (auto simp: reb_inv_def reb_base_def)
  have sh: "same_shape s s'" and wq: "wf_queues s'" and q: "\<And>k. k < n_streams s \<Longrightarrow> load_queue s' k =
       (if k = from then filter (\<lambda>l. l \<notin> set ms) (load_queue s from)
        else if k = to then rev ms @ load_queue s to else load_queue s k)"
    using r by (auto simp: requeued_def)
  note f = part_coresD [OF i(2) base(2) i(1)] and t = part_coresD [OF j(2) base(2) j(1)]
  note d = same_shapeD [OF sh] same_shape_views [OF sh base(2)] same_shape_topology [OF sh] same_shape_counts [OF sh base(2)]
  have lq: "load_partition s l = part_id (stream_at s k)" if "k < n_streams s" "used (stream_at s k)" "l \<in> set (load_queue s' k)" for k l
  proof (cases "k = to")
    case True
    then show ?thesis using that q [of to] t f base(3) ms(1) ne by (auto simp: isolated_def)
  next
    case False
    then show ?thesis using that q [of k] base(3) by (auto simp: isolated_def split: if_splits)
  qed
  then have "isolated s'" by (auto simp: isolated_def d same_shape_stream [OF sh])
  moreover have "ps_quiet s'"
    unfolding ps_quiet_def d
  proof (intro allI impI ballI)
    fix n k assume n: "n < n_numas s" "asleep s n" "k \<in> set (used_in s' n)"
    then have k: "k \<in> set (used_in s n)" "k \<in> set (numa_cores s n)" by (auto simp: d used_in_numa_cores)
    then have "load_queue s k = []" using n base(4) by (auto simp: ps_quiet_def)
    moreover have "ms = []" if "k = to"
      using quiet used_in_unique [OF base(2) k(2), of j] t(5) that n(1,2) j(1) by blast
    ultimately show "load_queue s' k = []"
      using q [of k] numa_cores_bound [OF base(2) n(1) k(2)] by auto
  qed
  moreover have "queued_loads s' = queued_loads s"
    using r f(1) t(1) ne ms wf_queuesD(6) [OF base(1) f(1)] by (rule requeued_queued_loads)
  ultimately show ?thesis
    using inv wq sh same_shape_frame [OF sh] by (auto simp: reb_inv_def reb_base_def d)
qed

text \<open>
  A move inside a partition of a node: every partition keeps its loads in every node.
\<close>

definition cells_kept :: "sys \<Rightarrow> sys \<Rightarrow> bool" where
  "cells_kept s s' \<longleftrightarrow> same_shape s s' \<and> (\<forall>i < n_numas s. \<forall>p.
     group_loads s' (set (part_cores s i p)) = group_loads s (set (part_cores s i p)))"

lemma cells_kept_refl [simp]: "cells_kept s s"
  by (simp add: cells_kept_def)

lemma cells_kept_trans:
  assumes "wf_topology s" "cells_kept s t" "cells_kept t u"
  shows "cells_kept s u"
proof -
  have st: "same_shape s t" using assms(2) by (simp add: cells_kept_def)
  have "n_numas t = n_numas s" "\<And>i p. i < n_numas s \<Longrightarrow> part_cores t i p = part_cores s i p"
    using same_shape_topology(3) [OF st] same_shape_views(9) [OF st assms(1)] by auto
  then show ?thesis using assms(2,3) same_shape_trans [OF st] by (auto simp: cells_kept_def)
qed

lemma part_cores_unique:
  assumes "wf_topology s" "i < n_numas s" "j < n_numas s" "k \<in> set (part_cores s i p)" "k \<in> set (part_cores s j q)"
  shows "i = j \<and> p = q"
  using part_coresD(3,5) [OF assms(4,1,2)] part_coresD(3,5) [OF assms(5,1,3)]
    used_in_unique [OF assms(1) _ _ assms(2,3)] by auto

lemma requeued_cells_kept:
  assumes r: "requeued s from to ms s'" and wf: "wf_queues s" "wf_topology s" and i: "i < n_numas s"
    and ft: "from \<in> set (part_cores s i p)" "to \<in> set (part_cores s i p)" "from \<noteq> to"
    and ms: "set ms \<subseteq> set (load_queue s from)" "distinct ms"
  shows "cells_kept s s'"
proof -
  note b = part_coresD(1) [OF _ wf(2)]
  note group = requeued_group_loads [OF r b [OF ft(1) i] b [OF ft(2) i] ft(3) ms wf_queuesD(6) [OF wf(1) b [OF ft(1) i]]]
  have "group_loads s' (set (part_cores s j q)) = group_loads s (set (part_cores s j q))" if j: "j < n_numas s" for j q
  proof (rule group)
    show "set (part_cores s j q) \<subseteq> {..<n_streams s}" using b [OF _ j] by auto
    show "from \<in> set (part_cores s j q) \<longleftrightarrow> to \<in> set (part_cores s j q)"
      using part_cores_unique [OF wf(2) i j ft(1)] part_cores_unique [OF wf(2) i j ft(2)] ft by auto
  qed
  then show ?thesis using r by (simp add: cells_kept_def requeued_def)
qed

definition nodes_kept :: "sys \<Rightarrow> sys \<Rightarrow> bool" where
  "nodes_kept s s' \<longleftrightarrow> (\<forall>i < n_numas s.
     group_loads s' (set (numa_cores s i)) = group_loads s (set (numa_cores s i)))"

lemma nodes_kept_refl [simp]: "nodes_kept s s"
  by (simp add: nodes_kept_def)

lemma nodes_kept_trans: "nodes_kept s t \<Longrightarrow> nodes_kept t u \<Longrightarrow> reb_frame s t \<Longrightarrow> nodes_kept s u"
  by (simp add: nodes_kept_def reb_frame_views)

lemma requeued_nodes_kept:
  assumes r: "requeued s from to ms s'" and wf: "wf_queues s" "wf_topology s" and i: "i < n_numas s"
    and ft: "from \<in> set (numa_cores s i)" "to \<in> set (numa_cores s i)" "from \<noteq> to"
    and ms: "set ms \<subseteq> set (load_queue s from)" "distinct ms"
  shows "nodes_kept s s'"
  unfolding nodes_kept_def
proof (intro allI impI)
  fix j assume j: "j < n_numas s"
  note b = numa_cores_bound [OF wf(2)]
  show "group_loads s' (set (numa_cores s j)) = group_loads s (set (numa_cores s j))"
  proof (rule requeued_group_loads [OF r b [OF i ft(1)] b [OF i ft(2)] ft(3) ms wf_queuesD(6) [OF wf(1) b [OF i ft(1)]]])
    show "set (numa_cores s j) \<subseteq> {..<n_streams s}" using b [OF j] by auto
    show "from \<in> set (numa_cores s j) \<longleftrightarrow> to \<in> set (numa_cores s j)"
      using used_in_unique [OF wf(2) ft(1) _ i j] used_in_unique [OF wf(2) ft(2) _ i j] ft by auto
  qed
qed

lemma move_same_node:
  assumes inv: "reb_inv s" and r: "requeued s from to ms s'" and i: "i < n_numas s"
    and ft: "from \<in> set (part_cores s i p)" "to \<in> set (part_cores s i p)" "from \<noteq> to"
    and ms: "set ms \<subseteq> set (load_queue s from)" "distinct ms"
  shows "reb_inv s' \<and> reb_frame s s' \<and> same_shape s s' \<and> cells_kept s s' \<and> nodes_kept s s'"
proof -
  have wf: "wf_queues s" "wf_topology s" using inv by (auto simp: reb_inv_def reb_base_def)
  have "nodes_kept s s'"
    using requeued_nodes_kept [OF r wf i _ _ ft(3) ms] part_coresD(5) [OF ft(1) wf(2) i] part_coresD(5) [OF ft(2) wf(2) i] .
  moreover
  have "cells_kept s s'" using inv by (intro requeued_cells_kept [OF r _ _ i ft ms]) (auto simp: reb_inv_def reb_base_def)
  moreover have "ms = []" if "asleep s i"
    using that inv i ft(1) ms(1) part_coresD(4) [OF ft(1) _ i] by (auto simp: reb_inv_def reb_base_def ps_quiet_def)
  ultimately show ?thesis using move_inv [OF inv r i ft(1) i ft(2,3) ms] by blast
qed

lemma alloc_inv:
  assumes "alloc s = (b, s')"
  shows "same_shape s s'" "reb_inv s \<Longrightarrow> reb_inv s'" "reb_frame s s'"
proof -
  show sh: "same_shape s s'" by (rule same_shape_alloc [OF assms])
  note fr = alloc_frame [OF assms]
  have "queued_loads s' = queued_loads s" by (simp add: queued_loads_def group_loads_def fr)
  then show "reb_frame s s'" by (rule same_shape_frame [OF sh])
  show "reb_inv s'" if "reb_inv s"
  proof -
    have top: "wf_topology s" using that by (simp add: reb_inv_def reb_base_def)
    show ?thesis
      using that wf_queues_alloc [OF assms] same_shape_counts [OF sh top] same_shape_views [OF sh top]
      by (auto simp: reb_inv_def reb_base_def same_shape_topology [OF sh] isolated_def ps_quiet_def fr)
  qed
qed


subsection \<open>Statistics keep the invariant\<close>

lemma queued_loads_updates [simp]:
  "queued_loads (s\<lparr>partitions := ps\<rparr>) = queued_loads s" "queued_loads (s\<lparr>env := e\<rparr>) = queued_loads s"
  "queued_loads (s\<lparr>power := w\<rparr>) = queued_loads s" "queued_loads (set_stream s k f) = queued_loads s"
  by (simp_all add: queued_loads_def group_loads_def)

lemma in_part_updates [simp]:
  "in_part (s\<lparr>partitions := ps\<rparr>) = in_part s" "in_part (s\<lparr>env := e\<rparr>) = in_part s" "in_part (s\<lparr>power := w\<rparr>) = in_part s"
  by (simp_all add: in_part_def fun_eq_iff)

lemma part_views_updates [simp]:
  "used_in (s\<lparr>partitions := ps\<rparr>) = used_in s" "used_in (s\<lparr>power := w\<rparr>) = used_in s"
  "used_in (s\<lparr>env := (env s)\<lparr>numa_stat := x\<rparr>\<rparr>) = used_in s"
  "part_cores (s\<lparr>partitions := ps\<rparr>) = part_cores s" "part_cores (s\<lparr>power := w\<rparr>) = part_cores s"
  "part_cores (s\<lparr>env := (env s)\<lparr>numa_stat := x\<rparr>\<rparr>) = part_cores s"
  "asleep (set_stream s k f) = asleep s" "asleep (s\<lparr>partitions := ps\<rparr>) = asleep s" "asleep (s\<lparr>env := e\<rparr>) = asleep s"
  by (simp_all add: used_in_def part_cores_def asleep_def fun_eq_iff)

lemma length_part_cores:
  assumes "wf_topology s" "i < n_numas s"
  shows "length (part_cores s i p) < 2 ^ 31"
proof -
  have "length (part_cores s i p) \<le> n_streams s"
    using part_cores_length [of s i p] length_numa_cores [OF assms] by simp
  then show ?thesis using assms(1) by (simp add: wf_topology_def)
qed

lemma partitions_update_inv:
  assumes "reb_base s" and ps: "nr_partitions ps = nr_partitions (partitions s)"
    "partition_map ps = partition_map (partitions s)"
  shows "reb_base (s\<lparr>partitions := ps\<rparr>)" "reb_frame s (s\<lparr>partitions := ps\<rparr>)"
    "numa_counts s \<Longrightarrow> numa_counts (s\<lparr>partitions := ps\<rparr>)"
  using assms
  by (auto simp: reb_base_def wf_partitions_def wf_power_def covered_def isolated_def ps_quiet_def ps_counted_def
      n_partitions_def reb_frame_def numa_counts_def)

lemma partition_stats_inv:
  assumes "reb_base s"
  shows "sat {} (abtst_update_partition_stats s) (\<lambda>s'. reb_base s' \<and> part_counts s' \<and>
    (numa_counts s \<longrightarrow> numa_counts s') \<and> reb_frame s s')"
proof -
  have wf: "wf_topology s" "wf_partitions s" using assms by (auto simp: reb_base_def)
  show ?thesis
  proof (rule sat_mono [OF abtst_update_partition_stats_sat [OF wf]], elim exE conjE)
    fix s' ps assume s': "s' = s\<lparr>partitions := ps\<rparr>" and st: "stats_current s ps"
    then have "part_counts s'"
      using wf by (auto simp: part_counts_def stats_shaped_def stats_current_def pstat_def n_partitions_def stat_of_def
          wf_topology_def wf_partitions_def)
    with st show "reb_base s' \<and> part_counts s' \<and> (numa_counts s \<longrightarrow> numa_counts s') \<and> reb_frame s s'"
      using partitions_update_inv [OF assms, of ps] by (auto simp: s' stats_current_def)
  qed
qed

lemma part_cores_used: "set (part_cores s i p) \<subseteq> set (used_in s i)"
  by (auto simp: part_cores_def used_in_def in_part_def)

lemma covered_used:
  "covered s \<Longrightarrow> wf_partitions s \<Longrightarrow> i < n_numas s \<Longrightarrow> used_in s i \<noteq> []"
  using part_cores_used [of s i 0] by (fastforce simp: covered_def wf_partitions_def n_partitions_def)

lemma numa_stats_inv:
  assumes "reb_base s"
  shows "sat {} (abtst_update_numa_stats s) (\<lambda>s'. reb_base s' \<and> numa_counts s' \<and>
    (part_counts s \<longrightarrow> part_counts s') \<and> reb_frame s s')"
proof -
  have wf: "wf_topology s" and used: "\<And>i. i < n_numas s \<Longrightarrow> used_in s i \<noteq> []"
    using assms covered_used by (auto simp: reb_base_def)
  show ?thesis
  proof (rule sat_mono [OF abtst_update_numa_stats_sat [OF wf used]], assumption)
    fix s' assume "numa_stats_upto s (n_numas s) s'"
    then obtain x where x: "s' = s\<lparr>env := (env s)\<lparr>numa_stat := x\<rparr>\<rparr>" "length x = length (numa_stat (env s))"
      "\<forall>i < n_numas s. x ! i = numa_stat_of s i" by (auto simp: numa_stats_upto_def)
    show "reb_base s' \<and> numa_counts s' \<and> (part_counts s \<longrightarrow> part_counts s') \<and> reb_frame s s'"
      using assms x(2,3) unfolding x(1)
      by (auto simp: reb_base_def wf_partitions_def wf_power_def covered_def isolated_def ps_quiet_def ps_counted_def
          n_partitions_def reb_frame_def numa_counts_def part_counts_def stats_shaped_def pstat_def numa_stat_of_def)
  qed
qed

lemma power_update_inv:
  assumes "reb_base s" and "length (ps_pct w) = MAX_NUMAS" "ps_state w = ps_state (power s)"
    "nr_ps_numas w = nr_ps_numas (power s)" "ps_enabled w = ps_enabled (power s)"
  shows "reb_base (s\<lparr>power := w\<rparr>)" "reb_frame s (s\<lparr>power := w\<rparr>)"
    "part_counts s \<Longrightarrow> part_counts (s\<lparr>power := w\<rparr>)" "numa_counts s \<Longrightarrow> numa_counts (s\<lparr>power := w\<rparr>)"
proof -
  have "asleep (s\<lparr>power := w\<rparr>) = asleep s" using assms(3) by (simp add: asleep_def fun_eq_iff)
  then show "reb_base (s\<lparr>power := w\<rparr>)" "reb_frame s (s\<lparr>power := w\<rparr>)"
    "part_counts s \<Longrightarrow> part_counts (s\<lparr>power := w\<rparr>)" "numa_counts s \<Longrightarrow> numa_counts (s\<lparr>power := w\<rparr>)"
    using assms
    by (auto simp: reb_base_def wf_partitions_def wf_power_def covered_def isolated_def ps_quiet_def ps_counted_def
        n_partitions_def reb_frame_def numa_counts_def part_counts_def stats_shaped_def pstat_def)
qed

lemma power_stats_inv:
  assumes "reb_base s"
  shows "sat {} (abtst_update_power_stats s) (\<lambda>s'. reb_base s' \<and> (numa_counts s \<longrightarrow> numa_counts s') \<and>
    (part_counts s \<longrightarrow> part_counts s') \<and> reb_frame s s')"
proof -
  have wf: "wf_topology s" "wf_power s" using assms by (auto simp: reb_base_def)
  show ?thesis
  proof (rule sat_mono [OF abtst_update_power_stats_sat [OF wf]])
    fix s' assume "ps_pct_upto s (n_numas s) s'"
    then obtain x where x: "s' = s\<lparr>power := (power s)\<lparr>ps_pct := x\<rparr>\<rparr>" "length x = length (ps_pct (power s))"
      by (auto simp: ps_pct_upto_def)
    show "reb_base s' \<and> (numa_counts s \<longrightarrow> numa_counts s') \<and> (part_counts s \<longrightarrow> part_counts s') \<and> reb_frame s s'"
      using power_update_inv [OF assms, of "(power s)\<lparr>ps_pct := x\<rparr>"] x wf(2) by (auto simp: wf_power_def)
  qed
qed

end
