(* ===== verification/Reb_Levels.thy ===== *)
theory Reb_Levels
  imports Reb_Inv
begin

text \<open>
  Every level of the rebalancer keeps the invariant \<open>reb_inv\<close> and the frame, for every
  sorting routine with the contract of \<^verbatim>\<open>qsort\<close> and every sequence of allocation
  outcomes. The only fault is \<open>OutOfMemory\<close>, from the two allocations whose result the
  code does not check.
\<close>

definition reb_post :: "sys \<Rightarrow> sys \<Rightarrow> bool" where
  "reb_post s s' \<longleftrightarrow> reb_inv s' \<and> reb_frame s s'"

lemma reb_post_refl [simp]: "reb_post s s \<longleftrightarrow> reb_inv s"
  by (simp add: reb_post_def)

lemma reb_post_trans: "reb_post s t \<Longrightarrow> reb_post t u \<Longrightarrow> reb_post s u"
  using reb_frame_trans by (auto simp: reb_post_def)

lemma reb_post_sat: "reb_post s t \<Longrightarrow> sat E m (reb_post t) \<Longrightarrow> sat E m (reb_post s)"
  by (erule sat_mono) (erule reb_post_trans)

lemma mem_ok_post: "mem_ok E s \<Longrightarrow> reb_post s t \<Longrightarrow> mem_ok E t"
  by (auto simp: reb_post_def mem_ok_frame)

lemma reb_post_alloc: "reb_inv s \<Longrightarrow> alloc s = (b, s') \<Longrightarrow> reb_post s s'"
  by (simp add: reb_post_def alloc_inv)

lemma for_each_post:
  assumes "reb_inv s" and "\<And>x t. x \<in> set xs \<Longrightarrow> reb_post s t \<Longrightarrow> sat E (f x t) (reb_post t)"
  shows "sat E (for_each f xs s) (reb_post s)"
proof (rule for_each_sat)
  show "reb_post s s" using assms(1) by simp
  show "sat E (f x t) (reb_post s)" if "x \<in> set xs" "reb_post s t" for x t
    using assms(2) [OF that] that(2) by (rule reb_post_sat [rotated])
qed

lemma reb_invD:
  assumes "reb_inv s"
  shows "wf_queues s" "wf_topology s" "wf_partitions s" "wf_power s" "covered s" "isolated s" "ps_quiet s"
    "ps_counted s" "stats_shaped s" "reb_base s" "numa_counts s" "part_counts s"
  using assms by (auto simp: reb_inv_def reb_base_def part_counts_def)

lemma reb_inv_bounds:
  assumes "reb_inv s"
  shows "n_numas s \<le> MAX_NUMAS" "n_partitions s \<le> MAX_PARTITIONS" "0 \<le> nr_partitions (partitions s)"
    "nr_partitions (partitions s) = int (n_partitions s)"
  using assms by (auto simp: reb_inv_def reb_base_def wf_topology_def wf_partitions_def n_partitions_def)

lemma used_cores_eq:
  assumes "reb_inv s" "i < n_numas s" "p < n_partitions s"
  shows "part_used_cores (pstat s i p) = of_nat (length (part_cores s i p))"
    "unat (part_used_cores (pstat s i p)) = length (part_cores s i p)"
    "part_used_cores (pstat s i p) \<noteq> 0" "part_cores s i p \<noteq> []"
proof -
  show c: "part_used_cores (pstat s i p) = of_nat (length (part_cores s i p))"
    using assms by (auto simp: reb_inv_def part_counts_def)
  have "length (part_cores s i p) < 2 ^ 31" using length_part_cores [OF reb_invD(2) [OF assms(1)] assms(2)] .
  then show u: "unat (part_used_cores (pstat s i p)) = length (part_cores s i p)" unfolding c by simp
  show ne: "part_cores s i p \<noteq> []" using reb_invD(5) [OF assms(1)] assms by (simp add: covered_def)
  show "part_used_cores (pstat s i p) \<noteq> 0" using u ne by (metis length_0_conv unat_0)
qed

subsection \<open>Level 1\<close>

text \<open>The entries of a sorted array of streams.\<close>

lemma streams_sortedD:
  assumes "streams_sorted s i p ks params"
  shows "set ks = set (part_cores s i p)" "length ks = length (part_cores s i p)" "distinct ks" "ks \<noteq> []"
    "j < length ks \<Longrightarrow> idx params j = Inr (stream_param s (ks ! j))"
    "j < length ks \<Longrightarrow> ks ! j \<in> set (part_cores s i p)"
proof -
  show *: "set ks = set (part_cores s i p)" "length ks = length (part_cores s i p)" "distinct ks" "ks \<noteq> []"
    using assms arrangedD by (auto simp: streams_sorted_def)
  show "j < length ks \<Longrightarrow> idx params j = Inr (stream_param s (ks ! j))"
    using assms by (auto simp: streams_sorted_def idx_def nth_append)
  show "j < length ks \<Longrightarrow> ks ! j \<in> set (part_cores s i p)" using * nth_mem by blast
qed

lemma cells_kept_alloc: "alloc s = (b, s') \<Longrightarrow> cells_kept s s'"
  by (simp add: cells_kept_def same_shape_alloc group_loads_def alloc_frame)

lemma rebalance_pair_sat:
  assumes inv: "reb_inv s" and i: "i < n_numas s"
    and ft: "from \<in> set (part_cores s i p)" "to \<in> set (part_cores s i p)" "from \<noteq> to" and mem: "mem_ok E s"
  shows "sat E (abtst_rebalance_streams s (stream_param s to) (stream_param s from) avg)
    (\<lambda>(r, s'). reb_post s s' \<and> cells_kept s s')"
proof -
  note b = part_coresD(1) [OF _ reb_invD(2) [OF inv] i]
  have "sat E (abtst_rebalance_streams s (stream_param s to) (stream_param s from) avg)
      (\<lambda>(r, s'). \<exists>ms. rebalanced s from to avg r ms s')"
    using reb_invD(1) [OF inv] mem b [OF ft(1)] b [OF ft(2)] ft(3) by (intro abtst_rebalance_streams_sat) auto
  then show ?thesis
  proof (rule sat_mono, clarsimp)
    fix r s' ms assume "rebalanced s from to avg r ms s'"
    then have r: "requeued s from to ms s'" "set ms \<subseteq> set (load_queue s from)" "distinct ms"
      by (auto simp: rebalanced_def)
    show "reb_post s s' \<and> cells_kept s s'"
      using move_same_node [OF inv r(1) i ft r(2,3)] by (auto simp: reb_post_def)
  qed
qed

context reb_sorter
begin

text \<open>The calls of the sorting helpers: a null result, or a sorted array; both allocate.\<close>

lemma sort_streams_call:
  assumes "wf_topology s" "i < n_numas s"
    and none: "\<And>b s1. alloc s = (b, s1) \<Longrightarrow> sat E (g (None, s1)) Q"
    and some: "\<And>b s1 ks params. alloc s = (b, s1) \<Longrightarrow> streams_sorted s i p ks params \<Longrightarrow> sat E (g (Some params, s1)) Q"
  shows "sat E (rbind (sort_streams qs s (int i) (int p)) g) Q"
proof -
  have "sat E (g (po, s1)) Q" if "alloc s = (b, s1)" "\<forall>params. po = Some params \<longrightarrow> (\<exists>ks. streams_sorted s i p ks params)" for po s1 b
    using that none some by (cases po) auto
  then show ?thesis
    unfolding sat_rbind by (intro sat_weaken [OF sort_streams_sat [OF assms(1,2)]]) auto
qed

lemma reb_in_partition_sat:
  assumes inv: "reb_inv s" and ip: "i < n_numas s" "p < n_partitions s" and two: "1 < length (part_cores s i p)" and mem: "mem_ok E s"
  shows "sat E (reb_in_partition qs i p s) (\<lambda>s'. reb_post s s' \<and> cells_kept s s')"
proof -
  note top = reb_invD(2) [OF inv] and cnt = used_cores_eq [OF inv ip]
  let ?m = "length (part_cores s i p)"
  have body: "sat E
      (rbind (idx params (unat (part_used_cores (pstat s i p) - 1))) (\<lambda>last. rbind (idx params 0) (\<lambda>first.
       if sint (ios last - ios first) < sint MIN_IOS_TO_START_REB then Inr s1
       else rbind (deref_stream (sp_stream first)) (\<lambda>k. rbind (get_stream s1 k) (\<lambda>stream.
         if abtst_stream_get_sleep_time stream = 0 then Inr s1
         else rbind (udiv (part_qdepth (pstat s i p)) (part_used_cores (pstat s i p))) (\<lambda>avg.
           rbind (abtst_rebalance_streams s1 first last avg) (\<lambda>(ret, s). Inr s)))))))
      (\<lambda>s'. reb_post s s' \<and> cells_kept s s')"
    if al: "alloc s = (b, s1)" and ks: "streams_sorted s i p ks params" for b s1 ks params
  proof -
    note k = streams_sortedD [OF ks] and fr = alloc_frame [OF al] and ai = alloc_inv [OF al]
    have "unat (part_used_cores (pstat s i p) - 1) = ?m - 1"
      using cnt(2) two by (simp add: unat_sub word_le_nat_alt)
    then have ends: "idx params (unat (part_used_cores (pstat s i p) - 1)) = Inr (stream_param s1 (ks ! (?m - 1)))"
      "idx params 0 = Inr (stream_param s1 (ks ! 0))"
      using k(2) two k(5) [of "?m - 1"] k(5) [of 0] cnt(4) by (auto simp: stream_param_def fr)
    have ends_in: "ks ! 0 \<in> set (part_cores s i p)" "ks ! (?m - 1) \<in> set (part_cores s i p)"
      using k(2) two by (auto intro!: k(6))
    have "ks ! (?m - 1) \<noteq> ks ! 0" using nth_eq_iff_index_eq [OF k(3), of "?m - 1" 0] k(2) two cnt(4) by auto
    moreover have pc: "part_cores s1 i p = part_cores s i p" using same_shape_views(9) [OF ai(1) top ip(1)] .
    ultimately have pair: "sat E (abtst_rebalance_streams s1 (stream_param s1 (ks ! 0)) (stream_param s1 (ks ! (?m - 1))) avg)
        (\<lambda>(r, s'). reb_post s1 s' \<and> cells_kept s1 s')" for avg
      using rebalance_pair_sat [of s1 i "ks ! (?m - 1)" p "ks ! 0" E] mem_ok_shape [OF mem ai(1)] ai(2) [OF inv] ip(1) ends_in
        same_shape_topology(3) [OF ai(1)] by auto
    have s1: "reb_post s s1" "cells_kept s s1"
      using reb_post_alloc [OF inv al] cells_kept_alloc [OF al] by auto
    have "sat E (rbind (abtst_rebalance_streams s1 (stream_param s1 (ks ! 0)) (stream_param s1 (ks ! (?m - 1))) avg)
        (\<lambda>(ret, s). Inr s)) (\<lambda>s'. reb_post s s' \<and> cells_kept s s')" for avg
      unfolding sat_rbind using pair [of avg] by (rule sat_mono) (use s1 in \<open>auto intro: reb_post_trans cells_kept_trans [OF top]\<close>)
    then show ?thesis
      using cnt(3) part_coresD(1) [OF ends_in(1) top ip(1)] s1 unfolding ends
      by (auto simp: deref_stream_def fr simp del: sat_rbind)
  qed
  have "abtst_get_partition_stat (partitions s) (int i) (int p) = Inr (pstat s i p)"
    using reb_invD(9) [OF inv] reb_inv_bounds(1,2) [OF inv] ip by simp
  then show ?thesis
    using reb_post_alloc [OF inv] cells_kept_alloc body
    by (auto intro!: sort_streams_call [OF top ip(1)] simp: reb_in_partition_def simp del: sat_rbind)
qed

lemma reb_in_partition_guarded_sat:
  assumes inv: "reb_inv s" and ip: "i < n_numas s" "p < n_partitions s" and mem: "mem_ok E s"
  shows "sat E (reb_in_partition_guarded qs i p s) (\<lambda>s'. reb_post s s' \<and> cells_kept s s')"
proof -
  have "abtst_get_partition_stat (partitions s) (int i) (int p) = Inr (pstat s i p)"
    using reb_invD(9) [OF inv] reb_inv_bounds(1,2) [OF inv] ip by simp
  moreover have "1 < length (part_cores s i p)" if "\<not> part_used_cores (pstat s i p) \<le> 1"
    using that used_cores_eq(2) [OF inv ip] by (simp add: word_le_nat_alt)
  ultimately show ?thesis
    using reb_in_partition_sat [OF inv ip _ mem] inv by (simp add: reb_in_partition_guarded_def)
qed

lemma abtst_reb_in_partitions_sat:
  assumes inv: "reb_inv s" and mem: "mem_ok E s"
  shows "sat E (abtst_reb_in_partitions qs s) (\<lambda>s'. reb_post s s' \<and> cells_kept s s')"
  unfolding abtst_reb_in_partitions_def n_numas_def [symmetric]
proof (rule for_each_sat)
  show "reb_post s s \<and> cells_kept s s" using inv by simp
next
  fix i t assume i: "i \<in> set [0..<n_numas s]" and t: "reb_post s t \<and> cells_kept s t"
  show "sat E (for_each (reb_in_partition_guarded qs i) [0..<nat (nr_partitions (partitions t))] t)
      (\<lambda>s'. reb_post s s' \<and> cells_kept s s')"
  proof (rule for_each_sat)
    show "reb_post s t \<and> cells_kept s t" by (rule t)
  next
    fix p u assume p: "p \<in> set [0..<nat (nr_partitions (partitions t))]" and u: "reb_post s u \<and> cells_kept s u"
    have "n_numas u = n_numas s" "n_partitions u = nat (nr_partitions (partitions t))"
      using t u reb_frame_views(1,5) [of s u] reb_frame_views(5) [of s t] by (simp_all add: reb_post_def n_partitions_def)
    with i p u have "sat E (reb_in_partition_guarded qs i p u) (\<lambda>s'. reb_post u s' \<and> cells_kept u s')"
      using mem_ok_post [OF mem] by (intro reb_in_partition_guarded_sat) (auto simp: reb_post_def)
    then show "sat E (reb_in_partition_guarded qs i p u) (\<lambda>s'. reb_post s s' \<and> cells_kept s s')"
      by (rule sat_mono) (use u cells_kept_trans [OF reb_invD(2) [OF inv]] in \<open>blast intro: reb_post_trans\<close>)
  qed
qed

end

subsection \<open>Level 2\<close>

lemma set_partition_id_simps [simp]:
  "used (abtst_stream_set_partition_id p st) = used st" "rank (abtst_stream_set_partition_id p st) = rank st"
  "nr_loads (abtst_stream_set_partition_id p st) = nr_loads st" "part_id (abtst_stream_set_partition_id p st) = p"
  by (simp_all add: abtst_stream_set_partition_id_def)

text \<open>An empty stream changes its partition: both partitions keep a stream in the node.\<close>

lemma set_partition_cores:
  assumes top: "wf_topology s" and k: "k \<in> set (part_cores s i p)" "i < n_numas s" and j: "j < n_numas s"
  shows "part_cores (set_stream s k (abtst_stream_set_partition_id (int q))) j r =
    filter (\<lambda>x. if x = k then r = q else in_part s r x) (numa_cores s j)"
    "used_in (set_stream s k (abtst_stream_set_partition_id (int q))) j = used_in s j"
proof -
  note kd = part_coresD [OF k(1) top k(2)]
  show "part_cores (set_stream s k (abtst_stream_set_partition_id (int q))) j r =
      filter (\<lambda>x. if x = k then r = q else in_part s r x) (numa_cores s j)"
    unfolding part_cores_def by (auto intro!: filter_cong simp: in_part_def kd)
  show "used_in (set_stream s k (abtst_stream_set_partition_id (int q))) j = used_in s j"
    unfolding used_in_def by (auto intro!: filter_cong simp: kd)
qed

lemma set_partition_covered:
  assumes top: "wf_topology s" and cov: "covered s" and k: "k \<in> set (part_cores s i p)" "i < n_numas s"
    and two: "1 < length (part_cores s i p)"
  shows "covered (set_stream s k (abtst_stream_set_partition_id (int q)))"
  unfolding covered_def
proof (intro allI impI)
  let ?s = "set_stream s k (abtst_stream_set_partition_id (int q))"
  fix j r assume "j < n_numas ?s" "r < n_partitions ?s"
  then have j: "j < n_numas s" "r < n_partitions s" by (simp_all add: n_partitions_def)
  then obtain x where x: "x \<in> set (part_cores s j r)" using cov by (fastforce simp: covered_def)
  have "\<exists>y \<in> set (part_cores s j r). y \<noteq> k"
  proof (cases "x = k")
    case True
    with x k have eq: "part_cores s j r = part_cores s i p" using part_cores_unique [OF top j(1) k(2)] by auto
    have "\<not> set (part_cores s i p) \<subseteq> {k}"
      using two card_mono [of "{k}" "set (part_cores s i p)"] distinct_card [OF distinct_part_cores, of s i p] by auto
    then show ?thesis unfolding eq by auto
  qed (use x in blast)
  then obtain y where "y \<in> set (part_cores s j r)" "y \<noteq> k" by blast
  then have "y \<in> set (part_cores ?s j r)"
    by (simp add: set_partition_cores [OF top k j(1)]) (simp add: part_cores_def)
  then show "part_cores ?s j r \<noteq> []" by auto
qed

lemma set_partition_inv:
  assumes base: "reb_base s" and nc: "numa_counts s" and k: "k \<in> set (part_cores s i p)" "i < n_numas s"
    and two: "1 < length (part_cores s i p)" and empty: "load_queue s k = []" and q: "q < n_partitions s"
  shows "reb_base (set_stream s k (abtst_stream_set_partition_id (int q)))"
    "numa_counts (set_stream s k (abtst_stream_set_partition_id (int q)))"
    "reb_frame s (set_stream s k (abtst_stream_set_partition_id (int q)))"
proof -
  let ?s = "set_stream s k (abtst_stream_set_partition_id (int q))"
  have wf: "wf_topology s" "covered s" "wf_queues s" using base by (auto simp: reb_base_def)
  note kd = part_coresD [OF k(1) wf(1) k(2)] and pc = set_partition_cores [OF wf(1) k]
  have wq: "wf_queues ?s = wf_queues s" using kd by (intro wf_queues_cong) auto
  have "wf_partitions ?s" "isolated ?s"
    using base kd q empty by (auto simp: reb_base_def wf_partitions_def isolated_def n_partitions_def)
  moreover have "ps_quiet ?s" "ps_counted ?s" "wf_power ?s"
    using base pc by (auto simp: reb_base_def ps_quiet_def ps_counted_def asleep_def wf_power_def)
  ultimately show "reb_base ?s"
    using set_partition_covered [OF wf(1,2) k two] wq wf by (simp add: reb_base_def)
  show "numa_counts ?s" "reb_frame s ?s"
    using nc pc kd by (auto simp: numa_counts_def reb_frame_def)
qed

text \<open>Combine two streams of a partition in a node, then give the emptied one away.\<close>

definition reb_post2 :: "sys \<Rightarrow> sys \<Rightarrow> bool" where
  "reb_post2 s s' \<longleftrightarrow> reb_post s s' \<and> nodes_kept s s'"

lemma reb_post2_trans: "reb_post2 s t \<Longrightarrow> reb_post2 t u \<Longrightarrow> reb_post2 s u"
  using nodes_kept_trans reb_post_trans by (auto simp: reb_post2_def reb_post_def)

lemma reb_post2_alloc: "reb_inv s \<Longrightarrow> alloc s = (b, s') \<Longrightarrow> reb_post2 s s'"
  by (simp add: reb_post2_def reb_post_alloc nodes_kept_def group_loads_def alloc_frame)

lemma combine_pair_sat:
  assumes inv: "reb_inv s" and i: "i < n_numas s"
    and ft: "from \<in> set (part_cores s i p)" "to \<in> set (part_cores s i p)" "from \<noteq> to" and mem: "mem_ok E s"
  shows "sat E (abtst_combine_streams s from to)
    (\<lambda>(r, s'). r = 0 \<and> reb_post2 s s' \<and> same_shape s s' \<and> load_queue s' from = [])"
proof -
  note b = part_coresD(1) [OF _ reb_invD(2) [OF inv] i] and wf = reb_invD(1) [OF inv]
  show ?thesis
  proof (rule sat_mono [OF abtst_combine_streams_sat [OF wf mem b [OF ft(1)] b [OF ft(2)] ft(3)]], clarsimp)
    fix s' assume r: "requeued s from to (load_queue s from) s'"
    then have "load_queue s' from = []" using b [OF ft(1)] by (simp add: requeued_def)
    then show "reb_post2 s s' \<and> same_shape s s' \<and> load_queue s' from = []"
      using move_same_node [OF inv r i ft subset_refl wf_queuesD(6) [OF wf b [OF ft(1)]]]
      by (auto simp: reb_post_def reb_post2_def)
  qed
qed

lemma give_core_sat:
  assumes inv: "reb_inv s" and k: "k \<in> set (part_cores s i p)" "i < n_numas s"
    and two: "1 < length (part_cores s i p)" and empty: "load_queue s k = []" and q: "q < n_partitions s"
  shows "sat {} (rbind (upd_stream s k (abtst_stream_set_partition_id (int q))) abtst_update_partition_stats) (reb_post2 s)"
proof -
  let ?s = "set_stream s k (abtst_stream_set_partition_id (int q))"
  note s = set_partition_inv [OF reb_invD(10,11) [OF inv] k two empty q]
  have "sat {} (abtst_update_partition_stats ?s) (reb_post2 s)"
  proof (rule sat_mono [OF abtst_update_partition_stats_sat], goal_cases)
    case (3 s')
    then have "load_queue s' = load_queue s" by auto
    then have "nodes_kept s s'" by (simp add: nodes_kept_def group_loads_def)
    moreover have "reb_post s s'"
      using satD [OF partition_stats_inv [OF s(1)] 3(1)] s by (auto simp: reb_post_def reb_inv_def intro: reb_frame_trans)
    ultimately show ?case by (simp add: reb_post2_def)
  qed (use s(1) in \<open>auto simp: reb_base_def\<close>)
  then show ?thesis
    using part_coresD(1) [OF k(1) reb_invD(2) [OF inv] k(2)] by simp
qed

lemma combine_give_sat:
  assumes inv: "reb_inv s" and i: "i < n_numas s" and q: "q < n_partitions s"
    and ft: "from \<in> set (part_cores s i p)" "to \<in> set (part_cores s i p)" "from \<noteq> to" and mem: "mem_ok E s"
  shows "sat E (rbind (abtst_combine_streams s from to) (\<lambda>(ret, s).
     if ret \<noteq> 0 then Inr s
     else rbind (upd_stream s from (abtst_stream_set_partition_id (int q))) (\<lambda>s.
          abtst_update_partition_stats s))) (reb_post2 s)"
  unfolding sat_rbind [of _ "abtst_combine_streams _ _ _"]
proof (rule sat_mono [OF combine_pair_sat [OF inv i ft mem]], clarsimp simp del: sat_rbind)
  fix s1 assume s1: "reb_post2 s s1" "same_shape s s1" "load_queue s1 from = []"
  note v = same_shape_views(1,9) [OF s1(2) reb_invD(2) [OF inv]] same_shape_topology(3) [OF s1(2)]
  have "1 < length (part_cores s i p)"
    using card_mono [of "set (part_cores s i p)" "{from, to}"] ft distinct_card [OF distinct_part_cores, of s i p] by auto
  then have "sat {} (rbind (upd_stream s1 from (abtst_stream_set_partition_id (int q))) abtst_update_partition_stats) (reb_post2 s1)"
    using s1 ft i q v by (intro give_core_sat [where i = i and p = p]) (auto simp: reb_post2_def reb_post_def)
  then show "sat E (rbind (upd_stream s1 from (abtst_stream_set_partition_id (int q))) abtst_update_partition_stats) (reb_post2 s)"
    by (rule sat_weaken) (use s1(1) in \<open>auto intro: reb_post2_trans\<close>)
qed

text \<open>The search for a moved stream.\<close>

lemma pick_moved_sat:
  assumes inv: "reb_inv s" and i: "i < n_numas s" and al: "alloc s = (b, s1)"
    and ks: "streams_sorted s i p ks params" and j: "j < length ks"
  shows "sat {} (pick_moved s1 params j) (\<lambda>r. \<forall>x. r = Some x \<longrightarrow> x = StreamPtr (ks ! j))"
proof -
  note k = streams_sortedD(5,6) [OF ks j] and fr = alloc_frame [OF al]
  have n: "ks ! j < n_streams s" using part_coresD(1) [OF k(2) reb_invD(2) [OF inv] i] .
  have "unat (rank (stream_at s (ks ! j))) = ks ! j"
    using wf_queuesD(3) [OF reb_invD(1) [OF inv] n] n reb_invD(1) [OF inv] by (simp add: wf_queues_def)
  moreover have "length (partition_map (partitions s)) = n_streams s"
    using reb_invD(3) [OF inv] by (simp add: wf_partitions_def)
  ultimately show ?thesis using n by (simp add: pick_moved_def k(1) deref_stream_def fr)
qed

context reb_sorter
begin

lemma move_core_sat:
  assumes inv: "reb_inv s" and i: "i < n_numas s" and p: "p < n_partitions s" and q: "q < n_partitions s"
    and two: "1 < length (part_cores s i p)" and mem: "mem_ok E s"
  shows "sat E (move_core qs i p q s) (reb_post2 s)"
  unfolding move_core_def
proof (rule sort_streams_call [OF reb_invD(2) [OF inv] i], goal_cases)
  case (1 b s1)
  then show ?case using reb_post2_alloc [OF inv] by simp
next
  case (2 b s1 ks params)
  note al = 2(1) and ks = 2(2)
  note k = streams_sortedD [OF ks] and ai = alloc_inv [OF al] and v = same_shape_views [OF alloc_inv(1) [OF al] reb_invD(2) [OF inv]]
  have inv1: "reb_inv s1" by (rule ai(2) [OF inv])
  have stat: "abtst_get_partition_stat (partitions s1) (int i) (int p) = Inr (pstat s i p)"
    using reb_invD(9) [OF inv] reb_inv_bounds(1,2) [OF inv] i p by (simp add: alloc_frame [OF al])
  have pair: "sat E (rbind (deref_stream (StreamPtr (ks ! a))) (\<lambda>from. rbind (deref_stream (StreamPtr (ks ! c))) (\<lambda>to.
      rbind (abtst_combine_streams s1 from to) (\<lambda>(ret, s).
      if ret \<noteq> 0 then Inr s
      else rbind (upd_stream s from (abtst_stream_set_partition_id (int q))) (\<lambda>s. abtst_update_partition_stats s))))) (reb_post2 s)"
    if "a < length ks" "c < length ks" "a \<noteq> c" for a c
  proof -
    have "ks ! a \<in> set (part_cores s1 i p)" "ks ! c \<in> set (part_cores s1 i p)" "ks ! a \<noteq> ks ! c"
      using that k(3,6) v(9) [OF i] by (auto simp: nth_eq_iff_index_eq)
    then show ?thesis
      using combine_give_sat [OF inv1 _ _, of i q "ks ! a" p "ks ! c" E] mem_ok_shape [OF mem ai(1)] i q v(1) same_shape_topology(3) [OF ai(1)]
        reb_post2_trans [OF reb_post2_alloc [OF inv al]]
      by (simp add: deref_stream_def del: sat_rbind) (erule sat_mono, blast)
  qed
  have pm: "sat E (pick_moved s1 params j) (\<lambda>r. \<forall>x. r = Some x \<longrightarrow> x = StreamPtr (ks ! j))"
    if "j < length ks" for j
    by (rule sat_weaken [OF pick_moved_sat [OF inv i al ks that]]) auto
  have ends: "idx params 0 = Inr (stream_param s (ks ! 0))" "idx params 1 = Inr (stream_param s (ks ! 1))"
    "0 < length ks" "1 < length ks"
    using two k(2) k(5) [of 0] k(5) [of 1] used_cores_eq(4) [OF inv i p] by auto
  have len: "unat (part_used_cores (pstat s i p)) = length ks" using used_cores_eq(2) [OF inv i p] k(2) by simp
  have search: "sat E (rbind (find_first (pick_moved s1 params) [0..<length ks]) g) (reb_post2 s)"
    if "sat E (g None) (reb_post2 s)"
      "\<And>j. j < length ks \<Longrightarrow> sat E (g (Some (j, StreamPtr (ks ! j)))) (reb_post2 s)" for g
    using that pm by (intro find_first_call [where P = "\<lambda>j x. x = StreamPtr (ks ! j)"]) auto
  show ?case
    using pair [of 0 1] pair [of _ 0] pair [of 0 1] ends
    by (simp add: stat len del: sat_rbind) (rule search, auto simp: not_less_eq_eq simp del: sat_rbind)
qed

lemma sort_partitions_call:
  assumes inv: "reb_inv s" and i: "i < n_numas s"
    and none: "\<And>b s1. alloc s = (b, s1) \<Longrightarrow> sat E (g (None, s1)) Q"
    and some: "\<And>b s1 ps. alloc s = (b, s1) \<Longrightarrow> arranged (part_avg s i) [0..<n_partitions s] ps
      \<Longrightarrow> sat E (g (Some (map (id_param (part_avg s i)) ps), s1)) Q"
  shows "sat E (rbind (sort_partitions qs s (int i)) g) Q"
proof -
  note bd = reb_inv_bounds [OF inv]
  have "sat {} (sort_partitions qs s (int i)) (\<lambda>(po, s'). (\<exists>b. alloc s = (b, s')) \<and>
      (\<forall>params. po = Some params \<longrightarrow> (\<exists>ps. arranged (part_avg s i) [0..<n_partitions s] ps \<and>
        params = map (id_param (part_avg s i)) ps)))"
    using reb_invD(9) [OF inv] bd i used_cores_eq(3) [OF inv i] by (intro sort_partitions_sat) auto
  moreover have "sat E (g (po, s1)) Q" if "alloc s = (b, s1)" "\<forall>params. po = Some params \<longrightarrow>
      (\<exists>ps. arranged (part_avg s i) [0..<n_partitions s] ps \<and> params = map (id_param (part_avg s i)) ps)" for po s1 b
    using that none some by (cases po) auto
  ultimately show ?thesis
    unfolding sat_rbind by (elim sat_weaken) auto
qed

lemma pick_part_sat:
  assumes inv: "reb_inv s" and i: "i < n_numas s" and al: "alloc s = (b, s1)"
    and ps: "arranged (part_avg s i) [0..<n_partitions s] ps" and j: "j < n_partitions s"
  shows "sat E (pick_from_part s1 i (Some ns) (map (id_param (part_avg s i)) ps) j)
      (\<lambda>r. \<forall>p. r = Some p \<longrightarrow> p < n_partitions s \<and> 1 < length (part_cores s i p))"
    "sat E (pick_to_part s1 i (Some ns) (map (id_param (part_avg s i)) ps) j)
      (\<lambda>r. \<forall>p. r = Some p \<longrightarrow> p < n_partitions s)"
proof -
  note bd = reb_inv_bounds [OF inv]
  have idx: "idx (map (id_param (part_avg s i)) ps) j = Inr (id_param (part_avg s i) (ps ! j))"
    using j arrangedD(2) [OF ps] by simp
  have p: "ps ! j < n_partitions s" using j arrangedD(1,2) [OF ps] nth_mem [of j ps] by auto
  have stat: "abtst_get_partition_stat (partitions s1) (int i) (int (ps ! j)) = Inr (pstat s i (ps ! j))"
    using reb_invD(9) [OF inv] bd(1,2) i p by (simp add: alloc_frame [OF al])
  note u = used_cores_eq [OF inv i p]
  have "part_used_cores (pstat s i (ps ! j)) - 1 \<noteq> 0 \<and> 1 < length (part_cores s i (ps ! j))"
    if "part_used_cores (pstat s i (ps ! j)) > 1"
    using that u(2) by (auto simp: word_less_nat_alt)
  then show "sat E (pick_from_part s1 i (Some ns) (map (id_param (part_avg s i)) ps) j)
      (\<lambda>r. \<forall>p. r = Some p \<longrightarrow> p < n_partitions s \<and> 1 < length (part_cores s i p))"
    using p by (simp add: pick_from_part_def idx ptr_to_int_def stat udiv_sat)
  have "part_used_cores (pstat s i (ps ! j)) + 1 = of_nat (Suc (length (part_cores s i (ps ! j))))"
    using u(1) by simp
  then have "part_used_cores (pstat s i (ps ! j)) + 1 \<noteq> 0"
    using length_part_cores [OF reb_invD(2) [OF inv] i, of "ps ! j"] of_nat_u32_0_iff [of "Suc (length (part_cores s i (ps ! j)))"]
    by (simp add: add.commute)
  then show "sat E (pick_to_part s1 i (Some ns) (map (id_param (part_avg s i)) ps) j)
      (\<lambda>r. \<forall>p. r = Some p \<longrightarrow> p < n_partitions s)"
    using p u(3) by (simp add: pick_to_part_def idx ptr_to_int_def stat udiv_sat)
qed

lemma reb_in_numa_sat:
  assumes inv: "reb_inv s" and i: "i < n_numas s" and mem: "mem_ok E s"
  shows "sat E (reb_in_numa qs i s) (reb_post2 s)"
proof -
  have np: "abtst_get_numa_stat s (of_nat i) = Inr (Some (numa_stat (env s) ! i))"
    using reb_invD(2) [OF inv] i by simp
  show ?thesis
    unfolding reb_in_numa_def np rbind_simps
  proof (rule sort_partitions_call [OF inv i], goal_cases)
    case (1 b s1)
    then show ?case using reb_post2_alloc [OF inv] by simp
  next
    case (2 b s1 ps)
    note al = 2(1) and pick = pick_part_sat [OF inv i 2]
    have n: "nat (nr_partitions (partitions s1)) = n_partitions s" "nat (nr_partitions (partitions s1) - 1) \<le> n_partitions s"
      by (simp_all add: n_partitions_def alloc_frame [OF al])
    have post: "reb_post2 s s1" "n_numas s1 = n_numas s" "n_partitions s1 = n_partitions s"
      "part_cores s1 i p = part_cores s i p" for p
      using reb_post2_alloc [OF inv al] same_shape_topology(3) [OF alloc_inv(1) [OF al]]
        same_shape_views(1,9) [OF alloc_inv(1) [OF al] reb_invD(2) [OF inv]] i by auto
    have move: "sat E (move_core qs i p q s1) (reb_post2 s)"
      if "p < n_partitions s" "1 < length (part_cores s i p)" "q < n_partitions s" for p q
      using move_core_sat [OF alloc_inv(2) [OF al inv], of i p q E] mem_ok_shape [OF mem alloc_inv(1) [OF al]] that i post(2-4) reb_post2_trans [OF post(1)]
      by (auto elim!: sat_mono)
    show ?case
      unfolding prod.case option.case
    proof (rule find_first_call [where P = "\<lambda>_ p. p < n_partitions s \<and> 1 < length (part_cores s i p)"], goal_cases)
      case (1 j)
      then show ?case using n(2) by (intro pick(1)) auto
    next
      case (3 k p)
      then show ?case
        unfolding prod.case option.case n
        by (intro find_first_call [where P = "\<lambda>_ q. q < n_partitions s"] pick(2)) (auto simp: post(1) intro: move)
    qed (simp add: post(1))
  qed
qed

lemma abtst_reb_in_numas_sat:
  assumes inv: "reb_inv s" and mem: "mem_ok E s"
  shows "sat E (abtst_reb_in_numas qs s) (reb_post2 s)"
proof -
  have "sat E (for_each (reb_in_numa_guarded qs) [0..<n_numas s] s) (reb_post2 s)"
  proof (rule for_each_sat)
    fix i t assume i: "i \<in> set [0..<n_numas s]" and t: "reb_post2 s t"
    then have it: "reb_inv t" "i < n_numas t" using reb_frame_views(1) [of s t] by (auto simp: reb_post2_def reb_post_def)
    then have "sat E (reb_in_numa_guarded qs i t) (reb_post2 t)"
      using reb_in_numa_sat [OF it, of E] mem_ok_post [OF mem, of t] t reb_invD(2) [OF it(1)] by (simp add: reb_in_numa_guarded_def reb_post2_def)
    then show "sat E (reb_in_numa_guarded qs i t) (reb_post2 s)"
      by (rule sat_mono) (rule reb_post2_trans [OF t])
  qed (simp add: inv reb_post2_def)
  then show ?thesis using inv by (simp add: abtst_reb_in_numas_def n_numas_def reb_post2_def)
qed

end

end
