(* ===== verification/Reb_Nodes.thy ===== *)
theory Reb_Nodes
  imports Reb_Levels
begin

text \<open>
  The work of the rebalancer across nodes: level 3 and power saving, and the pass of the
  rebalancer thread that joins all levels. All keep \<open>reb_inv\<close>; a node that is put into
  power-saving state has been emptied, and nothing is moved to a node in that state.
\<close>

subsection \<open>Combining streams of two nodes\<close>

lemma combine_across_sat:
  assumes inv: "reb_inv s" and ij: "i < n_numas s" "j < n_numas s" "i \<noteq> j"
    and ft: "from \<in> set (part_cores s i p)" "to \<in> set (part_cores s j p)" and awake: "\<not> asleep s j" and mem: "mem_ok E s"
  shows "sat E (abtst_combine_streams s from to)
    (\<lambda>(r, s'). r = 0 \<and> reb_post s s' \<and> same_shape s s' \<and> load_queue s' from = [] \<and>
      (\<forall>k < n_streams s. k \<noteq> to \<longrightarrow> load_queue s k = [] \<longrightarrow> load_queue s' k = []))"
proof -
  note top = reb_invD(2) [OF inv] and wf = reb_invD(1) [OF inv]
  have b: "from < n_streams s" "to < n_streams s" "from \<noteq> to"
    using part_coresD(1) [OF ft(1) top ij(1)] part_coresD(1) [OF ft(2) top ij(2)]
      part_cores_unique [OF top ij(1,2) ft(1)] ft(2) ij(3) by auto
  show ?thesis
  proof (rule sat_mono [OF abtst_combine_streams_sat [OF wf mem b]], clarsimp)
    fix s' assume r: "requeued s from to (load_queue s from) s'"
    have "reb_inv s' \<and> reb_frame s s' \<and> same_shape s s'"
      using move_inv [OF inv r ij(1) ft(1) ij(2) ft(2) b(3) subset_refl wf_queuesD(6) [OF wf b(1)]] awake by blast
    moreover have "load_queue s' from = []"
      "\<forall>k < n_streams s. k \<noteq> to \<longrightarrow> load_queue s k = [] \<longrightarrow> load_queue s' k = []"
      using r b by (auto simp: requeued_def)
    ultimately show "reb_post s s' \<and> same_shape s s' \<and> load_queue s' from = [] \<and>
        (\<forall>k < n_streams s. k \<noteq> to \<longrightarrow> load_queue s k = [] \<longrightarrow> load_queue s' k = [])"
      by (auto simp: reb_post_def)
  qed
qed

subsection \<open>Level 3\<close>

lemma average_ok:
  assumes "wf_topology s"
  shows "\<exists>a. abtst_get_average_qdepth s = Inr a"
proof -
  have "sat {} (for_each (\<lambda>i (cores, qdepth).
         rbind (abtst_get_numa_stat s (of_nat i)) (\<lambda>p. rbind (nonnull p) (\<lambda>st.
         if numa_used_cores st = 0 then Inr (cores, qdepth)
         else Inr (cores + numa_used_cores st, qdepth + avg_qdepth st * numa_used_cores st))))
       [0..<n_numas s] (0, 0)) (\<lambda>_. True)"
    using assms by (intro for_each_sat) auto
  then show ?thesis
    by (auto simp: abtst_get_average_qdepth_def sat_total n_numas_def)
qed

lemma max_diff_loop:
  assumes inv: "reb_inv s" and ij: "i < n_numas s" "j < n_numas s"
  shows "sat {} (for_each (max_diff s i j) [0..<n_partitions s] (-1, 0))
    (\<lambda>acc. fst acc < 0 \<or> (\<exists>p < n_partitions s. fst acc = int p))"
proof (rule for_each_sat)
  fix p and acc :: "int \<times> u32" assume p: "p \<in> set [0..<n_partitions s]" and "fst acc < 0 \<or> (\<exists>p < n_partitions s. fst acc = int p)"
  moreover have "abtst_get_partition_stat (partitions s) (int i) (int p) = Inr (pstat s i p)"
    "abtst_get_partition_stat (partitions s) (int j) (int p) = Inr (pstat s j p)"
    using reb_invD(9) [OF inv] reb_inv_bounds(1,2) [OF inv] ij p by auto
  ultimately show "sat {} (max_diff s i j p acc) (\<lambda>acc. fst acc < 0 \<or> (\<exists>p < n_partitions s. fst acc = int p))"
    by (auto simp: max_diff_def Let_def)
qed simp

lemma move_between_sat:
  assumes inv: "reb_inv s" and ij: "i < n_numas s" "j < n_numas s" "i \<noteq> j" and awake: "\<not> asleep s j"
    and ks: "streams_sorted s i p ks params" and ks': "streams_sorted s j p ks' params'" and n: "n < length ks"
    and t: "reb_post s t" "same_shape s t" and mem: "mem_ok E s"
  shows "sat E (move_between params params' limit n (c, t)) (\<lambda>(c, t). reb_post s t \<and> same_shape s t)"
proof -
  note top = reb_invD(2) [OF inv] and v = same_shape_views [OF t(2) reb_invD(2) [OF inv]]
  note kd = streams_sortedD(5,6) [OF ks n] and kd' = streams_sortedD(4,5,6) [OF ks']
  have to0: "0 < length ks'" using kd'(1) by simp
  have cores: "ks ! n \<in> set (part_cores t i p)" "ks' ! 0 \<in> set (part_cores t j p)"
    using kd(2) kd'(3) [OF to0] v(9) ij by auto
  have lt: "ks ! n < n_streams t" "ks' ! 0 < n_streams t"
    using part_coresD(1) [OF kd(2) top ij(1)] part_coresD(1) [OF kd'(3) [OF to0] top ij(2)] same_shapeD(6) [OF t(2)] by auto
  have "sat E (abtst_combine_streams t (ks ! n) (ks' ! 0)) (\<lambda>(r, s'). reb_post t s' \<and> same_shape t s')"
    using combine_across_sat [OF _ _ _ ij(3) cores _ mem_ok_post [OF mem t(1)]] t ij v(5) awake same_shape_topology(3) [OF t(2)]
    by (auto simp: reb_post_def elim!: sat_mono)
  then have "sat E (abtst_combine_streams t (ks ! n) (ks' ! 0)) (\<lambda>(r, s'). reb_post s s' \<and> same_shape s s')"
    by (rule sat_mono) (use reb_post_trans [OF t(1)] same_shape_trans [OF t(2)] in auto)
  then show ?thesis
    using t lt by (auto simp: move_between_def kd(1) kd'(2) [OF to0] deref_stream_def elim!: sat_mono)
qed

lemma update_both_stats_sat:
  assumes "reb_base t" "reb_frame s t"
  shows "sat E (rbind (abtst_update_partition_stats t) abtst_update_numa_stats) (reb_post s)"
proof -
  have "sat {} (rbind (abtst_update_partition_stats t) abtst_update_numa_stats) (reb_post t)"
    unfolding sat_rbind
  proof (rule sat_mono [OF partition_stats_inv [OF assms(1)]], goal_cases)
    case (1 u)
    then show ?case
      by (intro sat_mono [OF numa_stats_inv]) (auto simp: reb_post_def reb_inv_def intro: reb_frame_trans)
  qed
  then show ?thesis
    by (rule sat_weaken) (use assms(2) in \<open>auto simp: reb_post_def intro: reb_frame_trans\<close>)
qed

lemma move_between_loop:
  assumes inv: "reb_inv s" and ij: "i < n_numas s" "j < n_numas s" "i \<noteq> j" and awake: "\<not> asleep s j"
    and ks: "streams_sorted s i p ks params" and ks': "streams_sorted s j p ks' params'" and al: "alloc s = (b, s1)" and mem: "mem_ok E s"
  shows "sat E (rbind (for_each (move_between params params' limit) (rev [0..<length ks]) (0, s1)) (\<lambda>(_, s).
    rbind (abtst_update_partition_stats s) (\<lambda>s. abtst_update_numa_stats s))) (reb_post s)"
proof -
  have "sat E (for_each (move_between params params' limit) (rev [0..<length ks]) (0, s1))
      (\<lambda>(c, t). reb_post s t \<and> same_shape s t)"
  proof (rule for_each_sat)
    show "case (0, s1) of (c, t) \<Rightarrow> reb_post s t \<and> same_shape s t"
      using reb_post_alloc [OF inv al] alloc_inv(1) [OF al] by simp
    fix n and acc :: "u32 \<times> sys"
    assume "n \<in> set (rev [0..<length ks])" "case acc of (c, t) \<Rightarrow> reb_post s t \<and> same_shape s t"
    then show "sat E (move_between params params' limit n acc) (\<lambda>(c, t). reb_post s t \<and> same_shape s t)"
      using move_between_sat [OF inv ij awake ks ks' _ _ _ mem] by (cases acc) auto
  qed
  then show ?thesis
    unfolding sat_rbind [of _ "for_each _ _ _"]
    by (rule sat_mono) (auto simp: reb_post_def reb_inv_def simp del: sat_rbind intro!: update_both_stats_sat)
qed

text \<open>The entries of a sorted array of nodes.\<close>

lemma candidatesD:
  assumes "arranged q (candidates s check_ps) ids" "n < length ids"
  shows "ids ! n < n_numas s" "check_ps \<Longrightarrow> \<not> asleep s (ids ! n)" "m < length ids \<Longrightarrow> m \<noteq> n \<Longrightarrow> ids ! m \<noteq> ids ! n"
proof -
  have "ids ! n \<in> set (candidates s check_ps)" using assms arrangedD(1) nth_mem by fastforce
  then show "ids ! n < n_numas s" "check_ps \<Longrightarrow> \<not> asleep s (ids ! n)" by (auto simp: candidates_def asleep_def)
  have "distinct ids" using arrangedD(3) [OF assms(1)] by (simp add: candidates_def)
  then show "m < length ids \<Longrightarrow> m \<noteq> n \<Longrightarrow> ids ! m \<noteq> ids ! n" using assms(2) by (simp add: nth_eq_iff_index_eq)
qed

lemma nth_ids [simp]:
  "n < length ids \<Longrightarrow> (map (id_param q) ids @ replicate m null_param) ! n = id_param q (ids ! n)"
  by (simp add: nth_append)

lemma ptr_to_int_IntPtr [simp]: "ptr_to_int (IntPtr i) = Inr i"
  by (simp add: ptr_to_int_def)

lemma pick_numa_sat:
  assumes top: "wf_topology s" and ids: "arranged q (candidates s check_ps) ids" and n: "n < length ids"
  shows "sat E (pick_to_numa s avg (map (id_param q) ids @ replicate m null_param) n) (\<lambda>r. \<forall>i. r = Some i \<longrightarrow> i = ids ! n)"
    "sat E (pick_from_numa s avg (map (id_param q) ids @ replicate m null_param) n) (\<lambda>r. \<forall>i. r = Some i \<longrightarrow> i = ids ! n)"
  using top candidatesD(1) [OF ids n] n by (simp_all add: pick_to_numa_def pick_from_numa_def)

context reb_sorter
begin

lemma reb_between_streams_sat:
  assumes inv: "reb_inv s" and ij: "i < n_numas s" "j < n_numas s" "i \<noteq> j" and awake: "\<not> asleep s j"
    and p: "p < n_partitions s" and mem: "mem_ok E s"
  shows "sat E (rbind (sort_streams qs s (int i) (int p)) (\<lambda>(po, s). case po of None \<Rightarrow> Inr s | Some params_from \<Rightarrow>
       rbind (sort_streams qs s (int j) (int p)) (\<lambda>(po, s). case po of None \<Rightarrow> Inr s | Some params_to \<Rightarrow>
       rbind (abtst_get_partition_stat (partitions s) (int i) (int p)) (\<lambda>from_pstat.
       rbind (for_each (move_between params_from params_to limit)
         (rev [0..<unat (part_used_cores from_pstat)]) (0, s)) (\<lambda>(_, s).
       rbind (abtst_update_partition_stats s) (\<lambda>s. abtst_update_numa_stats s)))))) (reb_post s)"
proof (rule sort_streams_call [OF reb_invD(2) [OF inv] ij(1)], goal_cases)
  case (1 b s1)
  then show ?case by (simp add: reb_post_alloc [OF inv])
next
  case (2 b s1 ks params)
  note ai = alloc_inv [OF 2(1)] and fr = alloc_frame [OF 2(1)] and s1 = reb_post_alloc [OF inv 2(1)]
  note v = same_shape_views [OF ai(1) reb_invD(2) [OF inv]] same_shape_topology [OF ai(1)]
  have ks: "streams_sorted s1 i p ks params"
    using 2(2) v(9) [OF ij(1)] by (simp add: streams_sorted_def stream_param_def [abs_def] fr)
  show ?case
    unfolding prod.case option.case
  proof (rule sort_streams_call, goal_cases)
    case (3 b' s2)
    then show ?case using reb_post_trans [OF s1 reb_post_alloc [OF ai(2) [OF inv] 3]] by simp
  next
    case (4 b' s2 ks' params')
    have len: "unat (part_used_cores (pstat s i p)) = length ks"
      using used_cores_eq(2) [OF inv ij(1) p] streams_sortedD(2) [OF 2(2)] by simp
    have stat: "abtst_get_partition_stat (partitions s2) (int i) (int p) = Inr (pstat s i p)"
      using reb_invD(9) [OF inv] reb_inv_bounds(1,2) [OF inv] ij p by (simp add: alloc_frame [OF 4(1)] fr)
    show ?case
      unfolding prod.case option.case stat rbind_simps len
      using move_between_loop [OF ai(2) [OF inv] _ _ ij(3) _ ks 4(2,1) mem_ok_shape [OF mem ai(1)]] ij awake v
      by (intro reb_post_sat [OF s1]) auto
  qed (use reb_invD(2) [OF inv] ij v in auto)
qed

lemma reb_between_numas_sat:
  assumes inv: "reb_inv s" and ij: "i < n_numas s" "j < n_numas s" "i \<noteq> j" and awake: "\<not> asleep s j" and mem: "mem_ok E s"
  shows "sat E (reb_between_numas qs i j avg s) (reb_post s)"
proof -
  have np: "nat (nr_partitions (partitions s)) = n_partitions s" by (simp add: n_partitions_def)
  have "abtst_get_numa_stat s (of_nat j) = Inr (Some (numa_stat (env s) ! j))" using reb_invD(2) [OF inv] ij by simp
  then show ?thesis
    unfolding reb_between_numas_def np Let_def
    using inv reb_between_streams_sat [OF inv ij awake _ mem]
    by (auto intro!: sat_weaken [OF max_diff_loop [OF inv ij(1,2)]] simp del: sat_rbind simp: sat_rbind [of _ "for_each _ _ _"])
qed

lemma sort_numas_call:
  assumes inv: "reb_inv s"
    and none: "\<And>b s1. alloc s = (b, s1) \<Longrightarrow> sat E (g (None, s1)) Q"
    and some: "\<And>b s1 ids n. alloc s = (b, s1) \<Longrightarrow> arranged (numa_key s sort_qdepth) (candidates s check_ps) ids
      \<Longrightarrow> sat E (g (Some (map (id_param (numa_key s sort_qdepth)) ids @ replicate n null_param, length ids), s1)) Q"
  shows "sat E (rbind (sort_numas qs s sort_qdepth check_ps) g) Q"
proof -
  have "sat {} (sort_numas qs s sort_qdepth check_ps) (\<lambda>(po, s'). (\<exists>b. alloc s = (b, s')) \<and>
    (\<forall>params nr. po = Some (params, nr) \<longrightarrow> (\<exists>ids n. nr = length ids \<and>
      arranged (numa_key s sort_qdepth) (candidates s check_ps) ids \<and>
      params = map (id_param (numa_key s sort_qdepth)) ids @ replicate n null_param)))"
    using reb_invD(2,4) [OF inv] by (intro sort_numas_sat) (auto simp: wf_power_def)
  moreover have "sat E (g (po, s1)) Q" if "alloc s = (b, s1)"
    "\<forall>params nr. po = Some (params, nr) \<longrightarrow> (\<exists>ids n. nr = length ids \<and>
      arranged (numa_key s sort_qdepth) (candidates s check_ps) ids \<and>
      params = map (id_param (numa_key s sort_qdepth)) ids @ replicate n null_param)" for po s1 b
    using that none some by (cases po) force+
  ultimately show ?thesis
    unfolding sat_rbind by (elim sat_weaken) auto
qed

lemma abtst_reb_between_numas_sat:
  assumes inv: "reb_inv s" and mem: "mem_ok E s"
  shows "sat E (abtst_reb_between_numas qs s) (reb_post s)"
proof -
  obtain avg where avg: "abtst_get_average_qdepth s = Inr avg" using average_ok [OF reb_invD(2) [OF inv]] by blast
  show ?thesis
    unfolding abtst_reb_between_numas_def avg rbind_simps
  proof (rule sort_numas_call [OF inv], goal_cases)
    case (1 b s1)
    then show ?case by (simp add: reb_post_alloc [OF inv])
  next
    case (2 b s1 ids m)
    note ai = alloc_inv [OF 2(1)] and s1 = reb_post_alloc [OF inv 2(1)]
    note v = same_shape_views [OF ai(1) reb_invD(2) [OF inv]] same_shape_topology [OF ai(1)] reb_invD(2) [OF inv]
    have ids: "arranged (numa_key s True) (candidates s1 True) ids" using 2(2) v(4) by simp
    note pick = pick_numa_sat [OF reb_invD(2) [OF ai(2) [OF inv]] ids]
    have move: "sat E (reb_between_numas qs (ids ! k) (ids ! n) avg s1) (reb_post s)"
      if "n < length ids" "k < length ids" "k \<noteq> n" for k n
      using candidatesD(1,2) [OF ids that(1)] candidatesD(1) [OF ids that(2)] candidatesD(3) [OF ids that(1) that(2,3)] ai(2) [OF inv]
        mem_ok_shape [OF mem ai(1)]
      by (intro reb_post_sat [OF s1] reb_between_numas_sat) auto
    have "sat E (rbind (find_first (pick_to_numa s1 avg (map (id_param (numa_key s True)) ids @ replicate m null_param)) [0..<length ids - 1])
       (\<lambda>t. case t of None \<Rightarrow> Inr s1 | Some (to, to_numa) \<Rightarrow>
       rbind (find_first (pick_from_numa s1 avg (map (id_param (numa_key s True)) ids @ replicate m null_param)) (rev [Suc to..<length ids]))
       (\<lambda>f. case f of None \<Rightarrow> Inr s1 | Some (from, from_numa) \<Rightarrow> reb_between_numas qs from_numa to_numa avg s1))) (reb_post s)"
    proof (rule find_first_call [where P = "\<lambda>n i. i = ids ! n"], goal_cases)
      case (1 n)
      then show ?case by (intro pick(1)) auto
    next
      case (3 n i)
      then show ?case
        unfolding option.case prod.case
        by (intro find_first_call [where P = "\<lambda>n i. i = ids ! n"] pick(2)) (auto simp: s1 intro: move)
    qed (simp add: s1)
    then show ?case using s1 by (simp del: sat_rbind)
  qed
qed

end

end
