(* ===== verification/Reb_Power.thy ===== *)
theory Reb_Power
  imports Reb_Nodes
begin

text \<open>
  Power saving: the rebalancer empties a node before it marks the node as sleeping, never
  chooses node 0, keeps the counter of sleeping nodes exact, and finds a destination for every
  load it moves.
\<close>

subsection \<open>Destinations\<close>

definition destination :: "sys \<Rightarrow> nat \<Rightarrow> nat \<Rightarrow> nat option list \<Rightarrow> bool" where
  "destination s i p tc \<longleftrightarrow> (\<exists>c j. tc ! p = Some c \<and> j < n_numas s \<and> j \<noteq> i \<and> \<not> asleep s j \<and>
     c \<in> set (part_cores s j p))"

lemma same_shape_destination:
  assumes "same_shape s t" "wf_topology s" "destination s i p tc"
  shows "destination t i p tc"
proof -
  obtain c j where c: "tc ! p = Some c" "j < n_numas s" "j \<noteq> i" "\<not> asleep s j" "c \<in> set (part_cores s j p)"
    using assms(3) by (auto simp: destination_def)
  have "c \<in> set (part_cores t j p)" using c(2,5) same_shape_views(9) [OF assms(1,2)] by simp
  then show ?thesis
    using c same_shape_views(5) [OF assms(1,2)] same_shape_topology(3) [OF assms(1)] by (auto simp: destination_def)
qed

lemma core_of_part_search:
  assumes "wf_topology s" "i < n_numas s"
  shows "find_first (core_of_part s p) (numa_cores s i) =
    Inr (case part_cores s i p of [] \<Rightarrow> None | k # _ \<Rightarrow> Some (k, ()))"
  unfolding part_cores_def using numa_cores_bound [OF assms]
  by (intro find_first_filter) (auto simp: core_of_part_def in_part_def)

lemma usable_numa_sat:
  assumes inv: "reb_inv s" and p: "p < n_partitions s" and j: "j < n_numas s"
  shows "sat E (usable_numa s i p j) (\<lambda>r. \<forall>x. r = Some x \<longrightarrow> j \<noteq> i \<and> \<not> asleep s j)"
proof -
  have "abtst_get_partition_stat (partitions s) (int j) (int p) = Inr (pstat s j p)"
    using reb_invD(9) [OF inv] reb_inv_bounds(1,2) [OF inv] j p by simp
  moreover have "abtst_is_numa_in_ps_state s j = Inr (asleep s j)"
    using reb_invD(4) [OF inv] reb_inv_bounds(1) [OF inv] j
    by (simp add: abtst_is_numa_in_ps_state_def wf_power_def asleep_def)
  ultimately show ?thesis by (simp add: usable_numa_def)
qed

lemma target_cores_sat:
  assumes inv: "reb_inv s" and i: "i < n_numas s" and ps: "set ps \<subseteq> {..<n_partitions s}" and tc: "length tc = MAX_PARTITIONS"
  shows "sat E (target_cores s i ps tc) (\<lambda>r. \<forall>tc'. r = Some tc' \<longrightarrow> length tc' = MAX_PARTITIONS \<and>
    (\<forall>p. p \<in> set ps \<or> destination s i p tc \<longrightarrow> destination s i p tc'))"
  using ps tc
proof (induction ps arbitrary: tc)
  case (Cons p ps)
  note top = reb_invD(2) [OF inv] and bd = reb_inv_bounds(1,2) [OF inv]
  have p: "p < n_partitions s" "p < MAX_PARTITIONS" using Cons.prems(1) bd by auto
  let ?post = "\<lambda>r. \<forall>tc'. r = Some tc' \<longrightarrow> length tc' = MAX_PARTITIONS \<and>
    (\<forall>q. q \<in> set (p # ps) \<or> destination s i q tc \<longrightarrow> destination s i q tc')"
  have step: "sat E (rbind (abtst_get_numa_info s (of_nat j)) (\<lambda>x. rbind (nonnull x) (\<lambda>info.
       rbind (find_first (core_of_part s p) (core_range (start_core info) (end_core info))) (\<lambda>c.
       rbind (case c of None \<Rightarrow> Inr tc | Some (k, _) \<Rightarrow> put tc p (Some k)) (\<lambda>to_cores.
       target_cores s i ps to_cores))))) ?post"
    if j: "j < n_numas s" "j \<noteq> i \<and> \<not> asleep s j" for j
  proof -
    obtain k ks where k: "part_cores s j p = k # ks" using used_cores_eq(4) [OF inv j(1) p(1)] by (cases "part_cores s j p") auto
    then have mem: "k \<in> set (part_cores s j p)" by simp
    have d: "destination s i p (tc[p := Some k])" using Cons.prems(2) p mem j by (auto simp: destination_def)
    have keep: "destination s i q (tc[p := Some k])" if "destination s i q tc" for q
      using that d by (cases "q = p") (auto simp: destination_def)
    have "sat E (target_cores s i ps (tc[p := Some k])) ?post"
      by (rule sat_mono [OF Cons.IH]) (use Cons.prems d keep in auto)
    then show ?thesis
      using core_of_part_search [OF top j(1), of p] top j(1) p Cons.prems(2) k
      by (simp add: numa_cores_def del: sat_rbind)
  qed
  have stat: "abtst_get_partition_stat (partitions s) (int i) (int p) = Inr (pstat s i p)"
    using reb_invD(9) [OF inv] bd i p by simp
  show ?case
    unfolding target_cores.simps stat rbind_simps if_not_P [OF used_cores_eq(3) [OF inv i p(1)]]
    by (rule find_first_call [where P = "\<lambda>j _. j \<noteq> i \<and> \<not> asleep s j"])
      (use step usable_numa_sat [OF inv p(1)] in \<open>auto simp: n_numas_def simp del: sat_rbind\<close>)
qed simp

subsection \<open>Emptying a node\<close>

definition node_empty :: "sys \<Rightarrow> nat list \<Rightarrow> bool" where
  "node_empty s ks \<longleftrightarrow> (\<forall>k \<in> set ks. used (stream_at s k) \<longrightarrow> load_queue s k = [])"

lemma migrate_numa_sat:
  assumes "reb_inv s" "i < n_numas s" "set ks \<subseteq> set (numa_cores s i)" "length tc = MAX_PARTITIONS"
    and "\<And>p. p < n_partitions s \<Longrightarrow> destination s i p tc"
    and "set dn \<subseteq> set (numa_cores s i)" "node_empty s dn" and mem: "mem_ok E s"
  shows "sat E (migrate_numa tc ks s) (\<lambda>(r, s'). r = 0 \<and> reb_post s s' \<and> same_shape s s' \<and> node_empty s' (dn @ ks))"
  using assms
proof (induction ks arbitrary: s dn)
  case (Cons k ks)
  note inv = Cons.prems(1) and i = Cons.prems(2) and top = reb_invD(2) [OF Cons.prems(1)]
  have k: "k \<in> set (numa_cores s i)" "k < n_streams s" using Cons.prems(3) numa_cores_bound [OF top i] by auto
  have next_step: "sat E (migrate_numa tc ks t) (\<lambda>(r, s'). r = 0 \<and> reb_post s s' \<and> same_shape s s' \<and> node_empty s' (dn @ k # ks))"
    if t: "reb_post s t" "same_shape s t" "node_empty t (dn @ [k])" for t
  proof -
    note v = same_shape_views(1) [OF t(2) top] same_shape_topology(2,3) [OF t(2)]
    have "destination t i p tc" if "p < n_partitions t" for p
      using same_shape_destination [OF t(2) top Cons.prems(5)] that v(1) by simp
    then have "sat E (migrate_numa tc ks t) (\<lambda>(r, s'). r = 0 \<and> reb_post t s' \<and> same_shape t s' \<and> node_empty s' ((dn @ [k]) @ ks))"
      using Cons.prems k t v mem_ok_shape [OF Cons.prems(8) t(2)] by (intro Cons.IH) (auto simp: reb_post_def)
    then show ?thesis
      by (rule sat_mono) (use t same_shape_trans [OF t(2)] reb_post_trans [OF t(1)] in auto)
  qed
  show ?case
  proof (cases "used (stream_at s k)")
    case False
    with Cons.prems(7) inv k(2) next_step [of s] show ?thesis by (auto simp: node_empty_def)
  next
    case True
    have pid: "0 \<le> part_id (stream_at s k)" "part_id (stream_at s k) < nr_partitions (partitions s)"
      using reb_invD(3) [OF inv] True k(2) by (auto simp: wf_partitions_def)
    then obtain p where p: "part_id (stream_at s k) = int p" "p < n_partitions s"
      by (metis nonneg_int_cases n_partitions_def nat_int nat_less_eq_zless)
    then obtain c j where c: "tc ! p = Some c" "j < n_numas s" "j \<noteq> i" "\<not> asleep s j" "c \<in> set (part_cores s j p)"
      using Cons.prems(5) [of p] by (auto simp: destination_def)
    have from_k: "k \<in> set (part_cores s i p)" using True p k(1) by (simp add: part_cores_def in_part_def)
    have "c \<notin> set (numa_cores s i)" using part_coresD(5) [OF c(5) top c(2)] used_in_unique [OF top _ _ i c(2)] c(3) by blast
    then have "sat E (abtst_combine_streams s k c)
        (\<lambda>(r, t). r = 0 \<and> reb_post s t \<and> same_shape s t \<and> node_empty t (dn @ [k]))"
      using Cons.prems(6,7) same_shape_stream(1) [of s] numa_cores_bound [OF top i]
      by (intro sat_mono [OF combine_across_sat [OF inv i c(2) c(3) [symmetric] from_k c(5,4) Cons.prems(8)]])
        (fastforce simp: node_empty_def)
    moreover have "idx_int tc (part_id (stream_at s k)) = Inr (Some c)"
      using p c(1) Cons.prems(4) reb_inv_bounds(2) [OF inv] by simp
    ultimately show ?thesis
      using True k(2) next_step by (auto simp: written_def elim!: sat_mono)
  qed
qed (auto simp: node_empty_def)

lemma reb_combine_numas_sat:
  assumes inv: "reb_inv s" and i: "i < n_numas s" and mem: "mem_ok E s"
  shows "sat E (reb_combine_numas i s)
    (\<lambda>(r, s'). reb_post s s' \<and> same_shape s s' \<and> (r = 0 \<longrightarrow> node_empty s' (numa_cores s i)))"
proof -
  note top = reb_invD(2) [OF inv]
  have "used_in s i \<noteq> []" using covered_used reb_invD(3,5) [OF inv] i by blast
  then have used: "numa_used_cores (numa_stat (env s) ! i) \<noteq> 0"
    using reb_invD(11) [OF inv] i length_used_in [OF top i] by (simp add: numa_counts_def of_nat_u32_0_iff)
  have tgt: "sat E (target_cores s i [0..<n_partitions s] (replicate MAX_PARTITIONS None))
      (\<lambda>r. \<forall>tc. r = Some tc \<longrightarrow> length tc = MAX_PARTITIONS \<and> (\<forall>p. p < n_partitions s \<longrightarrow> destination s i p tc))"
    by (rule sat_mono [OF target_cores_sat [OF inv i]]) auto
  have "sat E (migrate_numa tc (numa_cores s i) s)
      (\<lambda>(r, s'). reb_post s s' \<and> same_shape s s' \<and> (r = 0 \<longrightarrow> node_empty s' (numa_cores s i)))"
    if "length tc = MAX_PARTITIONS" "\<And>p. p < n_partitions s \<Longrightarrow> destination s i p tc" for tc
    using migrate_numa_sat [OF inv i subset_refl that, of "[]" E] mem by (auto simp: node_empty_def elim!: sat_mono)
  then show ?thesis
    using tgt used i top inv
    by (auto simp: reb_combine_numas_def n_partitions_def [symmetric] numa_cores_def elim!: sat_mono split: option.splits)
qed

subsection \<open>Changing the state of a node\<close>

lemma length_filter_add:
  "i < n \<Longrightarrow> \<not> P i \<Longrightarrow> length (filter (\<lambda>j. j = i \<or> P j) [0..<n]) = Suc (length (filter P [0..<n]))"
proof (induction n)
  case (Suc n)
  have "filter (\<lambda>j. j = n \<or> P j) [0..<n] = filter P [0..<n]" by (rule filter_cong) auto
  with Suc show ?case by (cases "i = n") auto
qed simp

definition set_ps :: "sys \<Rightarrow> nat \<Rightarrow> bool \<Rightarrow> sys" where
  "set_ps s i b = s\<lparr>power := (power s)\<lparr>ps_state := (ps_state (power s))[i := b],
     nr_ps_numas := (if b then nr_ps_numas (power s) + 1 else nr_ps_numas (power s) - 1)\<rparr>\<rparr>"

lemma set_ps_ok:
  "reb_inv s \<Longrightarrow> i < n_numas s \<Longrightarrow> abtst_set_numa_ps_state s i b = Inr (set_ps s i b)"
  using reb_invD(4) reb_inv_bounds(1) [of s] by (simp add: abtst_set_numa_ps_state_def set_ps_def wf_power_def)

lemma asleep_set_ps:
  "reb_inv s \<Longrightarrow> i < n_numas s \<Longrightarrow> asleep (set_ps s i b) j = (if j = i then b else asleep s j)"
  using reb_invD(4) reb_inv_bounds(1) [of s] by (auto simp: asleep_def set_ps_def wf_power_def nth_list_update)

lemma set_ps_counted:
  assumes inv: "reb_inv s" and i: "i < n_numas s" "i \<noteq> 0" and flip: "asleep s i \<noteq> b"
  shows "ps_counted (set_ps s i b)"
proof -
  note old = reb_invD(8) [OF inv] and a = asleep_set_ps [OF inv i(1)]
  let ?len = "\<lambda>t. length (filter (asleep t) [0..<n_numas s])"
  have "nr_ps_numas (power (set_ps s i b)) = int (?len (set_ps s i b))"
  proof (cases b)
    case True
    then have "asleep (set_ps s i b) = (\<lambda>j. j = i \<or> asleep s j)" using a by (auto simp: fun_eq_iff)
    then show ?thesis
      using length_filter_add [of i "n_numas s" "asleep s"] i(1) flip True old by (simp add: ps_counted_def set_ps_def)
  next
    case False
    then have "asleep s = (\<lambda>j. j = i \<or> asleep (set_ps s i b) j)" using a flip by (auto simp: fun_eq_iff)
    then have "?len s = Suc (?len (set_ps s i b))"
      using length_filter_add [of i "n_numas s" "asleep (set_ps s i b)"] i(1) a [of b i] False by simp
    then show ?thesis using False old by (simp add: ps_counted_def set_ps_def)
  qed
  moreover have "n_numas (set_ps s i b) = n_numas s" by (simp add: set_ps_def)
  ultimately show ?thesis using old a i by (auto simp: ps_counted_def)
qed

lemma set_ps_inv:
  assumes inv: "reb_inv s" and i: "i < n_numas s" "i \<noteq> 0" and flip: "asleep s i \<noteq> b"
    and quiet: "b \<Longrightarrow> node_empty s (numa_cores s i)"
  shows "reb_post s (set_ps s i b)"
proof -
  note a = asleep_set_ps [OF inv i(1)] and d = reb_invD [OF inv]
  have "ps_quiet (set_ps s i b)"
    unfolding ps_quiet_def
  proof (intro allI impI ballI)
    fix j k assume "j < n_numas (set_ps s i b)" "asleep (set_ps s i b) j" "k \<in> set (used_in (set_ps s i b) j)"
    then show "load_queue (set_ps s i b) k = []"
      using quiet d(7) a [of b j] by (cases "j = i") (auto simp: set_ps_def ps_quiet_def node_empty_def used_in_def)
  qed
  then show ?thesis
    using d set_ps_counted [OF inv i flip]
    by (auto simp: reb_post_def reb_inv_def reb_base_def set_ps_def wf_partitions_def wf_power_def covered_def isolated_def
        n_partitions_def part_counts_def stats_shaped_def pstat_def numa_counts_def reb_frame_def)
qed

subsection \<open>Power saving\<close>

lemma all_stats_sat:
  assumes "reb_base t" "reb_frame s t"
  shows "sat E (rbind (abtst_update_partition_stats t) (\<lambda>s. rbind (abtst_update_numa_stats s) abtst_update_power_stats)) (reb_post s)"
proof -
  have "sat E (abtst_update_power_stats u) (reb_post s)" if "reb_post s u" for u
  proof -
    have "reb_base u" using that by (simp add: reb_post_def reb_inv_def)
    from power_stats_inv [OF this] show ?thesis
      by (rule sat_weaken) (use that in \<open>auto simp: reb_post_def reb_inv_def intro: reb_frame_trans\<close>)
  qed
  then show ?thesis
    using update_both_stats_sat [OF assms, of E] by (auto elim!: sat_mono)
qed

lemma sleep_node_sat:
  assumes inv: "reb_inv s" and i: "i < n_numas s" "i \<noteq> 0" and awake: "\<not> asleep s i" and mem: "mem_ok E s"
  shows "sat E (rbind (reb_combine_numas i s) (\<lambda>(ret, s).
       rbind (if ret = 0 then abtst_set_numa_ps_state s i True else Inr s) (\<lambda>s.
       rbind (abtst_update_partition_stats s) (\<lambda>s. rbind (abtst_update_numa_stats s) abtst_update_power_stats)))) (reb_post s)"
  unfolding sat_rbind [of _ "reb_combine_numas _ _"]
proof (rule sat_mono [OF reb_combine_numas_sat [OF inv i(1) mem]], clarify)
  fix r t assume t: "reb_post s t" "same_shape s t" "r = 0 \<longrightarrow> node_empty t (numa_cores s i)"
  note v = same_shape_topology(2,3) [OF t(2)] same_shape_views(5) [OF t(2) reb_invD(2) [OF inv]]
  have it: "reb_inv t" "i < n_numas t" using t(1) i v by (auto simp: reb_post_def)
  have "sat E (if r = 0 then abtst_set_numa_ps_state t i True else Inr t) (reb_post s)"
    using t(1,3) set_ps_ok [OF it] set_ps_inv [OF it i(2), of True] awake v reb_post_trans by auto
  then show "sat E (rbind (if r = 0 then abtst_set_numa_ps_state t i True else Inr t) (\<lambda>s.
       rbind (abtst_update_partition_stats s) (\<lambda>s. rbind (abtst_update_numa_stats s) abtst_update_power_stats))) (reb_post s)"
    unfolding sat_rbind [of _ "if _ then _ else _"]
    by (rule sat_mono) (rule all_stats_sat, auto simp: reb_post_def reb_inv_def)
qed

context reb_sorter
begin

lemma sleep_numa_sat:
  assumes inv: "reb_inv s" and mem: "mem_ok E s"
  shows "sat E (sleep_numa qs s) (reb_post s)"
  unfolding sleep_numa_def
proof (rule sort_numas_call [OF inv], goal_cases)
  case (1 b s1)
  then show ?case by (simp add: reb_post_alloc [OF inv])
next
  case (2 b s1 ids m)
  note ai = alloc_inv [OF 2(1)] and s1 = reb_post_alloc [OF inv 2(1)]
  have ids: "arranged (numa_key s False) (candidates s1 True) ids"
    using 2(2) same_shape_views(4) [OF ai(1) reb_invD(2) [OF inv]] by simp
  have sleep: "sat E (rbind (reb_combine_numas (ids ! n) s1) (\<lambda>(ret, s).
       rbind (if ret = 0 then abtst_set_numa_ps_state s (ids ! n) True else Inr s) (\<lambda>s.
       rbind (abtst_update_partition_stats s) (\<lambda>s. rbind (abtst_update_numa_stats s) abtst_update_power_stats)))) (reb_post s)"
    if "n < length ids" "ids ! n \<noteq> 0" for n
    using candidatesD(1,2) [OF ids that(1)] that(2) ai(2) [OF inv] mem_ok_shape [OF mem ai(1)]
    by (intro reb_post_sat [OF s1] sleep_node_sat) auto
  have "ids ! 1 \<noteq> 0" if "1 < length ids" "ids ! 0 = 0"
    using candidatesD(3) [OF ids that(1), of 0] that by (cases ids) auto
  moreover have "idx (map (id_param (numa_key s False)) ids @ replicate m null_param) n = Inr (id_param (numa_key s False) (ids ! n))"
    if "n < length ids" for n using that by (simp add: idx_def)
  ultimately show ?case
    using s1 sleep [of 0] sleep [of "Suc 0"] by (cases "1 < length ids") (auto simp: not_le simp del: sat_rbind length_greater_0_conv)
qed

lemma wake_numa_sat:
  assumes inv: "reb_inv s" and mem: "mem_ok E s"
  shows "sat E (wake_numa qs s) (reb_post s)"
  unfolding wake_numa_def
proof (rule sort_numas_call [OF inv], goal_cases)
  case (1 b s1)
  then show ?case by (simp add: reb_post_alloc [OF inv])
next
  case (2 b s1 ids m)
  note ai = alloc_inv [OF 2(1)] and s1 = reb_post_alloc [OF inv 2(1)]
  have inv1: "reb_inv s1" by (rule ai(2) [OF inv])
  have ids: "arranged (numa_key s False) (candidates s1 False) ids"
    using 2(2) same_shape_views(4) [OF ai(1) reb_invD(2) [OF inv]] by simp
  have pick: "sat E (pick_sleeping s1 (map (id_param (numa_key s False)) ids @ replicate m null_param) n)
      (\<lambda>r. \<forall>i. r = Some i \<longrightarrow> i = ids ! n \<and> asleep s1 i)" if "n < length ids" for n
    using that candidatesD(1) [OF ids that] reb_invD(4) [OF inv1] reb_inv_bounds(1) [OF inv1]
    by (simp add: pick_sleeping_def abtst_is_numa_in_ps_state_def wf_power_def asleep_def)
  have wake: "sat E (abtst_set_numa_ps_state s1 (ids ! n) False) (reb_post s)"
    if "n < length ids" "asleep s1 (ids ! n)" for n
  proof -
    have i: "ids ! n < n_numas s1" using candidatesD(1) [OF ids that(1)] .
    moreover have "ids ! n \<noteq> 0" using that(2) i reb_invD(8) [OF inv1] by (auto simp: ps_counted_def intro: gr0I)
    ultimately show ?thesis
      using set_ps_ok [OF inv1 i] set_ps_inv [OF inv1 i, of False] that(2) reb_post_trans [OF s1] by auto
  qed
  have "sat E (rbind (find_first (pick_sleeping s1 (map (id_param (numa_key s False)) ids @ replicate m null_param)) (rev [0..<length ids]))
      (\<lambda>f. case f of None \<Rightarrow> Inr s1 | Some (_, i) \<Rightarrow> abtst_set_numa_ps_state s1 i False)) (reb_post s)"
    by (rule find_first_call [where P = "\<lambda>n i. i = ids ! n \<and> asleep s1 i"]) (use pick wake s1 in auto)
  then show ?case using s1 by (simp del: sat_rbind)
qed

lemma abtst_reb_power_saving_sat:
  assumes inv: "reb_inv s" and mem: "mem_ok E s"
  shows "sat E (abtst_reb_power_saving qs s) (reb_post s)"
proof -
  have "n_numas s \<le> MAX_NUMAS" "length (ps_pct (power s)) = MAX_NUMAS"
    using reb_invD(2,4) [OF inv] by (auto simp: wf_topology_def wf_power_def)
  then have "\<exists>r. abtst_estimate_ps_numas s = Inr r"
    using pct_sum_loop [of s "n_numas s"] by (simp add: abtst_estimate_ps_numas_def n_numas_def)
  then show ?thesis
    using sleep_numa_sat [OF inv mem] wake_numa_sat [OF inv mem] inv by (auto simp: abtst_reb_power_saving_def)
qed

end

end
