(* ===== verification/Reb_Pass.thy ===== *)
theory Reb_Pass
  imports Reb_Power
begin

text \<open>
  The pass of the rebalancer thread: the statistics, the levels in their order, the reset of
  the sleep times. \<open>reb_base\<close> before the pass gives \<open>reb_inv\<close> after it.
\<close>

lemma set_stream_inv:
  assumes inv: "reb_inv s" and k: "k < n_streams s"
    and f: "\<And>st. used (f st) = used st \<and> part_id (f st) = part_id st \<and> rank (f st) = rank st \<and> nr_loads (f st) = nr_loads st"
  shows "reb_post s (set_stream s k f)"
proof -
  let ?s = "set_stream s k f"
  have ip: "in_part ?s = in_part s" using k f by (auto simp: in_part_def fun_eq_iff)
  have pc: "part_cores ?s = part_cores s" "used_in ?s = used_in s"
    using k f by (auto simp: part_cores_def used_in_def ip fun_eq_iff intro!: filter_cong)
  have "wf_queues ?s = wf_queues s" using k f by (intro wf_queues_cong) auto
  then have "reb_base ?s"
    using reb_invD(1-8) [OF inv] k f
    by (auto simp: reb_base_def wf_partitions_def wf_power_def covered_def isolated_def ps_quiet_def ps_counted_def
        n_partitions_def pc)
  moreover have "part_counts ?s" "numa_counts ?s"
    using reb_invD(11,12) [OF inv] by (auto simp: part_counts_def numa_counts_def stats_shaped_def pstat_def n_partitions_def pc)
  moreover have "reb_frame s ?s" using k f by (auto simp: reb_frame_def)
  ultimately show ?thesis by (simp add: reb_post_def reb_inv_def)
qed

lemma reset_sleep_simps [simp]:
  "used (abtst_stream_reset_sleep_time st) = used st" "part_id (abtst_stream_reset_sleep_time st) = part_id st"
  "rank (abtst_stream_reset_sleep_time st) = rank st" "nr_loads (abtst_stream_reset_sleep_time st) = nr_loads st"
  "abtst_stream_get_sleep_time (abtst_stream_reset_sleep_time st) = 0"
  by (simp_all add: abtst_stream_reset_sleep_time_def abtst_stream_get_sleep_time_def)

lemma abtst_reset_streams_stat_sat:
  assumes inv: "reb_inv s"
  shows "sat E (abtst_reset_streams_stat s) (\<lambda>s'. reb_post s s' \<and> load_queue s' = load_queue s \<and>
    (\<forall>k < n_streams s. used (stream_at s k) \<longrightarrow> abtst_stream_get_sleep_time (stream_at s' k) = 0))"
proof -
  have n: "unat (max_xstreams (streams s)) = n_streams s" using reb_invD(2) [OF inv] by (simp add: wf_topology_def)
  let ?P = "\<lambda>ks t. reb_post s t \<and> load_queue t = load_queue s \<and>
    (\<forall>k \<in> set ks. used (stream_at s k) \<longrightarrow> abtst_stream_get_sleep_time (stream_at t k) = 0)"
  have "sat E (abtst_reset_streams_stat s) (?P [0..<n_streams s])"
    unfolding abtst_reset_streams_stat_def n
  proof (rule for_each_sat_prefix [where P = ?P])
    fix ks k zs t assume split: "[0..<n_streams s] = ks @ k # zs" and t: "?P ks t"
    have k: "k < n_streams s" using upt_splitD(3) [OF split] .
    with t have kt: "k < n_streams t" "reb_inv t" "used (stream_at t k) = used (stream_at s k)"
      by (auto simp: reb_post_def reb_frame_def)
    then have "reb_post t (set_stream t k abtst_stream_reset_sleep_time)" by (intro set_stream_inv) auto
    with t have "reb_post s (set_stream t k abtst_stream_reset_sleep_time)" using reb_post_trans by blast
    with t kt show "sat E (rbind (get_stream t k) (\<lambda>st. if \<not> used st then Inr t
        else upd_stream t k abtst_stream_reset_sleep_time)) (?P (ks @ [k]))" by auto
  qed (simp add: inv)
  then show ?thesis by (rule sat_mono) auto
qed

lemma measured_inv:
  assumes base: "reb_base s" and m: "depths_measured s ks t"
  shows "reb_base t" "reb_frame s t"
proof -
  have sh: "same_shape s t" and d: "wf_queues t" "load_queue t = load_queue s" using m by (auto simp: depths_measured_def)
  have top: "wf_topology s" using base by (simp add: reb_base_def)
  note v = same_shape_views [OF sh top] same_shape_counts [OF sh top] same_shape_topology [OF sh] same_shapeD [OF sh]
  have "isolated t" "ps_quiet t"
    using base d(2) same_shape_stream [OF sh] by (auto simp: reb_base_def isolated_def ps_quiet_def v)
  with base d(1) show "reb_base t" by (simp add: reb_base_def v)
  show "reb_frame s t" using same_shape_frame [OF sh] d(2) by (simp add: queued_loads_def group_loads_def v)
qed

lemma abtst_reb_update_stat_sat:
  assumes base: "reb_base s"
  shows "sat E (abtst_reb_update_stat s) (reb_post s)"
proof -
  have "wf_queues s" "unat (nr_cores (env s)) = n_streams s" using base by (auto simp: reb_base_def wf_topology_def)
  from abtst_update_streams_stat_sat [OF this] have "sat E (abtst_update_streams_stat s) (depths_measured s [0..<n_streams s])"
    by (rule sat_weaken) auto
  then show ?thesis
    unfolding abtst_reb_update_stat_def sat_rbind [of _ "abtst_update_streams_stat _"]
  proof (rule sat_mono)
    fix t assume "depths_measured s [0..<n_streams s] t"
    note t = measured_inv [OF base this]
    then have "sat E (reb_update_output t) (\<lambda>_. True)" by (intro reb_update_output_sat) (simp_all add: reb_base_def)
    then show "sat E (rbind (reb_update_output t) (\<lambda>_. rbind (abtst_update_partition_stats t) (\<lambda>s.
        rbind (abtst_update_numa_stats s) abtst_update_power_stats))) (reb_post s)"
      unfolding sat_rbind [of _ "reb_update_output _"] by (rule sat_mono) (intro all_stats_sat t)
  qed
qed

context reb_sorter
begin

lemma reb_pass_sat:
  assumes base: "reb_base s" and mem: "mem_ok E s"
  shows "sat E (reb_pass qs s) (\<lambda>s'. reb_post s s' \<and>
    (\<forall>k < n_streams s. used (stream_at s k) \<longrightarrow> abtst_stream_get_sleep_time (stream_at s' k) = 0))"
proof -
  have step: "sat E (rbind m f) Q" if "sat E m (reb_post s)"
    "\<And>t. reb_post s t \<Longrightarrow> sat E (f t) Q" for m :: "sys res" and f and Q :: "sys \<Rightarrow> bool"
    using that by (auto elim!: sat_mono)
  have level: "sat E (if b then f t else Inr t) (reb_post s)"
    if "reb_post s t" "reb_inv t \<Longrightarrow> mem_ok E t \<Longrightarrow> sat E (f t) (reb_post t)" for b f t
    using that mem_ok_post [OF mem that(1)] by (auto simp: reb_post_def elim!: sat_mono intro: reb_frame_trans)
  have l3: "sat E (rbind (abtst_reb_power_saving qs t) (abtst_reb_between_numas qs)) (reb_post t)" if "reb_inv t" "mem_ok E t" for t
    using abtst_reb_power_saving_sat [OF that] abtst_reb_between_numas_sat [of _ E] reb_post_sat mem_ok_post [OF that(2)]
    by (auto simp: reb_post_def [of t] elim!: sat_mono)
  have l2: "sat E (abtst_reb_in_numas qs t) (reb_post t)" if "reb_inv t" "mem_ok E t" for t
    using abtst_reb_in_numas_sat [OF that] by (auto simp: reb_post2_def elim!: sat_mono)
  have l1: "sat E (abtst_reb_in_partitions qs t) (reb_post t)" if "reb_inv t" "mem_ok E t" for t
    using abtst_reb_in_partitions_sat [OF that] by (auto elim!: sat_mono)
  have reset: "sat E (abtst_reset_streams_stat t) (\<lambda>s'. reb_post s s' \<and>
      (\<forall>k < n_streams s. used (stream_at s k) \<longrightarrow> abtst_stream_get_sleep_time (stream_at s' k) = 0))" if t: "reb_post s t" for t
  proof (rule sat_mono [OF abtst_reset_streams_stat_sat])
    show "reb_inv t" using t by (simp add: reb_post_def)
    fix s' assume "reb_post t s' \<and> load_queue s' = load_queue t \<and>
      (\<forall>k < n_streams t. used (stream_at t k) \<longrightarrow> abtst_stream_get_sleep_time (stream_at s' k) = 0)"
    with t show "reb_post s s' \<and> (\<forall>k < n_streams s. used (stream_at s k) \<longrightarrow> abtst_stream_get_sleep_time (stream_at s' k) = 0)"
      using reb_post_trans [OF t, of s'] by (auto simp: reb_post_def reb_frame_def)
  qed
  have printed: "sat E (rbind (if b then print_stream_qdepth t else Inr []) (\<lambda>_. abtst_reset_streams_stat t)) (\<lambda>s'. reb_post s s' \<and>
      (\<forall>k < n_streams s. used (stream_at s k) \<longrightarrow> abtst_stream_get_sleep_time (stream_at s' k) = 0))" if t: "reb_post s t" for b t
    using print_stream_qdepth_sat [of t E] t reset [OF t] by (auto simp: reb_post_def reb_inv_def reb_base_def elim!: sat_mono)
  show ?thesis
    unfolding reb_pass_def Let_def
    by (intro step abtst_reb_update_stat_sat [OF base] level l3 l2 l1 printed)
qed

end

end
