(* ===== verification/Setup.thy ===== *)
theory Setup
  imports Setup_Env Reb_Pass
begin

text \<open>
  The start of the program leads to a legal state: \<^verbatim>\<open>abtst_init\<close> on a legal machine and
  configuration establishes the invariant \<open>reb_base\<close> that the rebalancer keeps, and
  \<^verbatim>\<open>abtst_create_mapping\<close> keeps it while it adds the loads of a mapping.
\<close>

subsection \<open>Streams\<close>

definition configured :: "int list \<Rightarrow> nat \<Rightarrow> nat \<Rightarrow> abtst_stream" where
  "configured pm i k = (if k < i \<and> pm ! k \<ge> 0 then zero_stream\<lparr>used := True, part_id := pm ! k\<rparr> else zero_stream)"

lemma apply_stream_config_eq:
  assumes n: "unat (nr_cores (env s)) = n" and pm: "length pm = n" and st: "stream_array (streams s) = replicate n zero_stream"
  shows "\<exists>cnt. apply_stream_config s pm = Inr (0, s\<lparr>streams := (streams s)\<lparr>stream_array := map (configured pm n) [0..<n],
    init_xstreams := cnt, nr_xstreams := cnt\<rparr>\<rparr>)"
proof -
  have "\<exists>cnt. for_each (config_stream pm) [0..<i] (s, 0) = Inr (set_streams s (map (configured pm i) [0..<n]), cnt)" if "i \<le> n" for i
    using that
  proof (induction i)
    case 0
    have "map (configured pm 0) [0..<n] = replicate n zero_stream"
      by (intro nth_equalityI) (simp_all add: configured_def)
    then show ?case using st by (simp add: set_streams_def)
  next
    case (Suc i)
    then obtain cnt where IH: "for_each (config_stream pm) [0..<i] (s, 0) = Inr (set_streams s (map (configured pm i) [0..<n]), cnt)"
      by auto
    have i: "i < n" using Suc.prems by simp
    let ?xs = "map (configured pm i) [0..<n]"
    have eq: "map (configured pm (Suc i)) [0..<n] = ?xs[i := configured pm (Suc i) i]"
      using i by (intro nth_equalityI) (auto simp: configured_def nth_list_update less_Suc_eq)
    have "\<exists>cnt'. config_stream pm i (set_streams s ?xs, cnt) = Inr (set_streams s (?xs[i := configured pm (Suc i) i]), cnt')"
      using i pm list_update_id [of ?xs i]
      by (simp add: config_stream_def upd_stream_def get_stream_def set_streams_def) (simp add: configured_def)
    then show ?case using IH by (auto simp: for_each_append eq)
  qed
  from this [of n] obtain cnt where "for_each (config_stream pm) [0..<n] (s, 0) = Inr (set_streams s (map (configured pm n) [0..<n]), cnt)"
    by auto
  then show ?thesis by (auto simp: apply_stream_config_def n set_streams_def)
qed

text \<open>The streams below \<open>i\<close> are initialised; the rest of the state is as before.\<close>

definition booted :: "sys \<Rightarrow> nat \<Rightarrow> sys \<Rightarrow> bool" where
  "booted s0 i s \<longleftrightarrow>
     env s = env s0 \<and> power s = power s0 \<and> rebalance s = rebalance s0 \<and> partitions s = partitions s0 \<and>
     mappings s = mappings s0 \<and> requests s = requests s0 \<and> allocs s = allocs s0 \<and>
     (streams s)\<lparr>stream_array := []\<rparr> = (streams s0)\<lparr>stream_array := []\<rparr> \<and> n_streams s = n_streams s0 \<and>
     (\<forall>k < n_streams s0. used (stream_at s k) = used (stream_at s0 k) \<and> part_id (stream_at s k) = part_id (stream_at s0 k)) \<and>
     (\<forall>k < i. rank (stream_at s k) = of_nat k \<and> nr_loads (stream_at s k) = 0 \<and> dlist (links s) (LoadQ k) [] \<and>
        stat (stream_at s k) = \<lparr>total_qdepth = 0, sleep_nsec = 0\<rparr>)"

definition boot_change :: "sys \<Rightarrow> nat \<Rightarrow> u32 \<Rightarrow> sys \<Rightarrow> bool" where
  "boot_change s k rk s' \<longleftrightarrow> (\<exists>f. s' = set_stream (set_links s (INIT_LIST_HEAD (links s) (LoadQ k))) k f \<and>
     (\<forall>st. used (f st) = used st \<and> part_id (f st) = part_id st \<and> rank (f st) = rk \<and> nr_loads (f st) = 0 \<and>
        stat (f st) = \<lparr>total_qdepth = 0, sleep_nsec = 0\<rparr>))"

lemma set_stream_twice: "k < n_streams s \<Longrightarrow> set_stream (set_stream s k f) k g = set_stream s k (\<lambda>st. g (f st))"
  by (simp add: set_stream_def n_streams_def stream_at_def)

lemma set_links_set_stream': "set_links (set_stream s k f) h = set_stream (set_links s h) k f"
  by (simp add: set_stream_def set_links_def stream_at_def)

lemma boot_changeI:
  "(\<And>st. used (f st) = used st \<and> part_id (f st) = part_id st \<and> rank (f st) = rk \<and> nr_loads (f st) = 0 \<and>
     stat (f st) = \<lparr>total_qdepth = 0, sleep_nsec = 0\<rparr>)
   \<Longrightarrow> boot_change s k rk (set_stream (set_links s (INIT_LIST_HEAD (links s) (LoadQ k))) k f)"
  by (auto simp: boot_change_def)

lemma init_xstream_ok:
  assumes A: "abt_succeeds A" and k: "k < n_streams s"
  shows "\<exists>s' r'. init_xstream A k rk s r = Inr (0, s', r') \<and> boot_change s k rk s'"
proof -
  obtain x1 r1 where 1: "ABT_xstream_self A r = (0, x1, r1)" using abt_succeedsD(5) [OF A] by blast
  obtain p2 r2 where 2: "ABT_xstream_get_main_pools A x1 r1 = (0, p2, r2)" using abt_succeedsD(6) [OF A] by blast
  obtain p3 r3 where 3: "ABT_pool_create_basic A r = (0, p3, r3)" using abt_succeedsD(1) [OF A] by blast
  obtain d4 r4 where 4: "abtst_init_sched A (stream_sched (stream_at s k)) p3 k r3 = (0, d4, r4)"
    using abt_succeedsD(3) [OF A] by blast
  obtain x5 r5 where 5: "ABT_xstream_create_with_rank A d4 rk r4 = (0, x5, r5)" using abt_succeedsD(7) [OF A] by blast
  show ?thesis
    using k 1 2 3 4 5
    by (auto simp: init_xstream_def Let_def set_links_set_stream' set_stream_twice abtst_stream_init_stat_def
        intro!: boot_changeI)
qed

lemma booted_step:
  assumes b: "booted s0 i s" and i: "i < n_streams s0" and c: "boot_change s i (of_nat i) s'"
  shows "booted s0 (Suc i) s'"
proof -
  obtain f where f: "s' = set_stream (set_links s (INIT_LIST_HEAD (links s) (LoadQ i))) i f"
    "\<And>st. used (f st) = used st" "\<And>st. part_id (f st) = part_id st" "\<And>st. rank (f st) = of_nat i"
    "\<And>st. nr_loads (f st) = 0" "\<And>st. stat (f st) = \<lparr>total_qdepth = 0, sleep_nsec = 0\<rparr>"
    using c by (auto simp: boot_change_def)
  have n: "n_streams s = n_streams s0" using b by (simp add: booted_def)
  then have i': "i < n_streams (set_links s h)" for h using i by simp
  have links: "links s' = INIT_LIST_HEAD (links s) (LoadQ i)" by (simp add: f(1))
  have "dlist (links s') (LoadQ k) []" if "k < Suc i" for k
    using that b unfolding links by (cases "k = i") (simp add: dlist_init, auto simp: booted_def INIT_LIST_HEAD_def)
  then show ?thesis
    using b i' f(2-6) n unfolding booted_def
    by (simp add: f(1) less_Suc_eq)
qed

lemma init_xstreams_loop_ok:
  assumes A: "abt_succeeds A" and b: "booted s0 i s" and i: "i \<le> n_streams s0"
  shows "\<exists>s' r'. init_xstreams_loop A [i..<n_streams s0] s r = Inr (0, s', r') \<and> booted s0 (n_streams s0) s'"
  using b i
proof (induction "n_streams s0 - i" arbitrary: i s r)
  case (Suc x)
  then have i: "i < n_streams s0" by simp
  then have "i < n_streams s" using Suc.prems by (simp add: booted_def)
  from init_xstream_ok [OF A this] obtain s1 r1 where s1: "init_xstream A i (of_nat i) s r = Inr (0, s1, r1)"
    "boot_change s i (of_nat i) s1" by blast
  have "\<exists>s' r'. init_xstreams_loop A [Suc i..<n_streams s0] s1 r1 = Inr (0, s', r') \<and> booted s0 (n_streams s0) s'"
    by (rule Suc.hyps(1)) (use Suc.hyps(2) i booted_step [OF Suc.prems(1) i s1(2)] in auto)
  then show ?case using s1(1) i by (simp add: upt_conv_Cons)
qed simp

lemma alloc_ok: "False \<notin> set (allocs s) \<Longrightarrow> \<exists>s'. alloc s = (True, s') \<and> False \<notin> set (allocs s')"
  by (cases "allocs s") (auto simp: alloc_def)

lemma abtst_init_streams_ok:
  assumes A: "abt_succeeds A" and pm: "length (partition_map (partitions s)) = unat (nr_cores (env s))"
    and mem: "False \<notin> set (allocs s)"
  defines "n \<equiv> unat (nr_cores (env s))" and "p \<equiv> partition_map (partitions s)"
  shows "\<exists>s' r'. abtst_init_streams A s r = Inr (0, s', r') \<and> n_streams s' = n \<and> max_xstreams (streams s') = nr_cores (env s) \<and>
    env s' = env s \<and> power s' = power s \<and> rebalance s' = rebalance s \<and> partitions s' = partitions s \<and>
    mappings s' = mappings s \<and> requests s' = requests s \<and> False \<notin> set (allocs s') \<and>
    (\<forall>k < n. used (stream_at s' k) = (p ! k \<ge> 0) \<and> (p ! k \<ge> 0 \<longrightarrow> part_id (stream_at s' k) = p ! k) \<and>
       rank (stream_at s' k) = of_nat k \<and> nr_loads (stream_at s' k) = 0 \<and> dlist (links s') (LoadQ k) [])"
proof -
  let ?s0 = "s\<lparr>streams := (streams s)\<lparr>max_xstreams := nr_cores (env s), init_xstreams := 1, nr_xstreams := 1\<rparr>\<rparr>"
  obtain s1 where s1: "alloc ?s0 = (True, s1)" "False \<notin> set (allocs s1)" using alloc_ok [of ?s0] mem by auto
  note fr = alloc_frame [OF s1(1)]
  have mx: "max_xstreams (streams s1) = nr_cores (env s)" "unat (max_xstreams (streams s1)) = n" by (simp_all add: fr n_def)
  let ?s2 = "set_streams s1 (replicate n zero_stream)"
  obtain cnt where cnt: "apply_stream_config ?s2 p = Inr (0, ?s2\<lparr>streams := (streams ?s2)\<lparr>stream_array := map (configured p n) [0..<n],
      init_xstreams := cnt, nr_xstreams := cnt\<rparr>\<rparr>)"
    using apply_stream_config_eq [of ?s2 n p] pm fr by (auto simp: n_def p_def set_streams_def)
  define s3 where "s3 = ?s2\<lparr>streams := (streams ?s2)\<lparr>stream_array := map (configured p n) [0..<n], init_xstreams := cnt, nr_xstreams := cnt\<rparr>\<rparr>"
  have s3: "n_streams s3 = n" "\<And>k. k < n \<Longrightarrow> stream_at s3 k = configured p n k" "max_xstreams (streams s3) = nr_cores (env s)"
    "allocs s3 = allocs s1"
    by (simp_all add: s3_def n_streams_def stream_at_def set_streams_def mx)
  have "booted s3 0 s3" by (simp add: booted_def)
  from init_xstreams_loop_ok [OF A this] obtain s4 r4 where s4: "init_xstreams_loop A [0..<n] s3 r = Inr (0, s4, r4)" "booted s3 n s4"
    unfolding s3(1) by blast
  have "abtst_init_streams A s r = Inr (0, s4, r4)"
    using s1(1) cnt s4(1) mx(2) s3(3)
    by (simp add: abtst_init_streams_def get_partition_map_def p_def [symmetric] fr(6)
        s3_def [symmetric] n_def [symmetric])
  moreover have "max_xstreams (streams s4) = nr_cores (env s)"
    using s4(2) s3(3) by (auto simp: booted_def dest: arg_cong [where f = max_xstreams])
  moreover have "env s3 = env s" "power s3 = power s" "rebalance s3 = rebalance s" "partitions s3 = partitions s"
    "mappings s3 = mappings s" "requests s3 = requests s" by (simp_all add: s3_def set_streams_def fr)
  ultimately show ?thesis
    using s4(2) s3 s1(2) unfolding booted_def
    by (intro exI [of _ s4] exI [of _ r4]) (auto simp: configured_def zero_stream_def)
qed

subsection \<open>The state after the start\<close>

lemma abtst_init_power_ok:
  assumes len: "length (ps_state (power s)) = MAX_NUMAS" "length (ps_pct (power s)) = MAX_NUMAS"
    and n: "unat (nr_numas (env s)) \<le> MAX_NUMAS"
  shows "\<exists>p. abtst_init_power s = Inr (s\<lparr>power := p\<rparr>) \<and> length (ps_state p) = MAX_NUMAS \<and> length (ps_pct p) = MAX_NUMAS \<and>
    nr_ps_numas p = 0 \<and> \<not> ps_enabled p \<and> (\<forall>i < unat (nr_numas (env s)). \<not> ps_state p ! i \<and> ps_pct p ! i = 0)"
proof -
  let ?f = "\<lambda>i p. rbind (put (ps_state p) i False) (\<lambda>st. rbind (put (ps_pct p) i 0) (\<lambda>pct. Inr (p\<lparr>ps_state := st, ps_pct := pct\<rparr>)))"
  have "\<exists>p. for_each ?f [0..<i] (power s) = Inr p \<and> length (ps_state p) = MAX_NUMAS \<and> length (ps_pct p) = MAX_NUMAS \<and>
      (\<forall>j < i. \<not> ps_state p ! j \<and> ps_pct p ! j = 0)" if "i \<le> MAX_NUMAS" for i
    using that
  proof (induction i)
    case (Suc i)
    then show ?case by (auto simp: for_each_append nth_list_update less_Suc_eq)
  qed (simp add: len)
  from this [OF n] obtain p where "for_each ?f [0..<unat (nr_numas (env s))] (power s) = Inr p" "length (ps_state p) = MAX_NUMAS"
    "length (ps_pct p) = MAX_NUMAS" "\<forall>j < unat (nr_numas (env s)). \<not> ps_state p ! j \<and> ps_pct p ! j = 0" by blast
  then show ?thesis
    by (intro exI [of _ "p\<lparr>ps_enabled := False, nr_ps_numas := 0\<rparr>"]) (simp add: abtst_init_power_def)
qed

text \<open>A machine and a configuration on which the program can run.\<close>

definition legal_machine :: "abtst_env \<Rightarrow> bool" where
  "legal_machine e \<longleftrightarrow> unat (nr_numas e) \<le> MAX_NUMAS \<and> length (numa_info e) = MAX_NUMAS \<and> length (numa_stat e) = MAX_NUMAS \<and>
     unat (nr_cores e) < 2 ^ 31 \<and>
     (\<forall>i < unat (nr_numas e). start_core (numa_info e ! i) \<le> end_core (numa_info e ! i) \<and> end_core (numa_info e ! i) < nr_cores e) \<and>
     (\<forall>i < unat (nr_numas e). \<forall>j < i.
       set (core_range (start_core (numa_info e ! i)) (end_core (numa_info e ! i))) \<inter>
       set (core_range (start_core (numa_info e ! j)) (end_core (numa_info e ! j))) = {})"

definition legal_config :: "abtst_env \<Rightarrow> create_params \<Rightarrow> bool" where
  "legal_config e cp \<longleftrightarrow> (let num = cp_nr_partitions cp; ps = cp_init_partitions cp in
     config_ok (unat (nr_cores e)) num ps \<and> distinct (map snd (config_pairs num ps)) \<and>
     1 \<le> num \<and> nat num \<le> MAX_PARTITIONS \<and> (\<forall>j < nat num. partition_id (ps ! j) < num) \<and>
     (\<forall>i < unat (nr_numas e). \<forall>p < nat num. \<exists>c \<in> set (core_range (start_core (numa_info e ! i)) (end_core (numa_info e ! i))).
       (int p, int c) \<in> set (config_pairs num ps)))"

lemma config_pairs_range:
  assumes "config_ok n num ps" "(p, c) \<in> set (config_pairs num ps)"
  shows "0 \<le> p" "0 \<le> c" "nat c < n"
  using assms by (auto simp: config_pairs_def config_ok_def dest!: in_set_takeD)

lemma config_map_iff:
  assumes ok: "config_ok n num ps" and m: "\<forall>(p, c) \<in> set (config_pairs num ps). m ! nat c = p"
    "\<forall>k < length m. int k \<notin> snd ` set (config_pairs num ps) \<longrightarrow> m ! k = -1" and k: "k < length m"
  shows "0 \<le> m ! k \<and> m ! k = q \<longleftrightarrow> (q, int k) \<in> set (config_pairs num ps)"
proof
  assume a: "0 \<le> m ! k \<and> m ! k = q"
  then obtain q' where "(q', int k) \<in> set (config_pairs num ps)" using m(2) k by force
  moreover from this have "m ! k = q'" using m(1) by force
  ultimately show "(q, int k) \<in> set (config_pairs num ps)" using a by simp
next
  assume a: "(q, int k) \<in> set (config_pairs num ps)"
  then have "m ! k = q" using m(1) by force
  then show "0 \<le> m ! k \<and> m ! k = q" using config_pairs_range(1) [OF ok a] by simp
qed

lemma booted_reb_base:
  assumes e: "legal_machine (env s)" and cp: "legal_config (env s) cp"
    and n: "n_streams s = unat (nr_cores (env s))" "max_xstreams (streams s) = nr_cores (env s)"
    and part: "nr_partitions (partitions s) = cp_nr_partitions cp" "length (partition_map (partitions s)) = n_streams s"
    and pm: "\<forall>(p, c) \<in> set (config_pairs (cp_nr_partitions cp) (cp_init_partitions cp)). partition_map (partitions s) ! nat c = p"
      "\<forall>k < n_streams s. int k \<notin> snd ` set (config_pairs (cp_nr_partitions cp) (cp_init_partitions cp)) \<longrightarrow> partition_map (partitions s) ! k = -1"
    and st: "\<forall>k < n_streams s. used (stream_at s k) = (partition_map (partitions s) ! k \<ge> 0) \<and>
       (partition_map (partitions s) ! k \<ge> 0 \<longrightarrow> part_id (stream_at s k) = partition_map (partitions s) ! k) \<and>
       rank (stream_at s k) = of_nat k \<and> nr_loads (stream_at s k) = 0 \<and> dlist (links s) (LoadQ k) []"
    and pw: "length (ps_state (power s)) = MAX_NUMAS" "length (ps_pct (power s)) = MAX_NUMAS" "nr_ps_numas (power s) = 0"
      "\<forall>i < unat (nr_numas (env s)). \<not> ps_state (power s) ! i"
    and iv: "rebalance_interval (rebalance s) = 1" and loads: "length (all_loads s) < 2 ^ 32"
  shows "reb_base s \<and> (\<forall>k < n_streams s. load_queue s k = [])"
proof -
  let ?xs = "config_pairs (cp_nr_partitions cp) (cp_init_partitions cp)"
  have ok: "config_ok (unat (nr_cores (env s))) (cp_nr_partitions cp) (cp_init_partitions cp)"
    and num: "1 \<le> cp_nr_partitions cp" "nat (cp_nr_partitions cp) \<le> MAX_PARTITIONS"
    and pid: "\<forall>j < nat (cp_nr_partitions cp). partition_id (cp_init_partitions cp ! j) < cp_nr_partitions cp"
    and cov: "\<forall>i < unat (nr_numas (env s)). \<forall>p < nat (cp_nr_partitions cp).
      \<exists>c \<in> set (core_range (start_core (numa_info (env s) ! i)) (end_core (numa_info (env s) ! i))). (int p, int c) \<in> set ?xs"
    using cp by (simp_all add: legal_config_def Let_def)
  have "wf_queues s \<and> (\<forall>k < n_streams s. load_queue s k = [])"
    by (rule wf_queuesI) (use e n(1) st loads in \<open>auto simp: legal_machine_def\<close>)
  then have wf: "wf_queues s" and q: "\<And>k. k < n_streams s \<Longrightarrow> load_queue s k = []" by auto
  have top: "wf_topology s"
    using e n by (simp add: wf_topology_def legal_machine_def n_numas_def numa_at_def numa_cores_def)
  have "0 \<le> part_id (stream_at s k) \<and> part_id (stream_at s k) < cp_nr_partitions cp"
    if k: "k < n_streams s" "used (stream_at s k)" for k
  proof -
    have "partition_map (partitions s) ! k \<ge> 0" using st k by simp
    then obtain p where p: "(p, int k) \<in> set ?xs" using pm(2) k(1) by force
    moreover have "p < cp_nr_partitions cp" using p pid by (auto simp: config_pairs_def)
    ultimately show ?thesis using pm(1) st k config_pairs_range(1) [OF ok p] by fastforce
  qed
  then have parts: "wf_partitions s" using num part by (simp add: wf_partitions_def n_partitions_def)
  have "part_cores s i p \<noteq> []" if i: "i < n_numas s" and p: "p < n_partitions s" for i p
  proof -
    obtain c where c: "c \<in> set (numa_cores s i)" "(int p, int c) \<in> set ?xs"
      using cov i p part(1) by (auto simp: n_numas_def n_partitions_def numa_cores_def numa_at_def)
    then have "c < n_streams s" using numa_cores_bound [OF top i] by blast
    moreover have "partition_map (partitions s) ! c = int p" using pm(1) c(2) by force
    ultimately have "in_part s p c" using st by (simp add: in_part_def)
    then show ?thesis using c(1) by (auto simp: part_cores_def filter_empty_conv)
  qed
  then have "covered s" by (simp add: covered_def)
  moreover have "isolated s" using q by (simp add: isolated_def)
  moreover have "\<And>i k. i < n_numas s \<Longrightarrow> \<not> asleep s i" using pw(4) by (simp add: asleep_def n_numas_def)
  moreover have "wf_power s" using pw iv by (simp add: wf_power_def)
  ultimately show ?thesis
    using wf top parts q pw(3) by (auto simp: reb_base_def ps_quiet_def ps_counted_def filter_empty_conv)
qed

lemma abtst_init_reb_base:
  assumes "abt_succeeds A" and "abtst_init_env M s = Inr s1" and "legal_machine (env s1)" and "legal_config (env s1) cp"
    and "length (ps_state (power s1)) = MAX_NUMAS" and "length (ps_pct (power s1)) = MAX_NUMAS"
    and "length (all_loads s1) < 2 ^ 32" and "False \<notin> set (allocs s1)"
  shows "\<exists>s' r'. abtst_init A M thr (Some cp) s r = Inr (0, s', r') \<and> reb_base s' \<and> env s' = env s1 \<and> mappings s' = mappings s1 \<and>
    (\<forall>k < n_streams s'. load_queue s' k = []) \<and> (\<forall>i < n_numas s'. \<not> asleep s' i) \<and>
    (\<forall>k < n_streams s'. \<forall>p. used (stream_at s' k) \<and> part_id (stream_at s' k) = p \<longleftrightarrow>
      (p, int k) \<in> set (config_pairs (cp_nr_partitions cp) (cp_init_partitions cp))) \<and>
    abtst_get_rebalance_level s' = REBALANCE_LEVEL_IN_PARTITION \<and> dlist (links s') ReqQ [] \<and>
    partition_array (partitions s') = cp_init_partitions cp \<and> False \<notin> set (allocs s')"
proof -
  let ?xs = "config_pairs (cp_nr_partitions cp) (cp_init_partitions cp)"
  have n: "unat (nr_numas (env s1)) \<le> MAX_NUMAS" using assms(3) by (simp add: legal_machine_def)
  have cfg: "config_ok (unat (nr_cores (env s1))) (cp_nr_partitions cp) (cp_init_partitions cp)" "distinct (map snd ?xs)"
    using assms(4) by (simp_all add: legal_config_def Let_def)
  obtain p where p: "abtst_init_power s1 = Inr (s1\<lparr>power := p\<rparr>)" "length (ps_state p) = MAX_NUMAS" "length (ps_pct p) = MAX_NUMAS"
    "nr_ps_numas p = 0" "\<forall>i < unat (nr_numas (env s1)). \<not> ps_state p ! i"
    using abtst_init_power_ok [OF assms(5,6) n] by blast
  let ?s2 = "s1\<lparr>power := p\<rparr>"
  obtain s3 where s3: "alloc ?s2 = (True, s3)" "False \<notin> set (allocs s3)" using alloc_ok [of ?s2] assms(8) by auto
  note fr = alloc_frame [OF s3(1)]
  have "config_ok (unat (nr_cores (env ?s2))) (cp_nr_partitions cp) (cp_init_partitions cp)" using cfg(1) by simp
  from init_partitions_facts [OF this s3(1) cfg(2)]
  obtain m where m: "abtst_init_partitions ?s2 (cp_nr_partitions cp) (cp_init_partitions cp) = Inr (0, s3\<lparr>partitions :=
      (partitions ?s2)\<lparr>nr_partitions := cp_nr_partitions cp, partition_array := cp_init_partitions cp, partition_map := m\<rparr>\<rparr>)"
    "length m = unat (nr_cores (env s1))" "\<forall>(p, c) \<in> set ?xs. m ! nat c = p" "\<forall>k < length m. int k \<notin> snd ` set ?xs \<longrightarrow> m ! k = -1"
    by auto
  define s4 where "s4 = s3\<lparr>partitions := (partitions ?s2)\<lparr>nr_partitions := cp_nr_partitions cp,
    partition_array := cp_init_partitions cp, partition_map := m\<rparr>\<rparr>"
  have s4: "env s4 = env s1" "power s4 = p" "mappings s4 = mappings s1" "allocs s4 = allocs s3"
    "partition_map (partitions s4) = m" "nr_partitions (partitions s4) = cp_nr_partitions cp"
    "partition_array (partitions s4) = cp_init_partitions cp" by (simp_all add: s4_def fr)
  obtain s5 r5 where s5: "abtst_init_streams A s4 r = Inr (0, s5, r5)" "n_streams s5 = unat (nr_cores (env s1))"
    "max_xstreams (streams s5) = nr_cores (env s1)" "env s5 = env s1" "power s5 = p" "partitions s5 = partitions s4"
    "mappings s5 = mappings s1" "False \<notin> set (allocs s5)"
    "\<forall>k < unat (nr_cores (env s1)). used (stream_at s5 k) = (m ! k \<ge> 0) \<and> (m ! k \<ge> 0 \<longrightarrow> part_id (stream_at s5 k) = m ! k) \<and>
       rank (stream_at s5 k) = of_nat k \<and> nr_loads (stream_at s5 k) = 0 \<and> dlist (links s5) (LoadQ k) []"
    using abtst_init_streams_ok [OF assms(1), of s4 r] m(2) s3(2) unfolding s4 by auto
  define s6 where "s6 = snd (abtst_init_rebalance thr s5)"
  have s6: "env s6 = env s1" "power s6 = p" "partitions s6 = partitions s4" "mappings s6 = mappings s1" "n_streams s6 = n_streams s5"
    "streams s6 = streams s5" "stream_at s6 = stream_at s5" "allocs s6 = allocs s5" "links s6 = INIT_LIST_HEAD (links s5) ReqQ"
    "rebalance_interval (rebalance s6) = 1" "rebalance_level (rebalance s6) = REBALANCE_LEVEL_IN_PARTITION"
    using s5 by (simp_all add: s6_def abtst_init_rebalance_def Let_def n_streams_def stream_at_def REBALANCE_DEFAULT_INTERVAL_def fun_eq_iff)
  have dl: "dlist (links s6) (LoadQ k) []" if "k < n_streams s5" for k
    using s5(2,9) that by (simp add: s6(9) INIT_LIST_HEAD_def)
  have al: "all_loads s6 = all_loads s1" using s6(4) by (simp add: all_loads_def)
  have base: "reb_base s6 \<and> (\<forall>k < n_streams s6. load_queue s6 k = [])"
    by (rule booted_reb_base [where cp = cp])
      (use assms(3,4,7) s5 s6 s4 m p dl al in simp_all)
  have used: "used (stream_at s6 k) \<and> part_id (stream_at s6 k) = q \<longleftrightarrow> (q, int k) \<in> set ?xs" if k: "k < n_streams s6" for k q
    using s5(2,9) s6(5,7) k m(2) config_map_iff [OF cfg(1) m(3,4), of k q] by auto
  have "abtst_init A M thr (Some cp) s r = Inr (0, s6, r5)"
    using assms(2) p(1) m(1) s5(1) [unfolded s4_def] by (simp add: abtst_init_def s6_def split: prod.splits)
  moreover have "\<forall>i < n_numas s6. \<not> asleep s6 i" using p(5) s6 by (simp add: n_numas_def asleep_def)
  ultimately show ?thesis using base used s6 s4 s5(8)
    by (intro exI [of _ s6] exI [of _ r5]) (auto simp: abtst_get_rebalance_level_def dlist_init)
qed

subsection \<open>Adding a mapping\<close>

lemma load_partition_set_mapping:
  "m < length (mapping_array (mappings s)) \<Longrightarrow> load_partition (set_mapping s m f) l =
    (if fst l = m then mapping_partition_id (f (mapping_array (mappings s) ! m)) else load_partition s l)"
  by (simp add: load_partition_def)

lemma dealt_load_partition:
  assumes "dealt s0 m cs i s" "fst l < length (mapping_array (mappings s0))"
  shows "load_partition s l = load_partition s0 l"
  using set_load_array_eqD(3) [OF mapping_shapeD(3) [OF dealtD(4) [OF assms(1)] assms(2)]] by (simp add: load_partition_def)

lemma dealt_max_xstreams: "dealt s0 m cs i s \<Longrightarrow> max_xstreams (streams s) = max_xstreams (streams s0)"
  using arg_cong [OF dealtD(5), of s0 m cs i s max_xstreams] by simp

lemma dealt_reb_base:
  assumes base: "reb_base s" and awake: "\<forall>i < n_numas s. \<not> asleep s i"
    and s0: "env s0 = env s" "power s0 = power s" "rebalance s0 = rebalance s" "partitions s0 = partitions s" "streams s0 = streams s"
      "links s0 = links s"
    and old: "\<And>l. fst l \<noteq> m \<Longrightarrow> load_partition s0 l = load_partition s l" "\<And>i. load_partition s0 (m, i) = pid"
    and m: "m < length (mapping_array (mappings s0))" and len: "\<And>k l. k < n_streams s \<Longrightarrow> l \<in> set (load_queue s k) \<Longrightarrow> fst l \<noteq> m \<and> fst l < length (mapping_array (mappings s0))"
    and d: "dealt s0 m cs N s'" and cs: "cs = part_streams s pid" "cs \<noteq> []"
  shows "reb_base s'"
proof -
  have n: "n_streams s0 = n_streams s" "stream_at s0 = stream_at s" "load_queue s0 = load_queue s"
    using s0(5) load_queue_cong [OF s0(6)] by (simp_all add: n_streams_def stream_at_def fun_eq_iff)
  have st: "used (stream_at s' k) = used (stream_at s k) \<and> part_id (stream_at s' k) = part_id (stream_at s k)" if "k < n_streams s" for k
    using nr_loads_eqD [OF dealtD(7) [OF d]] that n by simp
  have fr: "env s' = env s" "power s' = power s" "rebalance s' = rebalance s" "partitions s' = partitions s" "n_streams s' = n_streams s"
    "max_xstreams (streams s') = max_xstreams (streams s)"
    using dealt_max_xstreams [OF d] d s0 n by (simp_all add: dealt_def)
  have v: "n_numas s' = n_numas s" "numa_at s' = numa_at s" "numa_cores s' = numa_cores s" "n_partitions s' = n_partitions s" "asleep s' = asleep s"
    by (simp_all add: n_numas_def numa_at_def numa_cores_def n_partitions_def asleep_def fr fun_eq_iff)
  note b = base [unfolded reb_base_def]
  have "wf_topology s" using b by simp
  then have top: "wf_topology s'" and nc: "\<And>i k. i < n_numas s \<Longrightarrow> k \<in> set (numa_cores s i) \<Longrightarrow> k < n_streams s"
    using fr v numa_cores_bound by (simp_all add: wf_topology_def)
  have pc: "part_cores s' i p = part_cores s i p" if "i < n_numas s" for i p
    using nc [OF that] st unfolding part_cores_def v in_part_def by (intro filter_cong) auto
  have "isolated s'"
    unfolding isolated_def fr
  proof (intro allI impI ballI)
    fix k l assume k: "k < n_streams s" "used (stream_at s' k)" and l: "l \<in> set (load_queue s' k)"
    then have "l \<in> set (dealt_to m cs N k) \<or> l \<in> set (load_queue s k)" using dealtD(6) [OF d] n by auto
    then show "load_partition s' l = part_id (stream_at s' k)"
    proof
      assume "l \<in> set (load_queue s k)"
      then show ?thesis using b k st old(1) len [OF k(1)] dealt_load_partition [OF d] by (auto simp: isolated_def)
    next
      assume a: "l \<in> set (dealt_to m cs N k)"
      then obtain i where i: "l = (m, i)" "cs ! (i mod length cs) = k"
        using dealt_to_mem [of "fst l" "snd l" m cs N k] by (metis prod.collapse)
      then have "k \<in> set cs" using cs(2) by (metis length_greater_0_conv mod_less_divisor nth_mem)
      then have "part_id (stream_at s k) = pid" by (simp add: cs(1) part_streams_def)
      then show ?thesis using i old(2) st k(1) m dealt_load_partition [OF d, of l] by simp
    qed
  qed
  moreover have "covered s'" using b pc v by (simp add: covered_def)
  moreover have "wf_partitions s'" using b fr v st by (simp add: wf_partitions_def)
  moreover have "wf_power s'" using b fr by (simp add: wf_power_def)
  moreover have "ps_counted s'" using b v fr by (simp add: ps_counted_def)
  ultimately show ?thesis using top dealtD(1) [OF d] awake v by (simp add: reb_base_def ps_quiet_def)
qed

text \<open>The number of loads of a new mapping, and what is known of a mapping once it is created.\<close>

definition new_loads :: "sys \<Rightarrow> int \<Rightarrow> int \<Rightarrow> u32" where
  "new_loads s kind pid = (if kind = 0 then word_of_int (part_nr_cores (partition_array (partitions s) ! nat pid)) * LOADS_PER_XSTREAM
     else nr_cores (env s) div 2)"

definition mapping_ready :: "sys \<Rightarrow> nat \<Rightarrow> int \<Rightarrow> hash_info option \<Rightarrow> int \<Rightarrow> nat \<Rightarrow> bool" where
  "mapping_ready s m kind params pid N \<longleftrightarrow> m < length (mapping_array (mappings s)) \<and> (let mp = mapping_array (mappings s) ! m in
     mapping_ops mp = Some (if kind = 0 then MAPPING_TYPE_HASHING else MAPPING_TYPE_RANDOM) \<and> param mp = params \<and>
     mapping_partition_id mp = pid \<and> unat (loads_nr (mapping_loads mp)) = N \<and> length (load_array (mapping_loads mp)) = N)"

text \<open>A free slot for a mapping: the next one, with no load of it queued.\<close>

definition free_slot :: "sys \<Rightarrow> nat \<Rightarrow> bool" where
  "free_slot s m \<longleftrightarrow> nr_mappings (mappings s) = int m \<and> m < MAX_MAPPINGS \<and> length (mapping_array (mappings s)) = MAX_MAPPINGS \<and>
     (\<forall>k < n_streams s. \<forall>l \<in> set (load_queue s k). fst l \<noteq> m)"

definition with_mapping :: "sys \<Rightarrow> nat \<Rightarrow> int \<Rightarrow> hash_info option \<Rightarrow> int \<Rightarrow> sys" where
  "with_mapping s m kind params pid = set_mapping (s\<lparr>mappings := (mappings s)\<lparr>nr_mappings := int m + 1\<rparr>\<rparr>) m
     (\<lambda>mp. mp\<lparr>mapping_id := int m, mapping_partition_id := pid, mapping_kind := word_of_int kind, param := params,
       mapping_ops := Some (if kind = 0 then MAPPING_TYPE_HASHING else MAPPING_TYPE_RANDOM),
       mapping_loads := (mapping_loads mp)\<lparr>loads_nr := new_loads s kind pid, loads_partition_id := pid\<rparr>\<rparr>)"

lemma create_mapping_unfold:
  assumes slot: "free_slot s m" and kind: "kind = 0 \<or> kind = 1" and pid: "0 \<le> pid" "nat pid < length (partition_array (partitions s))"
  shows "abtst_create_mapping A s r kind params pid =
    rbind (abtst_init_loads A m (with_mapping s m kind params pid) r) (\<lambda>(ret, s, r).
      if ret \<noteq> 0 then Inr (-1, s, r)
      else rbind (idx (mapping_array (mappings s)) m) (\<lambda>mp. rbind (init_mapping mp) (\<lambda>ret. Inr (if ret \<noteq> 0 then -1 else int m, s, r))))"
proof -
  have m: "nr_mappings (mappings s) = int m" "m < MAX_MAPPINGS" "m < length (mapping_array (mappings s))"
    using slot by (simp_all add: free_slot_def)
  show ?thesis
    using m kind pid
    by (auto simp: abtst_create_mapping_def get_mapping_id_def configure_mapping_def set_mapping_set_mapping
        with_mapping_def new_loads_def set_mapping_def cong: if_cong)
qed

lemma with_mapping_facts:
  assumes "free_slot s m"
  shows "load_queue (with_mapping s m kind params pid) = load_queue s" "streams (with_mapping s m kind params pid) = streams s"
    "n_streams (with_mapping s m kind params pid) = n_streams s" "env (with_mapping s m kind params pid) = env s"
    "power (with_mapping s m kind params pid) = power s" "rebalance (with_mapping s m kind params pid) = rebalance s"
    "partitions (with_mapping s m kind params pid) = partitions s" "links (with_mapping s m kind params pid) = links s"
    "allocs (with_mapping s m kind params pid) = allocs s" "stream_at (with_mapping s m kind params pid) = stream_at s"
    "length (mapping_array (mappings (with_mapping s m kind params pid))) = MAX_MAPPINGS"
    "fst l \<noteq> m \<Longrightarrow> load_partition (with_mapping s m kind params pid) l = load_partition s l"
    "load_partition (with_mapping s m kind params pid) (m, i) = pid"
    "valid_load (with_mapping s m kind params pid) = valid_load s" "load_at (with_mapping s m kind params pid) = load_at s"
  using assms
  by (auto simp: with_mapping_def set_mapping_def free_slot_def load_queue_def n_streams_def stream_at_def load_partition_def
      valid_load_def load_at_def fun_eq_iff nth_list_update)

lemma part_streams_nonempty:
  assumes "wf_topology s" "covered s" "0 < n_numas s" "0 \<le> pid" "pid < nr_partitions (partitions s)"
  shows "part_streams s pid \<noteq> []"
proof -
  have "part_cores s 0 (nat pid) \<noteq> []" using assms(2-5) by (simp add: covered_def n_partitions_def)
  then obtain c where "c \<in> set (part_cores s 0 (nat pid))" by (meson list.set_sel(1))
  then have "c < n_streams s" "in_part s (nat pid) c"
    using numa_cores_bound [OF assms(1,3)] by (auto simp: part_cores_def)
  then show ?thesis using assms(4) by (auto simp: part_streams_def in_part_def filter_empty_conv)
qed

lemma with_mapping_array:
  "free_slot s m \<Longrightarrow> mapping_array (mappings (with_mapping s m kind params pid)) ! m =
    (mapping_array (mappings s) ! m)\<lparr>mapping_id := int m, mapping_partition_id := pid,
      mapping_kind := word_of_int kind, param := params,
      mapping_ops := Some (if kind = 0 then MAPPING_TYPE_HASHING else MAPPING_TYPE_RANDOM),
      mapping_loads := (mapping_loads (mapping_array (mappings s) ! m))\<lparr>loads_nr := new_loads s kind pid, loads_partition_id := pid\<rparr>\<rparr>"
  by (simp add: with_mapping_def set_mapping_def free_slot_def)

lemma with_mapping_init_loads:
  fixes params :: "hash_info option"
  assumes A: "abt_succeeds A" and base: "reb_base s" and slot: "free_slot s m" and ne: "part_streams s pid \<noteq> []"
    and mem: "False \<notin> set (allocs s)" and bound: "length (all_loads s) + unat (new_loads s kind pid) < 2 ^ 32"
  defines "w \<equiv> with_mapping s m kind params pid" and "N \<equiv> unat (new_loads s kind pid)"
  shows "\<exists>s1 s' r'. alloc w = (True, s1) \<and> abtst_init_loads A m w r = Inr (0, s', r') \<and>
    dealt (set_mapping s1 m (set_load_array (replicate N zero_load))) m (part_streams s pid) N s'"
proof -
  note wm = with_mapping_facts [OF slot, where kind = kind and params = params and pid = pid, folded w_def]
  note mp = with_mapping_array [OF slot, of kind params pid, folded w_def]
  have m: "m < MAX_MAPPINGS" "length (mapping_array (mappings s)) = MAX_MAPPINGS"
    and free: "\<And>k l. k < n_streams s \<Longrightarrow> l \<in> set (load_queue s k) \<Longrightarrow> fst l \<noteq> m" using slot by (auto simp: free_slot_def)
  obtain s1 where s1: "alloc w = (True, s1)" using alloc_ok [of w] mem wm(9) by auto
  have al: "all_loads w = all_loads s" by (rule all_loads_cong) (simp_all add: wm m)
  have wq: "wf_queues w" using base wf_queues_cong [of w s] by (simp add: wm al reb_base_def)
  have mx: "unat (max_xstreams (streams w)) = n_streams w" using base by (simp add: wm wf_topology_def reb_base_def)
  have "\<exists>s' r'. abtst_init_loads A m w r = Inr (0, s', r') \<and>
      dealt (set_mapping s1 m (set_load_array (replicate N zero_load))) m (part_streams s pid) N s'"
    by (rule abtst_init_loads_ok [OF A wq mx _ _ ne _ _ _ s1])
      (use m free bound in \<open>simp_all add: wm mp al N_def, simp_all add: part_streams_def wm\<close>)
  then show ?thesis using s1 by blast
qed

lemma create_mapping_dealt:
  assumes "abt_succeeds A" and "reb_base s" and "\<forall>i < n_numas s. \<not> asleep s i" and "0 < n_numas s" and "free_slot s m"
    and "kind = 0 \<or> kind = 1" and "0 \<le> pid" and "pid < nr_partitions (partitions s)"
    and "nat pid < length (partition_array (partitions s))" and "False \<notin> set (allocs s)"
    and "length (all_loads s) + unat (new_loads s kind pid) < 2 ^ 32"
  shows "\<exists>s' r'. abtst_create_mapping A s r kind params pid = Inr (int m, s', r') \<and> reb_base s' \<and>
    mapping_ready s' m kind params pid (unat (new_loads s kind pid)) \<and> part_streams s pid \<noteq> [] \<and>
    (\<forall>i < unat (new_loads s kind pid). placed_load (load_at s' (m, i)) i (part_streams s pid ! (i mod length (part_streams s pid)))) \<and>
    (\<forall>k < n_streams s. load_queue s' k = dealt_to m (part_streams s pid) (unat (new_loads s kind pid)) k @ load_queue s k) \<and>
    (\<forall>k < n_streams s. used (stream_at s' k) = used (stream_at s k) \<and> part_id (stream_at s' k) = part_id (stream_at s k)) \<and> n_streams s' = n_streams s"
proof -
  let ?w = "with_mapping s m kind params pid" and ?N = "unat (new_loads s kind pid)" and ?cs = "part_streams s pid"
  note wm = with_mapping_facts [OF assms(5), where kind = kind and params = params and pid = pid]
  note mp = with_mapping_array [OF assms(5), of kind params pid]
  have b: "wf_queues s" "wf_topology s" "covered s" using assms(2) by (simp_all add: reb_base_def)
  have m: "m < MAX_MAPPINGS" "length (mapping_array (mappings s)) = MAX_MAPPINGS"
    and free: "\<And>k l. k < n_streams s \<Longrightarrow> l \<in> set (load_queue s k) \<Longrightarrow> fst l \<noteq> m" using assms(5) by (auto simp: free_slot_def)
  have ne: "?cs \<noteq> []" by (rule part_streams_nonempty [OF b(2,3) assms(4,7,8)])
  obtain s1 s' r' where s1: "alloc ?w = (True, s1)" and s': "abtst_init_loads A m ?w r = Inr (0, s', r')"
    "dealt (set_mapping s1 m (set_load_array (replicate ?N zero_load))) m ?cs ?N s'"
    using with_mapping_init_loads [OF assms(1,2,5) ne assms(10,11), of params r] by blast
  note fr = alloc_frame [OF s1]
  let ?s2 = "set_mapping s1 m (set_load_array (replicate ?N zero_load))"
  have m2: "m < length (mapping_array (mappings s1))" using m wm(11) fr(4) by simp
  have q: "fst l \<noteq> m \<and> fst l < length (mapping_array (mappings ?s2))" if "k < n_streams s" "l \<in> set (load_queue s k)" for k l
    using that free wf_queuesD(4) [OF b(1) that] m wm(11) fr(4) by (simp add: valid_load_def)
  have lp: "load_partition ?s2 l = (if fst l = m then pid else load_partition s l)" for l
    using m2 wm(12) [of l] wm(13) [of "snd l"] fr(13)
    by (cases l) (simp add: load_partition_set_mapping set_load_array_def, simp add: fr mp)
  have "reb_base s'"
    by (rule dealt_reb_base [OF assms(2,3) _ _ _ _ _ _ _ _ _ q s'(2) refl ne]) (use m2 lp in \<open>simp_all add: fr wm\<close>)
  moreover have ready: "mapping_ready s' m kind params pid ?N"
  proof -
    let ?mp = "mapping_array (mappings s') ! m"
    have len: "m < length (mapping_array (mappings s'))" using mapping_shapeD(1) [OF dealtD(4) [OF s'(2)]] m2 by simp
    have "i < length (load_array (mapping_loads ?mp)) \<longleftrightarrow> i < ?N" for i
      using fun_cong [OF dealtD(3) [OF s'(2)], of "(m, i)"] len m2 by (simp add: valid_load_def set_load_array_def)
    then have "length (load_array (mapping_loads ?mp)) = ?N" by (meson linorder_neqE_nat order_less_irrefl)
    moreover have "mapping_array (mappings s1) ! m = mapping_array (mappings ?w) ! m" by (simp add: fr)
    ultimately show ?thesis
      using set_load_array_eqD [OF mapping_shapeD(3) [OF dealtD(4) [OF s'(2)], of m]] m2 len
      by (simp add: mapping_ready_def Let_def mp) (simp add: set_load_array_def mp)
  qed
  moreover have "abtst_create_mapping A s r kind params pid = Inr (int m, s', r')"
    using create_mapping_unfold [OF assms(5-7,9), of A r params] s'(1) ready
    by (auto simp: mapping_ready_def Let_def init_mapping_def hash_mapping_init_def random_mapping_init_def)
  ultimately show ?thesis
    using ne s'(2) dealtD(6,7) [OF s'(2)] nr_loads_eqD by (auto simp: dealt_def fr wm)
qed

end
