(* ===== verification/Sample.thy ===== *)
theory Sample
  imports Setup
begin

text \<open>
  A small machine in a legal state, on which the properties are instantiated: two NUMA nodes
  of two cores each, two partitions with one core in each node, a mapping with two loads in
  partition 0 and one with a single load in partition 1. Load \<open>(0, 0)\<close> has three requests
  in flight. Power saving is off, every level of rebalancing is on and prints.
\<close>

definition sample_stream :: "nat \<Rightarrow> int \<Rightarrow> u32 \<Rightarrow> abtst_stream" where
  "sample_stream k p n = \<lparr>rank = of_nat k, used = True, part_id = p, xstream = 0, stream_pool = 0,
     stream_sched = 0, nr_loads = n, blocking = False, stat = \<lparr>total_qdepth = 0, sleep_nsec = 0\<rparr>\<rparr>"

definition sample_load :: "int \<Rightarrow> u64 \<Rightarrow> nat \<Rightarrow> abtst_load" where
  "sample_load i started k = \<lparr>load_id = i, load_used = True, pkt_started = started, pkt_ended = 0,
     init_rank = of_nat k, curr_rank = of_nat k, dest_rank = of_nat k, load_pool = 0, load_sched = 0\<rparr>"

definition sample_mapping :: "int \<Rightarrow> abtst_load list \<Rightarrow> abtst_mapping" where
  "sample_mapping p ls = \<lparr>mapping_id = p, mapping_partition_id = p, mapping_kind = 0, param = None,
     mapping_ops = Some MAPPING_TYPE_HASHING,
     mapping_loads = \<lparr>loads_partition_id = p, loads_nr = of_nat (length ls), load_array = ls\<rparr>\<rparr>"

definition sample_links :: links where
  "sample_links = [
     LoadQ 0 \<mapsto> \<lparr>lh_next = LoadNode (0, 0), lh_prev = LoadNode (0, 1)\<rparr>,
     LoadNode (0, 0) \<mapsto> \<lparr>lh_next = LoadNode (0, 1), lh_prev = LoadQ 0\<rparr>,
     LoadNode (0, 1) \<mapsto> \<lparr>lh_next = LoadQ 0, lh_prev = LoadNode (0, 0)\<rparr>,
     LoadQ 1 \<mapsto> \<lparr>lh_next = LoadQ 1, lh_prev = LoadQ 1\<rparr>,
     LoadQ 2 \<mapsto> \<lparr>lh_next = LoadQ 2, lh_prev = LoadQ 2\<rparr>,
     LoadQ 3 \<mapsto> \<lparr>lh_next = LoadNode (1, 0), lh_prev = LoadNode (1, 0)\<rparr>,
     LoadNode (1, 0) \<mapsto> \<lparr>lh_next = LoadQ 3, lh_prev = LoadQ 3\<rparr>]"

definition sample_queue :: "nat \<Rightarrow> lptr list" where
  "sample_queue k = (if k = 0 then [(0, 0), (0, 1)] else if k = 3 then [(1, 0)] else [])"

definition sample :: sys where
  "sample = \<lparr>
     env = \<lparr>nr_cores = 4, nr_numas = 2,
       numa_info = \<lparr>start_core = 0, end_core = 1\<rparr> # \<lparr>start_core = 2, end_core = 3\<rparr> #
         replicate 6 \<lparr>start_core = 0, end_core = 0\<rparr>,
       numa_stat = replicate 8 \<lparr>numa_used_cores = 2, avg_qdepth = 0\<rparr>, rebalance_enabled = False, stopping = False\<rparr>,
     power = \<lparr>ps_state = replicate 8 False, ps_pct = replicate 8 0, ps_enabled = False, nr_ps_numas = 0\<rparr>,
     streams = \<lparr>nr_xstreams = 4, init_xstreams = 4, max_xstreams = 4,
       stream_array = [sample_stream 0 0 2, sample_stream 1 1 0, sample_stream 2 0 0, sample_stream 3 1 1]\<rparr>,
     mappings = \<lparr>nr_mappings = 2, mapping_array =
       [sample_mapping 0 [sample_load 0 3 0, sample_load 1 0 0], sample_mapping 1 [sample_load 0 1 3],
        sample_mapping 0 [], sample_mapping 0 [], sample_mapping 0 [], sample_mapping 0 [], sample_mapping 0 [], sample_mapping 0 []]\<rparr>,
     rebalance = \<lparr>rebalance_level = 3, rebalance_interval = 1, reb_lock = 0, verbose = 2\<rparr>,
     partitions = \<lparr>nr_partitions = 2,
       partition_array = [\<lparr>partition_id = 0, part_nr_cores = 2, partition_cores = [0, 2]\<rparr>,
         \<lparr>partition_id = 1, part_nr_cores = 2, partition_cores = [1, 3]\<rparr>],
       partition_map = [0, 1, 0, 1],
       numa_stats = replicate 8 (replicate 8 \<lparr>part_used_cores = 1, part_qdepth = 0\<rparr>),
       part_stats = replicate 8 \<lparr>part_used_cores = 2, part_qdepth = 0\<rparr>\<rparr>,
     links = sample_links, requests = Map.empty, allocs = []\<rparr>"

lemmas sample_defs = sample_def sample_stream_def sample_load_def sample_mapping_def

lemma sample_views:
  "n_streams sample = 4" "n_numas sample = 2" "n_partitions sample = 2" "links sample = sample_links"
  "numa_cores sample 0 = [0, 1]" "numa_cores sample (Suc 0) = [2, 3]"
  by (simp_all add: sample_defs n_streams_def n_numas_def n_partitions_def numa_cores_def numa_at_def core_range_def
      upt_rec)

lemma sample_fields:
  "stream_array (streams sample) = [sample_stream 0 0 2, sample_stream 1 1 0, sample_stream 2 0 0, sample_stream 3 1 1]"
  "mapping_array (mappings sample) =
     [sample_mapping 0 [sample_load 0 3 0, sample_load 1 0 0], sample_mapping 1 [sample_load 0 1 3],
        sample_mapping 0 [], sample_mapping 0 [], sample_mapping 0 [], sample_mapping 0 [], sample_mapping 0 [], sample_mapping 0 []]"
  by (simp_all add: sample_def)

lemmas sample_parts = sample_fields sample_stream_def sample_load_def sample_mapping_def

lemma less_4_cases: "(k < (4::nat)) = (k = 0 \<or> k = 1 \<or> k = 2 \<or> k = 3)"
  by auto

lemma less_2_cases': "(k < (2::nat)) = (k = 0 \<or> k = 1)"
  by auto

lemma sample_dlist: "k < 4 \<Longrightarrow> dlist sample_links (LoadQ k) (map LoadNode (sample_queue k))"
  by (auto simp: less_4_cases dlist_def sample_links_def sample_queue_def nexts_def prevs_def)

lemma sample_loads: "length (all_loads sample) = 3"
  by (simp add: sample_defs all_loads_def)

lemma sample_wf_queues: "wf_queues sample" and sample_load_queue: "k < 4 \<Longrightarrow> load_queue sample k = sample_queue k"
proof -
  have "wf_queues sample \<and> (\<forall>k < n_streams sample. load_queue sample k = sample_queue k)"
  proof (rule wf_queuesI)
    fix k assume k: "k < n_streams sample"
    show "dlist (links sample) (LoadQ k) (map LoadNode (sample_queue k))"
      using k sample_dlist by (simp add: sample_views)
    show "nr_loads (stream_at sample k) = of_nat (length (sample_queue k))" "rank (stream_at sample k) = of_nat k"
      using k by (auto simp: sample_views less_4_cases stream_at_def sample_parts sample_queue_def)
    fix l assume "l \<in> set (sample_queue k)"
    then show "valid_load sample l \<and> dest_rank (load_at sample l) = of_nat k"
      using k by (auto simp: sample_views sample_queue_def valid_load_def load_at_def sample_parts split: if_splits)
  qed (simp_all add: sample_views sample_loads)
  then show "wf_queues sample" "k < 4 \<Longrightarrow> load_queue sample k = sample_queue k" by (auto simp: sample_views)
qed

lemma sample_used: "k < 4 \<Longrightarrow> used (stream_at sample k) \<and> part_id (stream_at sample k) = int (k mod 2)"
  by (auto simp: less_4_cases stream_at_def sample_parts)

lemma sample_wf_topology: "wf_topology sample"
proof -
  have "\<forall>i < 2. start_core (numa_at sample i) \<le> end_core (numa_at sample i) \<and> end_core (numa_at sample i) < nr_cores (env sample)"
    by (auto simp: less_2_cases' numa_at_def sample_def)
  moreover have "\<forall>i < 2. \<forall>j < i. set (numa_cores sample i) \<inter> set (numa_cores sample j) = {}"
    by (auto simp: less_2_cases' sample_views)
  ultimately show ?thesis
    unfolding wf_topology_def sample_views by (simp add: sample_def MAX_NUMAS_def)
qed

lemma sample_part_cores: "part_cores sample 0 0 = [0]" "part_cores sample 0 (Suc 0) = [1]"
  "part_cores sample (Suc 0) 0 = [2]" "part_cores sample (Suc 0) (Suc 0) = [3]"
  using sample_used [of 0] sample_used [of 1] sample_used [of 2] sample_used [of 3]
  by (simp_all add: part_cores_def in_part_def sample_views)

lemma sample_reb_base: "reb_base sample"
proof -
  have "wf_partitions sample"
    using sample_used unfolding wf_partitions_def sample_views by (simp add: sample_def MAX_PARTITIONS_def)
  moreover have "covered sample"
    unfolding covered_def sample_views less_2_cases' using sample_part_cores by auto
  moreover have "wf_power sample" by (simp add: wf_power_def sample_def MAX_NUMAS_def)
  moreover have "isolated sample"
    unfolding isolated_def sample_views less_4_cases
    by (auto simp: sample_load_queue sample_queue_def load_partition_def stream_at_def sample_parts)
  moreover have asl: "\<not> asleep sample i" if "i < 2" for i using that by (auto simp: less_2_cases' asleep_def sample_def)
  then have "ps_quiet sample" by (simp add: ps_quiet_def sample_views)
  moreover have "filter (asleep sample) [0..<2] = []" using asl by (simp add: filter_empty_conv)
  then have "ps_counted sample" using asl by (simp add: ps_counted_def sample_views) (simp add: sample_def)
  ultimately show ?thesis by (simp add: reb_base_def sample_wf_queues sample_wf_topology)
qed

lemma reb_sorterI: "qsort_contract qs \<Longrightarrow> reb_sorter qs"
  by (simp add: reb_sorter_def)

lemma no_failed_alloc: "False \<notin> set (allocs s) \<Longrightarrow> mem_ok {} s"
  by (simp add: mem_ok_def)

lemma sample_allocs: "False \<notin> set (allocs sample)"
  by (simp add: sample_def)

text \<open>
  The sample with work for \<^verbatim>\<open>abtst_rebalance_streams\<close>: the second load of stream 0 has a request
  in flight too, and the depth of the stream has been measured.
\<close>

definition busy_sample :: sys where
  "busy_sample = set_stream (set_load sample (0, 1) abtst_load_inc_started) 0 (abtst_stream_update_qdepth 4)"

lemma busy_sample_queues:
  "wf_queues busy_sample" "n_streams busy_sample = 4" "load_queue busy_sample 0 = [(0, 0), (0, 1)]" "allocs busy_sample = []"
proof -
  have n: "n_streams sample = 4" and "valid_load sample (0, 1)"
    by (simp_all add: sample_views valid_load_def sample_parts)
  then have "wf_queues (set_load sample (0, 1) abtst_load_inc_started)"
    "load_queue (set_load sample (0, 1) abtst_load_inc_started) 0 = [(0, 0), (0, 1)]"
    using wf_queues_count [OF sample_wf_queues, of "(0, 1)" abtst_load_inc_started] sample_load_queue [of 0]
    by (auto simp: abtst_load_inc_started_def sample_queue_def)
  then have "requeued (set_load sample (0, 1) abtst_load_inc_started) 0 1 [] busy_sample"
    unfolding busy_sample_def by (intro requeued_set_qdepth requeued_Nil) (simp_all add: n)
  then show "wf_queues busy_sample" "load_queue busy_sample 0 = [(0, 0), (0, 1)]"
    using \<open>load_queue _ 0 = _\<close> n by (auto simp: requeued_def)
  show "n_streams busy_sample = 4" by (simp add: busy_sample_def n)
  show "allocs busy_sample = []" by (simp add: busy_sample_def) (simp add: sample_def)
qed

lemma busy_sample_loads:
  "load_size busy_sample (0, 0) = 3" "load_size busy_sample (0, Suc 0) = 1"
  "\<not> foreign busy_sample (0, 0)" "\<not> foreign busy_sample (0, Suc 0)"
proof -
  have "load_at sample (0, 0) = sample_load 0 3 0" "load_at sample (0, Suc 0) = sample_load 1 0 0" "valid_load sample (0, Suc 0)"
    by (simp_all add: load_at_def valid_load_def sample_fields sample_mapping_def)
  then show "load_size busy_sample (0, 0) = 3" "load_size busy_sample (0, Suc 0) = 1"
    "\<not> foreign busy_sample (0, 0)" "\<not> foreign busy_sample (0, Suc 0)"
    by (simp_all add: busy_sample_def load_size_def foreign_def abtst_load_inc_started_def abtst_get_load_size_def sample_load_def)
qed

lemma busy_sample_depths: "depth_at busy_sample 0 = 4" "depth_at busy_sample 2 = 0"
  using sample_views(1)
  by (simp_all add: busy_sample_def) (simp add: stream_at_def sample_fields sample_stream_def abtst_stream_get_qdepth_def)

lemma busy_sample_moved: "moved_loads busy_sample 0 2 2 = [(0, 1)]" "loads_size busy_sample [(0, 1)] = 1"
  using busy_sample_loads
  by (simp_all add: moved_loads_def chosen_loads_def Let_def busy_sample_depths busy_sample_queues word_less_nat_alt word_le_nat_alt
     load_size_def)

end
