(* ===== verification/Reb_Req.thy ===== *)
theory Reb_Req
  imports Setup
begin

text \<open>
  Requests to the rebalancer: \<^verbatim>\<open>src/rebalance/reb_req.c\<close> and the two handlers at the
  start of \<^verbatim>\<open>src/rebalance/rebalance.c\<close>. A request object is named by the number of its
  allocation; it lives in \<open>requests\<close> and its list head is the node \<open>ReqNode\<close> of that
  number. The queue \<^verbatim>\<open>req_q\<close> is guarded by the spin lock of the rebalancer. The
  handling loop gives the lock back while it handles a request, so other threads may submit
  requests meanwhile: the calls they make are an argument of the loop.
\<close>

subsection \<open>Handlers: rebalance.c\<close>

definition abtst_reb_process_add_core :: "'r argobots \<Rightarrow> int \<Rightarrow> sys \<Rightarrow> 'r \<Rightarrow> (sys \<times> 'r) res" where
  "abtst_reb_process_add_core A core s r =
     (if core < 0 then Inl OutOfBounds
      else rbind (get_stream s (nat core)) (\<lambda>st.
        if used st then Inr (s, r)
        else if rank st \<noteq> word_of_int core then Inl AssertFail
        else rbind (upd_stream s (nat core) (\<lambda>st. st\<lparr>used := True\<rparr>)) (\<lambda>s.
          rbind (init_xstream A (nat core) (word_of_int core) s r) (\<lambda>(ret, s, r). Inr (s, r)))))"

text \<open>The body of the loop that collects the other streams in use of the node.\<close>

definition collect_other :: "sys \<Rightarrow> nat option \<Rightarrow> nat \<Rightarrow> nat \<times> sort_param list \<Rightarrow> (nat \<times> sort_param list) res" where
  "collect_other s from i acc =
     rbind (get_stream s i) (\<lambda>st.
     if \<not> used st then Inr acc
     else if from = Some i then Inr acc
     else rbind (put (snd acc) (fst acc) \<lparr>ios = abtst_stream_get_qdepth st, sp_stream = StreamPtr i\<rparr>)
       (\<lambda>ps. Inr (Suc (fst acc), ps)))"

text \<open>The two streams of the combination; without \<open>from\<close>, the first two of the sorted array.\<close>

definition remove_pair :: "nat option \<Rightarrow> sort_param list \<Rightarrow> (nat \<times> nat) res" where
  "remove_pair from params =
     rbind (rbind (idx params 0) (\<lambda>p. deref_stream (sp_stream p))) (\<lambda>k0. case from of
       Some f \<Rightarrow> Inr (f, k0)
     | None \<Rightarrow> rbind (rbind (idx params 1) (\<lambda>p. deref_stream (sp_stream p))) (\<lambda>k1. Inr (k0, k1)))"

text \<open>
  After the loop over the node's cores the variable \<^verbatim>\<open>stream\<close> points to the stream of the
  node's last core; that is the stream which is joined, freed and marked unused.
\<close>

definition release_stream :: "'r argobots \<Rightarrow> nat \<Rightarrow> sys \<Rightarrow> 'r \<Rightarrow> (sys \<times> 'r) res" where
  "release_stream A k s r =
     rbind (get_stream s k) (\<lambda>st.
     case ABT_xstream_join A (xstream st) r of (ret, r) \<Rightarrow>
     case ABT_xstream_free A (xstream st) r of (ret, x, r) \<Rightarrow>
     case abtst_free_sched A (stream_sched st) r of (d, r) \<Rightarrow>
     rbind (upd_stream s k (\<lambda>st. st\<lparr>xstream := x, stream_sched := d, used := False\<rparr>)) (\<lambda>s. Inr (s, r)))"

definition remove_from_node ::
    "'r argobots \<Rightarrow> sort_param sorter \<Rightarrow> nat option \<Rightarrow> abtst_numa \<Rightarrow> sys \<Rightarrow> 'r \<Rightarrow> (sys \<times> 'r) res" where
  "remove_from_node A qs from info s r =
     (case calloc_params s (sint (end_core info - start_core info + 1)) of (p, s) \<Rightarrow>
      case p of None \<Rightarrow> Inr (s, r) | Some params \<Rightarrow>
      rbind (for_each (collect_other s from) (core_range (start_core info) (end_core info)) (0, params)) (\<lambda>(cnt, params).
      if cnt = 0 then Inr (s, r)
      else
        rbind (remove_pair from (qsort_params qs params cnt)) (\<lambda>(from, to).
        rbind (abtst_combine_streams s from to) (\<lambda>(ret, s).
        if ret \<noteq> 0 then Inr (s, r) else release_stream A (unat (end_core info)) s r))))"

text \<open>The test \<^verbatim>\<open>core >= env.nr_cores\<close> compares without sign, so it is true of a negative core.\<close>

definition abtst_reb_process_remove_core ::
    "'r argobots \<Rightarrow> sort_param sorter \<Rightarrow> int \<Rightarrow> sys \<Rightarrow> 'r \<Rightarrow> (sys \<times> 'r) res" where
  "abtst_reb_process_remove_core A qs core s r =
     rbind (abtst_env_get_numa_id s (word_of_int core)) (\<lambda>numa_id.
     rbind (abtst_get_numa_info s (word_of_int numa_id)) (\<lambda>info.
     if word_of_int core \<ge> nr_cores (env s) then Inr (s, r)
     else if core \<ge> 0
     then rbind (get_stream s (nat core)) (\<lambda>st.
       if \<not> used st then Inr (s, r)
       else rbind (nonnull info) (\<lambda>info. remove_from_node A qs (Some (nat core)) info s r))
     else rbind (nonnull info) (\<lambda>info. remove_from_node A qs None info s r)))"

subsection \<open>The queue: reb_req.c\<close>

definition set_lock :: "sys \<Rightarrow> int \<Rightarrow> sys" where
  "set_lock s v = s\<lparr>rebalance := (rebalance s)\<lparr>reb_lock := v\<rparr>\<rparr>"

definition lock_requests :: "sys \<Rightarrow> sys res" where
  "lock_requests s = rbind (spin_lock (reb_lock (rebalance s))) (\<lambda>v. Inr (set_lock s v))"

definition unlock_requests :: "sys \<Rightarrow> sys" where
  "unlock_requests s = set_lock s (spin_unlock (reb_lock (rebalance s)))"

text \<open>
  The common part of the two functions that submit a request, from the \<^verbatim>\<open>malloc\<close> on;
  \<open>a\<close> names the new object.
\<close>

definition new_request :: "nat \<Rightarrow> abtst_reb_request \<Rightarrow> sys \<Rightarrow> sys" where
  "new_request a req s =
     (set_links s (INIT_LIST_HEAD (links s) (ReqNode a)))\<lparr>requests := (requests s)(a \<mapsto> req)\<rparr>"

definition submit_request :: "nat \<Rightarrow> abtst_reb_request \<Rightarrow> sys \<Rightarrow> (int \<times> sys) res" where
  "submit_request a req s =
     (case alloc s of (ok, s) \<Rightarrow>
      if \<not> ok then Inr (-1, s)
      else
        rbind (lock_requests (new_request a req s)) (\<lambda>s.
        rbind (list_add_tail (links s) (ReqNode a) ReqQ) (\<lambda>h.
        Inr (0, unlock_requests (set_links s h)))))"

definition abtst_reb_req_add_core :: "nat \<Rightarrow> sys \<Rightarrow> int \<Rightarrow> (int \<times> sys) res" where
  "abtst_reb_req_add_core a s core =
     (if core \<le> 0 \<or> word_of_int core \<ge> nr_cores (env s) then Inr (-1, s)
      else submit_request a \<lparr>req_type = REB_REQUEST_ADD_CORE, req_core = core\<rparr> s)"

definition abtst_reb_req_remove_core :: "nat \<Rightarrow> sys \<Rightarrow> int \<Rightarrow> (int \<times> sys) res" where
  "abtst_reb_req_remove_core a s core =
     (if core \<ge> sint (nr_cores (env s)) then Inr (-1, s)
      else submit_request a \<lparr>req_type = REB_REQUEST_REM_CORE, req_core = core\<rparr> s)"

definition process_request ::
    "'r argobots \<Rightarrow> sort_param sorter \<Rightarrow> abtst_reb_request \<Rightarrow> sys \<Rightarrow> 'r \<Rightarrow> (sys \<times> 'r) res" where
  "process_request A qs req s r = (case req_type req of
     REB_REQUEST_ADD_CORE \<Rightarrow> abtst_reb_process_add_core A (req_core req) s r
   | REB_REQUEST_REM_CORE \<Rightarrow> abtst_reb_process_remove_core A qs (req_core req) s r)"

text \<open>A call of another thread, with the name of the object it allocates.\<close>

type_synonym reb_call = "nat \<times> abtst_reb_request"

definition other_call :: "reb_call \<Rightarrow> sys \<Rightarrow> sys res" where
  "other_call c s =
     rbind (case req_type (snd c) of
         REB_REQUEST_ADD_CORE \<Rightarrow> abtst_reb_req_add_core (fst c) s (req_core (snd c))
       | REB_REQUEST_REM_CORE \<Rightarrow> abtst_reb_req_remove_core (fst c) s (req_core (snd c))) (\<lambda>(ret, s).
     Inr s)"

definition get_request :: "sys \<Rightarrow> nat \<Rightarrow> abtst_reb_request res" where
  "get_request s a = (case requests s a of None \<Rightarrow> Inl InvalidPtr | Some req \<Rightarrow> Inr req)"

definition free_request :: "nat \<Rightarrow> sys \<Rightarrow> sys" where
  "free_request a s = (set_links s ((links s)(ReqNode a := None)))\<lparr>requests := (requests s)(a := None)\<rparr>"

text \<open>
  The loop of \<^verbatim>\<open>abtst_reb_process_requests\<close>, with the variables \<^verbatim>\<open>pos\<close> and
  \<^verbatim>\<open>n\<close> of the macro \<^verbatim>\<open>list_for_each_safe\<close>. \<open>arr\<close> holds, for each round, the calls
  that other threads make while the lock is given back. Besides the state, the model returns
  the requests handled, in order. As other threads may keep the loop busy, it has a budget.
\<close>

fun process_loop ::
    "nat \<Rightarrow> (abtst_reb_request \<Rightarrow> sys \<Rightarrow> 'r \<Rightarrow> (sys \<times> 'r) res) \<Rightarrow> reb_call list list \<Rightarrow> node \<Rightarrow> node \<Rightarrow> sys \<Rightarrow> 'r
     \<Rightarrow> (abtst_reb_request list \<times> sys \<times> 'r) res" where
  "process_loop fuel handle arr pos n s r =
     (if pos = ReqQ then Inr ([], s, r)
      else if fuel = 0 then Inl Diverge
      else
        rbind (list_del (links s) pos) (\<lambda>h.
        rbind (list_entry_req pos) (\<lambda>a.
        rbind (get_request s a) (\<lambda>req.
        rbind (handle req (unlock_requests (set_links s h)) r) (\<lambda>(s, r).
        rbind (for_each other_call (concat (take 1 arr)) s) (\<lambda>s.
        rbind (lock_requests (free_request a s)) (\<lambda>s.
        rbind (get_next (links s) n) (\<lambda>n'.
        rbind (process_loop (fuel - 1) handle (drop 1 arr) n n' s r) (\<lambda>(done_reqs, s, r).
        Inr (req # done_reqs, s, r))))))))))"

declare process_loop.simps [simp del]

definition abtst_reb_process_requests ::
    "'r argobots \<Rightarrow> sort_param sorter \<Rightarrow> reb_call list list \<Rightarrow> sys \<Rightarrow> 'r \<Rightarrow> (abtst_reb_request list \<times> sys \<times> 'r) res" where
  "abtst_reb_process_requests A qs arr s r =
     rbind (lock_requests s) (\<lambda>s.
     rbind (get_next (links s) ReqQ) (\<lambda>pos.
     rbind (get_next (links s) pos) (\<lambda>n.
     rbind (process_loop list_bound (process_request A qs) arr pos n s r) (\<lambda>(done_reqs, s, r).
     Inr (done_reqs, unlock_requests s, r)))))"

end
