(* ===== verification/Reb_Req_Inv.thy ===== *)
theory Reb_Req_Inv
  imports Reb_Req
begin

text \<open>
  The handlers of core requests and the order in which requests are handled. \<open>req_base\<close> is
  what the handlers rely on and keep. The interface \<open>request_handler\<close> says what the loop of
  \<^verbatim>\<open>abtst_reb_process_requests\<close> needs of the handler; the loop's order of handling is
  proved from it.
\<close>

subsection \<open>The node of a core\<close>

lemma find_numa_filter:
  assumes "set is \<subseteq> {..<length info}"
  shows "find_numa info core is =
    Inr (case filter (\<lambda>i. start_core (info ! i) \<le> core \<and> core \<le> end_core (info ! i)) is of [] \<Rightarrow> -1 | i # _ \<Rightarrow> int i)"
  using assms by (induction "is") auto

lemma core_in_node:
  assumes "k < 2 ^ 32"
  shows "k \<in> set (numa_cores s i) \<longleftrightarrow> start_core (numa_at s i) \<le> of_nat k \<and> of_nat k \<le> end_core (numa_at s i)"
  using assms by (auto simp: numa_cores_def core_range_def word_le_nat_alt)

lemma filter_only:
  assumes "i < n" and "Q i" and "\<And>j. j < n \<Longrightarrow> Q j \<Longrightarrow> j = i"
  shows "\<exists>js. filter Q [0..<n] = i # js"
proof (cases "filter Q [0..<n]")
  case Nil
  then show ?thesis using assms(1,2) by (auto simp: filter_empty_conv)
next
  case (Cons j js)
  then have "j \<in> set (filter Q [0..<n])" by simp
  then have "j = i" by (intro assms(3)) simp_all
  then show ?thesis using Cons by simp
qed

lemma get_numa_id_node:
  assumes top: "wf_topology s" and i: "i < n_numas s" and k: "k \<in> set (numa_cores s i)"
  shows "abtst_env_get_numa_id s (of_nat k) = Inr (int i)"
proof -
  let ?P = "\<lambda>j. start_core (numa_info (env s) ! j) \<le> of_nat k \<and> of_nat k \<le> end_core (numa_info (env s) ! j)"
  have kn: "k < 2 ^ 32" using numa_cores_bound [OF top i k] top by (simp add: wf_topology_def)
  have P: "?P j \<longleftrightarrow> k \<in> set (numa_cores s j)" for j using core_in_node [OF kn] by (simp add: numa_at_def)
  have "j = i" if "j < n_numas s" "k \<in> set (numa_cores s j)" for j
    using numa_cores_disjoint [OF top that(1) i] that(2) k disjoint_iff by metis
  then obtain js where js: "filter ?P [0..<n_numas s] = i # js"
    using filter_only [of i "n_numas s" "\<lambda>j. k \<in> set (numa_cores s j)"] i k unfolding P by blast
  have "set [0..<n_numas s] \<subseteq> {..<length (numa_info (env s))}" using top by (auto simp: wf_topology_def)
  from find_numa_filter [OF this, of "of_nat k"] js show ?thesis
    by (simp add: abtst_env_get_numa_id_def n_numas_def)
qed

lemma get_numa_id_total: "wf_topology s \<Longrightarrow> \<exists>j. abtst_env_get_numa_id s c = Inr j"
  unfolding abtst_env_get_numa_id_def by (subst find_numa_filter) (auto simp: wf_topology_def n_numas_def)

lemma get_numa_info_total: "wf_topology s \<Longrightarrow> \<exists>p. abtst_get_numa_info s c = Inr p"
  by (auto simp: abtst_get_numa_info_def wf_topology_def n_numas_def not_le word_less_nat_alt)

subsection \<open>Adding a core\<close>

lemma init_xstream_changes:
  assumes k: "k < n_streams s"
  shows "\<exists>ret s' r'. init_xstream A k rk s r = Inr (ret, s', r') \<and> boot_change s k rk s'"
  using k
  by (auto simp: init_xstream_def Let_def set_links_set_stream' set_stream_twice abtst_stream_init_stat_def
      split: prod.splits intro!: boot_changeI)

definition req_base :: "nat \<Rightarrow> sys \<Rightarrow> bool" where
  "req_base N s \<longleftrightarrow> wf_queues s \<and> wf_topology s \<and> n_streams s = N \<and>
     (\<forall>k < N. \<exists>i < n_numas s. k \<in> set (numa_cores s i))"

text \<open>What a handler leaves alone: the requests, their queue and the lock.\<close>

definition req_frame :: "sys \<Rightarrow> sys \<Rightarrow> bool" where
  "req_frame s s' \<longleftrightarrow> req_kept s s' \<and> requests s' = requests s \<and> rebalance s' = rebalance s \<and>
     env s' = env s \<and> set (allocs s') \<subseteq> set (allocs s)"

lemma req_frame_refl [simp]: "req_frame s s"
  by (simp add: req_frame_def)

lemma req_frame_trans: "req_frame s t \<Longrightarrow> req_frame t u \<Longrightarrow> req_frame s u"
  by (auto simp: req_frame_def intro: req_kept_trans)

lemma req_frame_set_stream [simp]: "req_frame s (set_stream s k f)"
  by (simp add: req_frame_def)

lemma requeued_req_frame: "requeued s from to ms s' \<Longrightarrow> req_frame s s'"
  by (auto simp: requeued_def req_frame_def same_shape_def)

lemma req_base_requeued: "req_base N s \<Longrightarrow> requeued s from to ms s' \<Longrightarrow> req_base N s'"
  by (auto simp: req_base_def requeued_def same_shape_topology same_shapeD)

lemma req_base_set_stream:
  assumes "req_base N s" and "k < N" and "\<And>st. rank (f st) = rank st" and "\<And>st. nr_loads (f st) = nr_loads st"
  shows "req_base N (set_stream s k f)"
proof -
  have "wf_queues (set_stream s k f) = wf_queues s"
    using assms by (intro wf_queues_cong) (auto simp: req_base_def)
  then show ?thesis using assms(1) by (simp add: req_base_def)
qed

lemma dlist_init_other: "x \<noteq> q \<Longrightarrow> x \<notin> set xs \<Longrightarrow> dlist (INIT_LIST_HEAD h x) q xs = dlist h q xs"
  by (simp add: INIT_LIST_HEAD_def)

lemma boot_change_base:
  assumes base: "req_base N s" and k: "k < N" and c: "boot_change s k (of_nat k) s'"
  shows "req_base N s' \<and> req_frame s s' \<and> load_queue s' k = [] \<and> (\<forall>j < N. j \<noteq> k \<longrightarrow> load_queue s' j = load_queue s j)"
proof -
  let ?h = "INIT_LIST_HEAD (links s) (LoadQ k)"
  obtain f where f: "s' = set_stream (set_links s ?h) k f" "\<And>st. rank (f st) = of_nat k" "\<And>st. nr_loads (f st) = 0"
    using c by (auto simp: boot_change_def)
  have wf: "wf_queues s" and n: "n_streams s = N" using base by (auto simp: req_base_def)
  have v: "n_streams s' = n_streams s" "links s' = ?h" "valid_load s' = valid_load s" "load_at s' = load_at s" "all_loads s' = all_loads s"
    by (simp_all add: f(1))
  have "wf_queues s' \<and> (\<forall>j < n_streams s'. load_queue s' j = (if j = k then [] else load_queue s j))"
  proof (rule wf_queuesI)
    fix j assume "j < n_streams s'"
    then have j: "j < n_streams s" by (simp add: v)
    show "dlist (links s') (LoadQ j) (map LoadNode (if j = k then [] else load_queue s j))"
      using wf_queuesD(1) [OF wf j] dlist_init_other [of "LoadQ k" "LoadQ j" "map LoadNode (load_queue s j)" "links s"] unfolding v by (auto simp: dlist_init)
    show "nr_loads (stream_at s' j) = of_nat (length (if j = k then [] else load_queue s j))"
      "rank (stream_at s' j) = of_nat j"
      using wf_queuesD(2,3) [OF wf j] j k n f by auto
    fix l assume "l \<in> set (if j = k then [] else load_queue s j)"
    then show "valid_load s' l \<and> dest_rank (load_at s' l) = of_nat j"
      using wf_queuesD(4,5) [OF wf j] by (auto simp: v split: if_splits)
  qed (use wf in \<open>simp_all add: v wf_queues_def\<close>)
  moreover have "req_kept s s'"
  proof -
    have "dlist ?h ReqQ (map ReqNode ids) = dlist (links s) ReqQ (map ReqNode ids)" for ids
      by (intro dlist_init_other) auto
    then show ?thesis by (simp add: req_kept_def v)
  qed
  moreover have "wf_topology s' = wf_topology s" "n_numas s' = n_numas s" "numa_cores s' = numa_cores s"
    unfolding f(1) by (simp_all add: wf_topology_def numa_at_def n_numas_def numa_cores_def fun_eq_iff)
  ultimately show ?thesis
    using base n k by (simp add: req_base_def req_frame_def f(1))
qed

text \<open>What adding an unused core does: the stream is in use, with an empty queue and fresh statistics.\<close>

definition core_added :: "sys \<Rightarrow> nat \<Rightarrow> sys \<Rightarrow> bool" where
  "core_added s k s' \<longleftrightarrow> used (stream_at s' k) \<and> part_id (stream_at s' k) = part_id (stream_at s k) \<and>
     load_queue s' k = [] \<and> stat (stream_at s' k) = \<lparr>total_qdepth = 0, sleep_nsec = 0\<rparr> \<and>
     (\<forall>j < n_streams s. j \<noteq> k \<longrightarrow> stream_at s' j = stream_at s j \<and> load_queue s' j = load_queue s j)"

lemma process_add_core:
  assumes base: "req_base N s" and k: "k < N"
  shows "\<exists>s' r'. abtst_reb_process_add_core A (int k) s r = Inr (s', r') \<and> req_base N s' \<and> req_frame s s' \<and>
    (if used (stream_at s k) then s' = s else core_added s k s')"
proof (cases "used (stream_at s k)")
  case True
  then show ?thesis using base k by (simp add: abtst_reb_process_add_core_def req_base_def)
next
  case False
  let ?t = "set_stream s k (\<lambda>st. st\<lparr>used := True\<rparr>)"
  have n: "n_streams s = N" and wf: "wf_queues s" using base by (auto simp: req_base_def)
  have t: "req_base N ?t" by (rule req_base_set_stream [OF base k]) simp_all
  obtain ret s' r' where i: "init_xstream A k (of_nat k) ?t r = Inr (ret, s', r')" and c: "boot_change ?t k (of_nat k) s'"
    using init_xstream_changes [of k ?t A "of_nat k" r] k n by auto
  note b = boot_change_base [OF t k c]
  have "core_added s k s'"
    using c k n b by (auto simp: core_added_def boot_change_def)
  moreover have "abtst_reb_process_add_core A (int k) s r = Inr (s', r')"
    using False k n i wf_queuesD(3) [OF wf, of k] by (simp add: abtst_reb_process_add_core_def)
  moreover have "req_frame s s'" using b req_frame_trans [OF req_frame_set_stream] by blast
  ultimately show ?thesis using b False by auto
qed

subsection \<open>Removing a core\<close>

text \<open>The other streams in use of the node of a core.\<close>

definition node_others :: "sys \<Rightarrow> nat \<Rightarrow> nat \<Rightarrow> nat list" where
  "node_others s i k = filter (\<lambda>j. used (stream_at s j) \<and> j \<noteq> k) (numa_cores s i)"

definition last_core :: "sys \<Rightarrow> nat \<Rightarrow> nat" where
  "last_core s i = unat (end_core (numa_at s i))"

lemma last_core_in: "wf_topology s \<Longrightarrow> i < n_numas s \<Longrightarrow> last_core s i \<in> set (numa_cores s i)"
  by (auto simp: last_core_def numa_cores_def core_range_def wf_topology_def word_le_nat_alt)

lemma collect_others_loop:
  assumes "wf_topology s" "i < n_numas s"
  shows "for_each (collect_other s (Some k)) (numa_cores s i) (0, replicate (length (numa_cores s i)) null_param)
    = Inr (length (node_others s i k), map (stream_param s) (node_others s i k) @
        replicate (length (numa_cores s i) - length (node_others s i k)) null_param)"
  unfolding node_others_def
proof (rule collect_loop0)
  fix j acc assume "j \<in> set (numa_cores s i)"
  then show "collect_other s (Some k) j acc = (if used (stream_at s j) \<and> j \<noteq> k
      then rbind (put (snd acc) (fst acc) (stream_param s j)) (\<lambda>ps. Inr (Suc (fst acc), ps)) else Inr acc)"
    using numa_cores_bound [OF assms] by (auto simp: collect_other_def stream_param_def)
qed simp

text \<open>
  The effect of the removal: nothing, if the array could not be had or no other stream of the
  node is in use; otherwise all loads of the core go to the least busy other stream of the node,
  and the stream of the node's last core is taken out of use.
\<close>

definition core_removed :: "sys \<Rightarrow> nat \<Rightarrow> nat \<Rightarrow> sys \<Rightarrow> bool" where
  "core_removed s i k s' \<longleftrightarrow>
     (\<exists>to \<in> set (node_others s i k). (\<forall>j \<in> set (node_others s i k). sint (depth_at s to) \<le> sint (depth_at s j)) \<and>
       (\<exists>t x d. requeued s k to (load_queue s k) t \<and>
         s' = set_stream t (last_core s i) (\<lambda>st. st\<lparr>xstream := x, stream_sched := d, used := False\<rparr>)))"

lemma release_stream_eq:
  "k < n_streams s \<Longrightarrow> \<exists>x d r'. release_stream A k s r =
     Inr (set_stream s k (\<lambda>st. st\<lparr>xstream := x, stream_sched := d, used := False\<rparr>), r')"
  by (auto simp: release_stream_def split: prod.splits)

lemma node_size:
  assumes top: "wf_topology s" and i: "i < n_numas s"
  shows "sint (end_core (numa_at s i) - start_core (numa_at s i) + 1) = int (length (numa_cores s i))"
proof -
  let ?n = "length (numa_cores s i)" and ?a = "start_core (numa_at s i)" and ?b = "end_core (numa_at s i)"
  have le: "unat ?a \<le> unat ?b" by (rule sint_core(3) [OF top i])
  then have n: "unat ?b + 1 = unat ?a + ?n" by (simp add: numa_cores_def core_range_def)
  have "of_nat (unat ?b + 1) = (of_nat (unat ?a + ?n) :: u32)" by (simp only: n)
  then have "?b - ?a + 1 = of_nat ?n" by (simp add: algebra_simps)
  moreover have "?n < 2147483648" using length_numa_cores [OF top i] top by (simp add: wf_topology_def)
  moreover from this have "uint (of_nat ?n :: u32) = int ?n" by (simp add: uint_nat)
  ultimately show ?thesis using sint_small [of "of_nat ?n"] by simp
qed

lemma process_remove_core_idle:
  assumes base: "req_base N s" and core: "core < int N" "- (2 ^ 31) \<le> core"
    and idle: "core < 0 \<or> \<not> used (stream_at s (nat core))"
  shows "abtst_reb_process_remove_core A qs core s r = Inr (s, r)"
proof -
  have top: "wf_topology s" and n: "n_streams s = N" using base by (auto simp: req_base_def)
  have nc: "unat (nr_cores (env s)) = N" and N: "N < 2 ^ 31" using top n by (auto simp: wf_topology_def)
  have "nr_cores (env s) \<le> word_of_int core" if neg: "core < 0"
  proof -
    have "uint (word_of_int core :: u32) = (core + 2 ^ 32) mod 2 ^ 32" by (simp add: uint_word_of_int)
    also have "\<dots> = core + 2 ^ 32" using neg core(2) by (intro mod_pos_pos_trivial) simp_all
    finally have "uint (word_of_int core :: u32) = core + 2 ^ 32" .
    moreover have "uint (nr_cores (env s)) = int N" by (metis nc uint_nat)
    moreover have "int N < 2147483648" "- 2147483648 \<le> core" using N core(2) by simp_all
    ultimately show ?thesis unfolding word_le_def by simp
  qed
  moreover obtain j p where "abtst_env_get_numa_id s (word_of_int core) = Inr j" "abtst_get_numa_info s (word_of_int j) = Inr p"
    using get_numa_id_total [OF top] get_numa_info_total [OF top] by meson
  ultimately show ?thesis using idle n core(1) by (auto simp: abtst_reb_process_remove_core_def)
qed

context reb_sorter
begin

lemma remove_pair_others:
  assumes "xs \<noteq> []"
  shows "\<exists>to \<in> set xs. remove_pair (Some k) (qsort_params qs (map (stream_param s) xs @ replicate n null_param) (length xs)) = Inr (k, to) \<and>
    (\<forall>j \<in> set xs. sint (depth_at s to) \<le> sint (depth_at s j))"
proof -
  obtain ks where ks: "arranged (depth_at s) xs ks" "qs cmp_func (map (stream_param s) xs) = map (stream_param s) ks"
    using qs_arranged [of "stream_param s" "depth_at s"] by (auto simp: ptr_num_def)
  note a = arrangedD [OF ks(1)]
  have ne: "ks \<noteq> []" "0 < length xs" using a(2) assms by auto
  have "remove_pair (Some k) (qsort_params qs (map (stream_param s) xs @ replicate n null_param) (length xs)) = Inr (k, ks ! 0)"
    using ne by (simp add: remove_pair_def qsort_params_def ks(2) nth_append deref_stream_def)
  moreover have "sint (depth_at s (ks ! 0)) \<le> sint (depth_at s j)" if "j \<in> set xs" for j
  proof -
    have "j \<in> set ks" using that a(1) by simp
    then obtain m where "m < length ks" "j = ks ! m" by (auto simp: in_set_conv_nth)
    then show ?thesis using a(2) a(4) [of 0 m] by (cases m) auto
  qed
  moreover have "ks ! 0 \<in> set xs" using ne(1) a(1) by (metis length_greater_0_conv nth_mem)
  ultimately show ?thesis by blast
qed

lemma remove_from_node_sat:
  assumes wf: "wf_queues s" and top: "wf_topology s" and mem: "mem_ok E s"
    and i: "i < n_numas s" and k: "k \<in> set (numa_cores s i)"
  shows "sat E (remove_from_node A qs (Some k) (numa_at s i) s r)
    (\<lambda>(s', r'). (if node_others s i k \<noteq> [] \<and> fst (alloc s) then core_removed s i k s' else \<exists>b. alloc s = (b, s')))"
proof -
  let ?xs = "node_others s i k" and ?len = "length (numa_cores s i)"
  obtain ok t where al: "alloc s = (ok, t)" by (cases "alloc s")
  note fr = alloc_frame [OF al]
  have len: "sint (end_core (numa_at s i) - start_core (numa_at s i) + 1) = int ?len" by (rule node_size [OF top i])
  have range: "core_range (start_core (numa_at s i)) (end_core (numa_at s i)) = numa_cores s i" by (simp add: numa_cores_def)
  have "collect_other t = collect_other s" by (auto simp: fun_eq_iff collect_other_def get_stream_def fr)
  note loop = collect_others_loop [OF top i, of k, folded this]
  show ?thesis
  proof (cases "ok \<and> ?xs \<noteq> []")
    case False
    then show ?thesis
      using al loop by (auto simp: remove_from_node_def calloc_params_def len range)
  next
    case True
    obtain to where to: "to \<in> set ?xs" "remove_pair (Some k) (qsort_params qs (map (stream_param s) ?xs @
        replicate (?len - length ?xs) null_param) (length ?xs)) = Inr (k, to)"
      "\<forall>j \<in> set ?xs. sint (depth_at s to) \<le> sint (depth_at s j)"
      using remove_pair_others [of ?xs k s] True by blast
    have ft: "k < n_streams t" "to < n_streams t" "k \<noteq> to"
      using numa_cores_bound [OF top i] k to(1) by (auto simp: node_others_def fr)
    have lc: "last_core s i < n_streams t" using numa_cores_bound [OF top i last_core_in [OF top i]] by (simp add: fr)
    have "sat E (abtst_combine_streams t k to) (\<lambda>(ret, u). ret = 0 \<and> requeued s k to (load_queue s k) u)"
      by (rule sat_mono [OF abtst_combine_streams_sat [OF wf_queues_alloc [OF al wf] mem_ok_shape [OF mem same_shape_alloc [OF al]] ft]])
        (use requeued_alloc [OF al] ft(1) in \<open>auto simp: fr\<close>)
    moreover have "sat E (release_stream A (last_core s i) u r) (\<lambda>(s', r'). core_removed s i k s')"
      if u: "requeued s k to (load_queue s k) u" for u
    proof -
      have "last_core s i < n_streams u" using u lc by (auto simp: requeued_def same_shape_def fr)
      from release_stream_eq [OF this, of A r] obtain x d r' where "release_stream A (last_core s i) u r =
          Inr (set_stream u (last_core s i) (\<lambda>st. st\<lparr>xstream := x, stream_sched := d, used := False\<rparr>), r')" by blast
      then show ?thesis unfolding core_removed_def using u to(1,3) by auto
    qed
    ultimately show ?thesis
      using True al loop to(2)
      by (auto simp: remove_from_node_def calloc_params_def len range last_core_def elim!: sat_mono)
  qed
qed

lemma process_remove_core_used:
  assumes wf: "wf_queues s" and top: "wf_topology s"
    and i: "i < n_numas s" and k: "k \<in> set (numa_cores s i)" and u: "used (stream_at s k)"
  shows "abtst_reb_process_remove_core A qs (int k) s r = remove_from_node A qs (Some k) (numa_at s i) s r"
proof -
  have kn: "k < n_streams s" by (rule numa_cores_bound [OF top i k])
  then have "\<not> nr_cores (env s) \<le> of_nat k" using top by (simp add: wf_topology_def word_le_nat_alt)
  then show ?thesis
    using get_numa_id_node [OF top i k] top i kn u by (simp add: abtst_reb_process_remove_core_def)
qed

lemma core_removed_base:
  assumes base: "req_base N s" and k: "k < N" and i: "i < n_numas s" and rem: "core_removed s i k s'"
  shows "req_base N s' \<and> req_frame s s'"
proof -
  obtain to t x d where t: "requeued s k to (load_queue s k) t"
    "s' = set_stream t (last_core s i) (\<lambda>st. st\<lparr>xstream := x, stream_sched := d, used := False\<rparr>)"
    using rem by (auto simp: core_removed_def)
  have "wf_topology s" "n_streams s = N" using base by (auto simp: req_base_def)
  then have "last_core s i < N" using numa_cores_bound [OF _ i last_core_in [OF _ i]] by auto
  then have "req_base N s'" unfolding t(2) by (intro req_base_set_stream req_base_requeued [OF base t(1)]) simp_all
  then show ?thesis using req_frame_trans [OF requeued_req_frame [OF t(1)] req_frame_set_stream] t(2) by simp
qed

lemma alloc_base: "alloc s = (b, s') \<Longrightarrow> req_base N s \<Longrightarrow> req_base N s' \<and> req_frame s s'"
  using same_shape_topology [OF same_shape_alloc] alloc_subset
  by (auto simp: req_base_def req_frame_def wf_queues_alloc alloc_frame)

lemma process_remove_core_sat:
  assumes base: "req_base N s" and mem: "mem_ok E s" and core: "core < int N" "- (2 ^ 31) \<le> core"
  shows "sat E (abtst_reb_process_remove_core A qs core s r) (\<lambda>(s', r'). req_base N s' \<and> req_frame s s')"
proof -
  have wf: "wf_queues s" and top: "wf_topology s" and n: "n_streams s = N" using base by (auto simp: req_base_def)
  show ?thesis
  proof (cases "0 \<le> core \<and> used (stream_at s (nat core))")
    case True
    define k where "k = nat core"
    have k: "core = int k" "k < N" "used (stream_at s k)" using True core(1) by (auto simp: k_def)
    obtain i where i: "i < n_numas s" "k \<in> set (numa_cores s i)" using base k(2) by (auto simp: req_base_def)
    show ?thesis
      unfolding k(1) process_remove_core_used [OF wf top i k(3)]
      by (rule sat_mono [OF remove_from_node_sat [OF wf top mem i]])
        (use core_removed_base [OF base k(2) i(1)] alloc_base [OF _ base] in \<open>auto split: if_splits\<close>)
  next
    case False
    then show ?thesis using process_remove_core_idle [OF base core, of A qs r] base by auto
  qed
qed

end

subsection \<open>The queue of requests\<close>

text \<open>\<open>ids\<close> are the objects in the queue, \<open>queued_reqs\<close> the requests they hold.\<close>

definition req_queue :: "sys \<Rightarrow> nat list \<Rightarrow> bool" where
  "req_queue s ids \<longleftrightarrow> dlist (links s) ReqQ (map ReqNode ids) \<and> (\<forall>a \<in> set ids. requests s a \<noteq> None)"

definition queued_reqs :: "sys \<Rightarrow> nat list \<Rightarrow> abtst_reb_request list" where
  "queued_reqs s ids = map (\<lambda>a. the (requests s a)) ids"

lemma req_queue_distinct: "req_queue s ids \<Longrightarrow> distinct ids"
  by (auto simp: req_queue_def dlist_def distinct_map)

text \<open>Two states that differ at most in the requests, their queue, the lock and the allocations.\<close>

definition same_but_reqs :: "sys \<Rightarrow> sys \<Rightarrow> bool" where
  "same_but_reqs s s' \<longleftrightarrow> env s' = env s \<and> power s' = power s \<and> streams s' = streams s \<and> mappings s' = mappings s \<and>
     partitions s' = partitions s \<and> (\<forall>k. links s' (LoadQ k) = links s (LoadQ k)) \<and>
     (\<forall>l. links s' (LoadNode l) = links s (LoadNode l)) \<and> set (allocs s') \<subseteq> set (allocs s)"

lemma same_but_reqs_refl [simp]: "same_but_reqs s s"
  by (simp add: same_but_reqs_def)

lemma same_but_reqs_trans: "same_but_reqs s t \<Longrightarrow> same_but_reqs t u \<Longrightarrow> same_but_reqs s u"
  by (auto simp: same_but_reqs_def)

lemma same_but_reqs_views:
  assumes "same_but_reqs s s'"
  shows "n_streams s' = n_streams s" "stream_at s' = stream_at s" "valid_load s' = valid_load s" "load_at s' = load_at s"
    "all_loads s' = all_loads s" "wf_topology s' = wf_topology s" "numa_cores s' = numa_cores s" "n_numas s' = n_numas s"
  using assms
  by (simp_all add: same_but_reqs_def n_streams_def stream_at_def valid_load_def load_at_def all_loads_def
      wf_topology_def numa_at_def numa_cores_def n_numas_def fun_eq_iff)

lemma req_base_same_but_reqs:
  assumes eq: "same_but_reqs s s'" and base: "req_base N s"
  shows "req_base N s'"
proof -
  note v = same_but_reqs_views [OF eq]
  have wf: "wf_queues s" using base by (simp add: req_base_def)
  have "wf_queues s' \<and> (\<forall>k < n_streams s'. load_queue s' k = load_queue s k)"
  proof (rule wf_queuesI)
    fix k assume "k < n_streams s'"
    then have k: "k < n_streams s" by (simp add: v)
    have "dlist (links s) (LoadQ k) (map LoadNode (load_queue s k)) = dlist (links s') (LoadQ k) (map LoadNode (load_queue s k))"
      using eq by (intro dlist_cong) (auto simp: same_but_reqs_def)
    then show "dlist (links s') (LoadQ k) (map LoadNode (load_queue s k))" using wf_queuesD(1) [OF wf k] by simp
    show "nr_loads (stream_at s' k) = of_nat (length (load_queue s k))" "rank (stream_at s' k) = of_nat k"
      "l \<in> set (load_queue s k) \<Longrightarrow> valid_load s' l \<and> dest_rank (load_at s' l) = of_nat k" for l
      using wf_queuesD [OF wf k] by (auto simp: v)
  qed (use wf in \<open>simp_all add: wf_queues_def v\<close>)
  then show ?thesis using base by (simp add: req_base_def v)
qed

lemma set_lock_simps [simp]:
  "links (set_lock s v) = links s" "requests (set_lock s v) = requests s" "allocs (set_lock s v) = allocs s"
  "reb_lock (rebalance (set_lock s v)) = v" "env (set_lock s v) = env s" "same_but_reqs s (set_lock s v)"
  by (simp_all add: set_lock_def same_but_reqs_def)

lemma lock_requests_free: "reb_lock (rebalance s) = 0 \<Longrightarrow> lock_requests s = Inr (set_lock s 1)"
  by (simp add: lock_requests_def spin_lock_def)

lemma unlock_requests_eq: "unlock_requests s = set_lock s 0"
  by (simp add: unlock_requests_def spin_unlock_def)

lemma submit_request_ok:
  assumes q: "req_queue s ids" and new: "requests s a = None" and free: "reb_lock (rebalance s) = 0" and mem: "fst (alloc s)"
  shows "\<exists>s'. submit_request a req s = Inr (0, s') \<and> req_queue s' (ids @ [a]) \<and>
    queued_reqs s' (ids @ [a]) = queued_reqs s ids @ [req] \<and> requests s' = (requests s)(a \<mapsto> req) \<and>
    reb_lock (rebalance s') = 0 \<and> same_but_reqs s s'"
proof -
  obtain t where al: "alloc s = (True, t)" using mem by (cases "alloc s") auto
  note fr = alloc_frame [OF al]
  let ?u = "new_request a req t"
  have a: "a \<notin> set ids" using q new by (auto simp: req_queue_def)
  have links: "links ?u = INIT_LIST_HEAD (links s) (ReqNode a)" by (simp add: new_request_def fr)
  have d: "dlist (links ?u) ReqQ (map ReqNode ids)"
    unfolding links using q a by (subst dlist_init_other) (auto simp: req_queue_def)
  obtain h where h: "list_add_tail (links ?u) (ReqNode a) ReqQ = Inr h" "dlist h ReqQ (map ReqNode ids @ [ReqNode a])"
    "\<forall>m. m \<notin> insert (ReqNode a) (insert ReqQ (set (map ReqNode ids))) \<longrightarrow> h m = links ?u m"
    using list_add_tail_dlist [OF d, of "ReqNode a"] a by (auto simp: sat_total links INIT_LIST_HEAD_def)
  let ?s = "set_lock (set_links (set_lock ?u 1) h) 0"
  have req: "requests ?s = (requests s)(a \<mapsto> req)" by (simp add: new_request_def fr)
  have "submit_request a req s = Inr (0, ?s)"
    using free h(1) by (simp add: submit_request_def al lock_requests_free unlock_requests_eq new_request_def fr)
  moreover have "req_queue ?s (ids @ [a])" using h(2) q unfolding req_queue_def req by auto
  moreover have "queued_reqs ?s (ids @ [a]) = queued_reqs s ids @ [req]"
    using a unfolding queued_reqs_def req by auto
  moreover have "same_but_reqs s ?s"
    using h(3) alloc_subset [OF al] by (auto simp: same_but_reqs_def set_lock_def new_request_def fr INIT_LIST_HEAD_def)
  ultimately show ?thesis using req by auto
qed

subsection \<open>The order of handling\<close>

text \<open>A state between two rounds: the queue, a free or held lock, valid requests, memory.\<close>

definition at_rest :: "(sys \<Rightarrow> bool) \<Rightarrow> (abtst_reb_request \<Rightarrow> bool) \<Rightarrow> int \<Rightarrow> nat list \<Rightarrow> sys \<Rightarrow> bool" where
  "at_rest I valid v ids s \<longleftrightarrow> I s \<and> req_queue s ids \<and> reb_lock (rebalance s) = v \<and>
     (\<forall>q \<in> set (queued_reqs s ids). valid q) \<and> False \<notin> set (allocs s)"

text \<open>Calls of other threads: their objects are new and different, their requests valid.\<close>

definition fresh_calls :: "(abtst_reb_request \<Rightarrow> bool) \<Rightarrow> reb_call list \<Rightarrow> sys \<Rightarrow> bool" where
  "fresh_calls valid cs s \<longleftrightarrow> distinct (map fst cs) \<and> (\<forall>c \<in> set cs. requests s (fst c) = None \<and> valid (snd c))"

text \<open>
  What the loop relies on: the handler of a valid request ends, keeps the invariant and leaves
  the queue alone; the invariant does not speak of the queue; the calls of other threads get
  past the checks of their arguments.
\<close>

locale request_handler =
  fixes handle :: "abtst_reb_request \<Rightarrow> sys \<Rightarrow> 'r \<Rightarrow> (sys \<times> 'r) res" and I :: "sys \<Rightarrow> bool" and valid :: "abtst_reb_request \<Rightarrow> bool"
  assumes handled: "I s \<Longrightarrow> valid q \<Longrightarrow> False \<notin> set (allocs s) \<Longrightarrow> \<exists>s' r'. handle q s r = Inr (s', r') \<and> I s' \<and> req_frame s s'"
    and stable: "I s \<Longrightarrow> same_but_reqs s s' \<Longrightarrow> I s'"
    and accepted: "I s \<Longrightarrow> valid q \<Longrightarrow> other_call (a, q) s = rbind (submit_request a q s) (\<lambda>(ret, s). Inr s)"
begin

lemma other_calls:
  assumes "at_rest I valid 0 ids s" and "fresh_calls valid cs s"
  shows "\<exists>s'. for_each other_call cs s = Inr s' \<and> at_rest I valid 0 (ids @ map fst cs) s' \<and>
    queued_reqs s' (ids @ map fst cs) = queued_reqs s ids @ map snd cs \<and>
    (\<forall>a. a \<notin> fst ` set cs \<longrightarrow> requests s' a = requests s a)"
  using assms
proof (induction cs arbitrary: ids s)
  case Nil
  then show ?case by simp
next
  case (Cons c cs)
  have "fst (alloc s)" using Cons.prems(1) by (auto simp: at_rest_def alloc_def split: list.splits)
  then obtain t where t: "submit_request (fst c) (snd c) s = Inr (0, t)" "req_queue t (ids @ [fst c])"
    "queued_reqs t (ids @ [fst c]) = queued_reqs s ids @ [snd c]" "requests t = (requests s)(fst c \<mapsto> snd c)"
    "reb_lock (rebalance t) = 0" "same_but_reqs s t"
    using submit_request_ok [of s ids "fst c" "snd c"] Cons.prems by (auto simp: at_rest_def fresh_calls_def)
  have rest: "at_rest I valid 0 (ids @ [fst c]) t"
    using t Cons.prems stable [OF _ t(6)] by (auto simp: at_rest_def fresh_calls_def same_but_reqs_def)
  have "fresh_calls valid cs t" using Cons.prems(2) t(4) by (fastforce simp: fresh_calls_def image_iff)
  from Cons.IH [OF rest this] obtain s' where s': "for_each other_call cs t = Inr s'"
    "at_rest I valid 0 (ids @ fst c # map fst cs) s'" "queued_reqs s' (ids @ fst c # map fst cs) = queued_reqs s ids @ snd c # map snd cs"
    "\<forall>a. a \<notin> fst ` set cs \<longrightarrow> requests s' a = requests t a"
    by (auto simp: t(3))
  have "other_call c s = Inr t"
    using accepted [of s "snd c" "fst c"] Cons.prems t(1) by (auto simp: at_rest_def fresh_calls_def)
  then show ?case using s' t(4) by auto
qed

text \<open>One round: the first request leaves the queue and is handled, the calls are appended.\<close>

lemma process_round:
  assumes s: "at_rest I valid 1 (a # ids) s" and cs: "fresh_calls valid cs s"
  shows "\<exists>h s1 r1 s2. list_del (links s) (ReqNode a) = Inr h \<and> get_request s a = Inr (the (requests s a)) \<and>
    handle (the (requests s a)) (unlock_requests (set_links s h)) r = Inr (s1, r1) \<and>
    for_each other_call cs s1 = Inr s2 \<and> lock_requests (free_request a s2) = Inr (set_lock (free_request a s2) 1) \<and>
    at_rest I valid 1 (ids @ map fst cs) (set_lock (free_request a s2) 1) \<and>
    queued_reqs (set_lock (free_request a s2) 1) (ids @ map fst cs) = queued_reqs s ids @ map snd cs \<and>
    (\<forall>b. b \<notin> fst ` set cs \<longrightarrow> requests s b = None \<longrightarrow> requests (set_lock (free_request a s2) 1) b = None)"
proof -
  have d: "dlist (links s) ReqQ ([] @ ReqNode a # map ReqNode ids)" and ra: "requests s a \<noteq> None"
    and dist: "a \<notin> set ids" and Is: "I s"
    using s req_queue_distinct [of s "a # ids"] by (auto simp: at_rest_def req_queue_def)
  obtain h where h: "list_del (links s) (ReqNode a) = Inr h" "dlist h ReqQ (map ReqNode ids)"
    "\<forall>m. m \<notin> insert (ReqNode a) (insert ReqQ (set (map ReqNode ids))) \<longrightarrow> h m = links s m"
    using list_del_dlist [OF d] by (auto simp: sat_total)
  let ?t = "set_lock (set_links s h) 0"
  have "same_but_reqs s ?t" using h(3) by (auto simp: same_but_reqs_def set_lock_def)
  then have "I ?t" using stable Is by blast
  moreover have "valid (the (requests s a))" using s by (simp add: at_rest_def queued_reqs_def)
  moreover have "False \<notin> set (allocs ?t)" using s by (simp add: at_rest_def)
  ultimately obtain s1 r1 where s1: "handle (the (requests s a)) ?t r = Inr (s1, r1)" "I s1" "req_frame ?t s1"
    using handled by blast
  have reqs1: "requests s1 = requests s" using s1(3) by (simp add: req_frame_def)
  have "at_rest I valid 0 ids s1"
    using s1 h(2) s reqs1 by (auto simp: at_rest_def req_queue_def req_frame_def req_kept_def queued_reqs_def)
  moreover have "fresh_calls valid cs s1" using cs reqs1 by (simp add: fresh_calls_def)
  ultimately obtain s2 where s2: "for_each other_call cs s1 = Inr s2" "at_rest I valid 0 (ids @ map fst cs) s2"
    "queued_reqs s2 (ids @ map fst cs) = queued_reqs s1 ids @ map snd cs"
    "\<forall>b. b \<notin> fst ` set cs \<longrightarrow> requests s2 b = requests s1 b"
    using other_calls by blast
  have na: "a \<notin> set (ids @ map fst cs)" using dist ra cs by (auto simp: fresh_calls_def)
  let ?u = "set_lock (free_request a s2) 1"
  have "same_but_reqs s2 ?u" by (auto simp: same_but_reqs_def free_request_def set_lock_def)
  then have "I ?u" using stable s2(2) by (auto simp: at_rest_def)
  moreover have "dlist (links ?u) ReqQ (map ReqNode (ids @ map fst cs))"
  proof -
    have "ReqNode a \<notin> set (map ReqNode (ids @ map fst cs))" using na unfolding set_map by blast
    from dlist_fun_upd [OF _ this, of ReqQ "links s2" None] show ?thesis
      using s2(2) by (simp add: free_request_def at_rest_def req_queue_def del: map_append)
  qed
  moreover have qu: "queued_reqs ?u (ids @ map fst cs) = queued_reqs s2 (ids @ map fst cs)"
    using na by (auto simp: queued_reqs_def free_request_def)
  ultimately have "at_rest I valid 1 (ids @ map fst cs) ?u"
    using s2(2) na unfolding at_rest_def qu by (auto simp: req_queue_def free_request_def simp del: map_append)
  moreover have "reb_lock (rebalance (free_request a s2)) = 0" using s2(2) by (simp add: at_rest_def free_request_def)
  ultimately show ?thesis
    using h(1) ra s1(1) s2 qu reqs1
    by (intro exI [of _ h] exI [of _ s1] exI [of _ r1] exI [of _ s2])
      (auto simp: get_request_def unlock_requests_eq lock_requests_free queued_reqs_def free_request_def)
qed

text \<open>
  The whole loop, started at the first request with the second remembered. Calls that arrive
  while requests are left behind the current one are handled in the same run.
\<close>

lemma req_queue_next:
  assumes "req_queue s ids"
  shows "get_next (links s) ReqQ = Inr (hd (map ReqNode ids @ [ReqQ]))"
    "ids = a # ids' \<Longrightarrow> get_next (links s) (ReqNode a) = Inr (hd (map ReqNode ids' @ [ReqQ]))"
proof -
  have d: "dlist (links s) ReqQ (map ReqNode ids)" using assms by (simp add: req_queue_def)
  then show "get_next (links s) ReqQ = Inr (hd (map ReqNode ids @ [ReqQ]))"
    by (auto simp: get_next_Some dlist_def dest: seg_hd)
  assume "ids = a # ids'"
  then have "dlist (links s) ReqQ ([] @ ReqNode a # map ReqNode ids')" using d by simp
  from dlist_neighbours [OF this] show "get_next (links s) (ReqNode a) = Inr (hd (map ReqNode ids' @ [ReqQ]))"
    by (simp add: get_next_Some)
qed

lemma fresh_calls_later:
  assumes "fresh_calls valid (cs @ ds) s" and "\<forall>b. b \<notin> fst ` set cs \<longrightarrow> requests s b = None \<longrightarrow> requests t b = None"
  shows "fresh_calls valid ds t"
proof -
  have d: "distinct (map fst ds)" "\<forall>c \<in> set ds. requests s (fst c) = None \<and> valid (snd c)"
    and "fst ` set cs \<inter> fst ` set ds = {}"
    using assms(1) by (auto simp: fresh_calls_def)
  then have "\<forall>c \<in> set ds. fst c \<notin> fst ` set cs" by blast
  then show ?thesis using d assms(2) by (simp add: fresh_calls_def)
qed

lemma process_loop_fifo:
  assumes "at_rest I valid 1 ids s" and "fresh_calls valid (concat arr) s" and "length ids + length (concat arr) \<le> fuel"
    and "pos = hd (map ReqNode ids @ [ReqQ])" and "ids \<noteq> [] \<Longrightarrow> get_next (links s) pos = Inr n"
  shows "\<exists>dn s' r' ids'. process_loop fuel handle arr pos n s r = Inr (dn, s', r') \<and> at_rest I valid 1 ids' s' \<and>
    length ids \<le> length dn \<and> dn @ queued_reqs s' ids' = queued_reqs s ids @ map snd (concat (take (length dn) arr))"
  using assms
proof (induction fuel arbitrary: ids s arr pos n r)
  case 0
  then show ?case by (auto simp: process_loop.simps queued_reqs_def)
next
  case (Suc fuel)
  show ?case
  proof (cases ids)
    case Nil
    then show ?thesis using Suc.prems by (auto simp: process_loop.simps queued_reqs_def)
  next
    case (Cons a ids')
    let ?cs = "concat (take 1 arr)" and ?arr = "drop 1 arr"
    have split: "concat arr = ?cs @ concat ?arr" by (simp flip: concat_append)
    have fresh: "fresh_calls valid ?cs s" using Suc.prems(2) unfolding split by (auto simp: fresh_calls_def)
    have s: "at_rest I valid 1 (a # ids') s" using Suc.prems(1) Cons by simp
    from process_round [OF s fresh, of r] obtain h s1 r1 s2 where
      rd: "list_del (links s) (ReqNode a) = Inr h" "get_request s a = Inr (the (requests s a))"
      "handle (the (requests s a)) (unlock_requests (set_links s h)) r = Inr (s1, r1)" "for_each other_call ?cs s1 = Inr s2"
      "lock_requests (free_request a s2) = Inr (set_lock (free_request a s2) 1)"
      and u: "at_rest I valid 1 (ids' @ map fst ?cs) (set_lock (free_request a s2) 1)"
      "queued_reqs (set_lock (free_request a s2) 1) (ids' @ map fst ?cs) = queued_reqs s ids' @ map snd ?cs"
      "\<forall>b. b \<notin> fst ` set ?cs \<longrightarrow> requests s b = None \<longrightarrow> requests (set_lock (free_request a s2) 1) b = None"
      by blast
    define t where "t = set_lock (free_request a s2) 1"
    note u = u [folded t_def] and rd = rd [folded t_def]
    have qt: "req_queue t (ids' @ map fst ?cs)" using u(1) by (simp add: at_rest_def)
    have n: "n = hd (map ReqNode ids' @ [ReqQ])"
      using Suc.prems(4,5) Cons req_queue_next(2) [of s ids a ids'] s by (simp add: at_rest_def)
    show ?thesis
    proof (cases ids')
      case Nil
      have "get_next (links t) n = Inr (hd (map ReqNode (ids' @ map fst ?cs) @ [ReqQ]))"
        using req_queue_next(1) [OF qt] n Nil by simp
      then have "process_loop (Suc fuel) handle arr pos n s r = Inr ([the (requests s a)], t, r1)"
        using Suc.prems(4) Cons rd n Nil by (simp add: process_loop.simps list_entry_req_def)
      then show ?thesis using u Cons Nil by (auto simp: queued_reqs_def)
    next
      case (Cons b ids'')
      have next_t: "get_next (links t) (ReqNode b) = Inr (hd (map ReqNode (ids'' @ map fst ?cs) @ [ReqQ]))"
        using req_queue_next(2) [OF qt] Cons by simp
      have "fresh_calls valid (concat ?arr) t"
        using fresh_calls_later [OF Suc.prems(2) [unfolded split] u(3)] .
      moreover have "length (ids' @ map fst ?cs) + length (concat ?arr) \<le> fuel"
        using Suc.prems(3) \<open>ids = a # ids'\<close> unfolding split by simp
      ultimately obtain dn s' r' ids3 where ih: "process_loop fuel handle ?arr n (hd (map ReqNode (ids'' @ map fst ?cs) @ [ReqQ])) t r1 = Inr (dn, s', r')"
        "at_rest I valid 1 ids3 s'" "length (ids' @ map fst ?cs) \<le> length dn"
        "dn @ queued_reqs s' ids3 = queued_reqs t (ids' @ map fst ?cs) @ map snd (concat (take (length dn) ?arr))"
        using Suc.IH [OF u(1), of ?arr n "hd (map ReqNode (ids'' @ map fst ?cs) @ [ReqQ])" r1] n Cons next_t by auto
      have "process_loop (Suc fuel) handle arr pos n s r = Inr (the (requests s a) # dn, s', r')"
        using Suc.prems(4) \<open>ids = a # ids'\<close> rd n Cons next_t ih(1) by (simp add: process_loop.simps list_entry_req_def)
      moreover have "concat (take (Suc (length dn)) arr) = ?cs @ concat (take (length dn) ?arr)"
        by (cases arr) simp_all
      ultimately show ?thesis
        using ih u(2) \<open>ids = a # ids'\<close> by (auto simp: queued_reqs_def)
    qed
  qed
qed

end

text \<open>
  The requests that the two submitting functions accept when there are \<open>N\<close> cores.
\<close>

definition valid_req :: "nat \<Rightarrow> abtst_reb_request \<Rightarrow> bool" where
  "valid_req N q \<longleftrightarrow> req_core q < int N \<and>
     (case req_type q of REB_REQUEST_ADD_CORE \<Rightarrow> 0 < req_core q | REB_REQUEST_REM_CORE \<Rightarrow> - (2 ^ 31) \<le> req_core q)"

lemma add_core_accepted:
  assumes base: "req_base N s" and core: "0 < core" "core < int N"
  shows "abtst_reb_req_add_core a s core = submit_request a \<lparr>req_type = REB_REQUEST_ADD_CORE, req_core = core\<rparr> s"
proof -
  have nc: "unat (nr_cores (env s)) = N" and N: "N < 2 ^ 31" using base by (auto simp: req_base_def wf_topology_def)
  then have "uint (nr_cores (env s)) = int N" by (metis uint_nat)
  moreover have "uint (word_of_int core :: u32) = core" using core N by (simp add: uint_word_of_int)
  ultimately have "\<not> nr_cores (env s) \<le> word_of_int core" using core unfolding word_le_def by simp
  then show ?thesis using core by (simp add: abtst_reb_req_add_core_def)
qed

lemma remove_core_accepted:
  assumes base: "req_base N s" and core: "core < int N"
  shows "abtst_reb_req_remove_core a s core = submit_request a \<lparr>req_type = REB_REQUEST_REM_CORE, req_core = core\<rparr> s"
proof -
  have nc: "unat (nr_cores (env s)) = N" and N: "N < 2 ^ 31" using base by (auto simp: req_base_def wf_topology_def)
  then have "uint (nr_cores (env s)) = int N" by (metis uint_nat)
  then have "sint (nr_cores (env s)) = int N" using N by (subst sint_small) simp_all
  then show ?thesis using core by (simp add: abtst_reb_req_remove_core_def)
qed

lemma other_call_valid:
  assumes base: "req_base N s" and q: "valid_req N q"
  shows "other_call (a, q) s = rbind (submit_request a q s) (\<lambda>(ret, s). Inr s)"
proof -
  obtain ty c where qc: "q = \<lparr>req_type = ty, req_core = c\<rparr>" by (cases q)
  show ?thesis
    using q add_core_accepted [OF base, of c a] remove_core_accepted [OF base, of c a]
    by (cases ty) (auto simp: qc other_call_def valid_req_def)
qed

sublocale reb_sorter < rq: request_handler "process_request A qs" "req_base N" "valid_req N" for A :: "'r argobots" and N
proof (unfold_locales, goal_cases)
  case (1 s q r)
  have mem: "mem_ok {} s" using 1(3) by (simp add: mem_ok_def)
  show ?case
  proof (cases "req_type q")
    case REB_REQUEST_ADD_CORE
    then have "0 \<le> req_core q" "nat (req_core q) < N" using 1(2) by (auto simp: valid_req_def)
    with process_add_core [OF 1(1), of "nat (req_core q)" A r] REB_REQUEST_ADD_CORE show ?thesis
      by (auto simp: process_request_def)
  next
    case REB_REQUEST_REM_CORE
    then have "req_core q < int N" "- (2 ^ 31) \<le> req_core q" using 1(2) by (auto simp: valid_req_def)
    from process_remove_core_sat [OF 1(1) mem this, of A r] REB_REQUEST_REM_CORE show ?thesis
      by (auto simp: process_request_def sat_total)
  qed
next
  case (2 s s')
  then show ?case using req_base_same_but_reqs by blast
next
  case (3 s q a)
  then show ?case by (rule other_call_valid)
qed

context reb_sorter
begin

lemma process_requests_fifo:
  assumes rest: "at_rest (req_base N) (valid_req N) 0 ids s" and calls: "fresh_calls (valid_req N) (concat arr) s"
    and len: "length ids + length (concat arr) \<le> list_bound"
  shows "\<exists>dn s' r' ids'. abtst_reb_process_requests A qs arr s r = Inr (dn, s', r') \<and>
    at_rest (req_base N) (valid_req N) 0 ids' s' \<and> length ids \<le> length dn \<and>
    dn @ queued_reqs s' ids' = queued_reqs s ids @ map snd (concat (take (length dn) arr))"
proof -
  let ?t = "set_lock s 1" and ?pos = "hd (map ReqNode ids @ [ReqQ])"
  have move: "at_rest (req_base N) (valid_req N) w is (set_lock t w)" if "at_rest (req_base N) (valid_req N) v is t" for v w "is" t
    using that req_base_same_but_reqs [OF set_lock_simps(6)] by (auto simp: at_rest_def req_queue_def queued_reqs_def)
  note t = move [OF rest, of 1]
  have q: "req_queue ?t ids" using t by (simp add: at_rest_def)
  note pos = rq.req_queue_next(1) [OF q]
  obtain n where n: "get_next (links ?t) ?pos = Inr n"
    using pos rq.req_queue_next(2) [OF q] by (cases ids) auto
  have "fresh_calls (valid_req N) (concat arr) ?t" using calls by (simp add: fresh_calls_def)
  from rq.process_loop_fifo [OF t this len refl n, of A r] obtain dn s' r' ids' where
    l: "process_loop list_bound (process_request A qs) arr ?pos n ?t r = Inr (dn, s', r')"
    "at_rest (req_base N) (valid_req N) 1 ids' s'" "length ids \<le> length dn"
    "dn @ queued_reqs s' ids' = queued_reqs ?t ids @ map snd (concat (take (length dn) arr))" by blast
  have "lock_requests s = Inr ?t" using rest by (intro lock_requests_free) (simp add: at_rest_def)
  then have "abtst_reb_process_requests A qs arr s r = Inr (dn, set_lock s' 0, r')"
    using pos n l(1) by (simp add: abtst_reb_process_requests_def unlock_requests_eq)
  then show ?thesis using move [OF l(2), of 0] l(3,4) by (auto simp: queued_reqs_def)
qed

lemma remove_core_effect:
  assumes base: "req_base N s" and mem: "False \<notin> set (allocs s)" and i: "i < n_numas s"
    and k: "k \<in> set (numa_cores s i)" and u: "used (stream_at s k)" and ne: "node_others s i k \<noteq> []"
  shows "\<exists>s' r'. abtst_reb_process_remove_core A qs (int k) s r = Inr (s', r') \<and> core_removed s i k s'"
proof -
  have wf: "wf_queues s" and top: "wf_topology s" using base by (auto simp: req_base_def)
  have "mem_ok {} s" using mem by (simp add: mem_ok_def)
  from remove_from_node_sat [OF wf top this i k, of A r] show ?thesis
    using ne mem unfolding process_remove_core_used [OF wf top i k u]
    by (auto simp: sat_total alloc_def split: list.splits if_splits)
qed

end

subsection \<open>Queues and streams after a removal\<close>

lemma removed_queues:
  assumes base: "req_base N s" and i: "i < n_numas s" and k: "k \<in> set (numa_cores s i)" and rem: "core_removed s i k s'"
  shows "queued_loads s' = queued_loads s \<and>
    (\<exists>to \<in> set (node_others s i k). (\<forall>j \<in> set (node_others s i k). sint (depth_at s to) \<le> sint (depth_at s j)) \<and>
      load_queue s' k = [] \<and> load_queue s' to = rev (load_queue s k) @ load_queue s to \<and>
      (\<forall>j < n_streams s. j \<noteq> k \<longrightarrow> j \<noteq> to \<longrightarrow> load_queue s' j = load_queue s j))"
proof -
  obtain to t x d where to: "to \<in> set (node_others s i k)" "\<forall>j \<in> set (node_others s i k). sint (depth_at s to) \<le> sint (depth_at s j)"
    and t: "requeued s k to (load_queue s k) t"
    and s': "s' = set_stream t (last_core s i) (\<lambda>st. st\<lparr>xstream := x, stream_sched := d, used := False\<rparr>)"
    using rem by (auto simp: core_removed_def)
  have top: "wf_topology s" and wf: "wf_queues s" using base by (auto simp: req_base_def)
  have ft: "k < n_streams s" "to < n_streams s" "k \<noteq> to"
    using numa_cores_bound [OF top i] k to(1) by (auto simp: node_others_def)
  have "queued_loads s' = queued_loads t" by (simp add: s' queued_loads_def group_loads_def)
  moreover have "queued_loads t = queued_loads s" by (rule requeued_queued_loads [OF t ft subset_refl wf_queuesD(6) [OF wf ft(1)] wf_queuesD(6) [OF wf ft(1)]])
  moreover have "load_queue s' = load_queue t" by (simp add: s')
  ultimately show ?thesis using t to ft by (intro conjI bexI [OF _ to(1)]) (auto simp: requeued_def)
qed

lemma removed_used:
  assumes base: "req_base N s" and i: "i < n_numas s" and k: "k \<in> set (numa_cores s i)" and rem: "core_removed s i k s'"
  shows "\<not> used (stream_at s' (last_core s i)) \<and> (k \<noteq> last_core s i \<longrightarrow> used (stream_at s' k) = used (stream_at s k))"
proof -
  obtain to t x d where t: "requeued s k to (load_queue s k) t"
    and s': "s' = set_stream t (last_core s i) (\<lambda>st. st\<lparr>xstream := x, stream_sched := d, used := False\<rparr>)"
    using rem by (auto simp: core_removed_def)
  have top: "wf_topology s" using base by (simp add: req_base_def)
  have sh: "same_shape s t" using t by (simp add: requeued_def)
  have "k < n_streams s" "last_core s i < n_streams t"
    using numa_cores_bound [OF top i] k last_core_in [OF top i] same_shapeD(6) [OF sh] by auto
  then show ?thesis using same_shape_stream(1) [OF sh, of k] by (simp add: s')
qed

end
