(* ===== verification/Req_Claims.thy ===== *)
theory Req_Claims
  imports Sample Reb_Req_Inv
begin

text \<open>
  Properties of the requests to the rebalancer: they are handled in the order of their
  submission, also when others are submitted meanwhile; what adding and removing a core do.
\<close>

subsection \<open>A sample with requests\<close>

text \<open>The sample state with a queue of one request: core 0 is to be removed.\<close>

definition sample_req :: sys where
  "sample_req = (set_links sample (sample_links(
     ReqQ \<mapsto> \<lparr>lh_next = ReqNode 7, lh_prev = ReqNode 7\<rparr>, ReqNode 7 \<mapsto> \<lparr>lh_next = ReqQ, lh_prev = ReqQ\<rparr>)))
     \<lparr>requests := [7 \<mapsto> \<lparr>req_type = REB_REQUEST_REM_CORE, req_core = 0\<rparr>]\<rparr>"

lemma sample_base: "req_base 4 sample"
proof -
  have "\<exists>i < 2. k \<in> set (numa_cores sample i)" if "k < 4" for k
  proof (cases "k < 2")
    case True
    then show ?thesis by (intro exI [of _ 0]) (auto simp: sample_views)
  next
    case False
    then show ?thesis using that by (intro exI [of _ 1]) (auto simp: sample_views)
  qed
  then show ?thesis by (simp add: req_base_def sample_wf_queues sample_wf_topology sample_views)
qed

lemma sample_req_like: "same_but_reqs sample sample_req"
  by (simp add: same_but_reqs_def sample_req_def sample_views)

lemma sample_req_rest: "at_rest (req_base 4) (valid_req 4) 0 [7] sample_req"
proof -
  have "dlist (links sample_req) ReqQ (map ReqNode [7])"
    by (simp add: sample_req_def dlist_def nexts_def prevs_def)
  moreover have "reb_lock (rebalance sample_req) = 0" "False \<notin> set (allocs sample_req)"
    by (simp_all add: sample_req_def sample_def)
  ultimately show ?thesis
    using req_base_same_but_reqs [OF sample_req_like sample_base]
    by (simp add: at_rest_def req_queue_def queued_reqs_def valid_req_def) (simp add: sample_req_def)
qed

lemma sample_last_core: "last_core sample 0 = 1"
  by (simp add: last_core_def numa_at_def sample_def)

definition add_one :: abtst_reb_request where
  "add_one = \<lparr>req_type = REB_REQUEST_ADD_CORE, req_core = 1\<rparr>"

subsection \<open>Properties\<close>

text \<open>
  C23: \<^verbatim>\<open>abtst_reb_process_requests\<close> handles requests in the order of their submission,
  each once, and ends. \<open>ids\<close> are the objects in the queue at the call; while a request is
  handled the lock is free and other threads may submit more (\<open>arr\<close>, one list per round). All
  requests of the queue at the call are handled; the requests handled, followed by those left in
  the queue, are the requests of the call followed by those that arrived. The lock is free at
  the end and the queue is well formed again.
\<close>

theorem process_requests_in_order:
  assumes "qsort_contract qs" and "at_rest (req_base N) (valid_req N) 0 ids s"
    and "fresh_calls (valid_req N) (concat arr) s" and "length ids + length (concat arr) \<le> list_bound"
  shows "\<exists>dn s' r' ids'. abtst_reb_process_requests A qs arr s r = Inr (dn, s', r') \<and>
    at_rest (req_base N) (valid_req N) 0 ids' s' \<and> length ids \<le> length dn \<and>
    dn @ queued_reqs s' ids' = queued_reqs s ids @ map snd (concat (take (length dn) arr))"
  by (rule reb_sorter.process_requests_fifo [OF reb_sorterI [OF assms(1)] assms(2-4)])

theorem process_requests_in_order_witness:
  "\<exists>dn s' r' ids'. abtst_reb_process_requests counting_argobots qsort_by [[(8, add_one)]] sample_req 0 = Inr (dn, s', r') \<and>
    at_rest (req_base 4) (valid_req 4) 0 ids' s' \<and> length [7::nat] \<le> length dn \<and>
    dn @ queued_reqs s' ids' = queued_reqs sample_req [7] @ map snd (concat (take (length dn) [[(8 :: nat, add_one)]]))"
  by (rule process_requests_in_order [OF ins.qsort_contract_axioms sample_req_rest])
    (auto simp: fresh_calls_def sample_req_def valid_req_def add_one_def list_bound_def)

text \<open>
  C24: submitting and handling fit together. A core in range that is submitted with
  \<^verbatim>\<open>abtst_reb_req_add_core\<close> while the queue is empty is accepted, and the next
  \<^verbatim>\<open>abtst_reb_process_requests\<close> handles exactly this request and leaves the queue empty.
\<close>

theorem add_request_roundtrip:
  assumes "qsort_contract qs" and "at_rest (req_base N) (valid_req N) 0 [] s" and "requests s a = None"
    and "0 < core" and "core < int N"
  shows "\<exists>s1 s2 r2. abtst_reb_req_add_core a s core = Inr (0, s1) \<and>
    abtst_reb_process_requests A qs [] s1 r = Inr ([\<lparr>req_type = REB_REQUEST_ADD_CORE, req_core = core\<rparr>], s2, r2) \<and>
    req_queue s2 []"
proof -
  let ?q = "\<lparr>req_type = REB_REQUEST_ADD_CORE, req_core = core\<rparr>"
  have v: "valid_req N ?q" using assms(4,5) by (simp add: valid_req_def)
  have base: "req_base N s" using assms(2) by (simp add: at_rest_def)
  have "fst (alloc s)" using assms(2) by (auto simp: at_rest_def alloc_def split: list.splits)
  then obtain s1 where s1: "submit_request a ?q s = Inr (0, s1)" "req_queue s1 [a]" "queued_reqs s1 [a] = [?q]"
    "reb_lock (rebalance s1) = 0" "same_but_reqs s s1"
    using submit_request_ok [of s "[]" a ?q] assms(2,3) by (auto simp: at_rest_def queued_reqs_def)
  have "at_rest (req_base N) (valid_req N) 0 [a] s1"
    using s1 v req_base_same_but_reqs [OF s1(5) base] assms(2) by (auto simp: at_rest_def same_but_reqs_def)
  from reb_sorter.process_requests_fifo [OF reb_sorterI [OF assms(1)] this, of "[]" A r]
  obtain dn s2 r2 ids2 where p: "abtst_reb_process_requests A qs [] s1 r = Inr (dn, s2, r2)"
    "at_rest (req_base N) (valid_req N) 0 ids2 s2" "1 \<le> length dn" "dn @ queued_reqs s2 ids2 = [?q]"
    by (auto simp: fresh_calls_def list_bound_def s1(3))
  from p(3,4) have "dn = [?q]" "ids2 = []" by (cases dn; auto simp: queued_reqs_def)+
  moreover have "abtst_reb_req_add_core a s core = submit_request a ?q s"
    using add_core_accepted [OF base] assms(4,5) by simp
  ultimately show ?thesis using s1(1) p by (auto simp: at_rest_def)
qed

theorem add_request_roundtrip_witness:
  "\<exists>s1 s2 r2. abtst_reb_req_add_core 3 (set_links sample (sample_links(ReqQ \<mapsto> \<lparr>lh_next = ReqQ, lh_prev = ReqQ\<rparr>))) 2 = Inr (0, s1) \<and>
    abtst_reb_process_requests counting_argobots qsort_by [] s1 0 = Inr ([\<lparr>req_type = REB_REQUEST_ADD_CORE, req_core = 2\<rparr>], s2, r2) \<and>
    req_queue s2 []"
proof (rule add_request_roundtrip [OF ins.qsort_contract_axioms])
  let ?s = "set_links sample (sample_links(ReqQ \<mapsto> \<lparr>lh_next = ReqQ, lh_prev = ReqQ\<rparr>))"
  have "same_but_reqs sample ?s" by (simp add: same_but_reqs_def sample_views)
  from req_base_same_but_reqs [OF this sample_base]
  show "at_rest (req_base 4) (valid_req 4) 0 [] ?s"
    by (simp add: at_rest_def req_queue_def queued_reqs_def dlist_Nil_iff) (simp add: sample_def)
qed (simp_all add: sample_def)

text \<open>
  C27: adding a core. For a core in range whose stream is not in use, the handler puts the
  stream in use with an empty queue and zero statistics and changes no other stream; a stream
  in use is left as it is. The state stays legal for further requests.
\<close>

theorem add_core_starts_stream:
  assumes "req_base N s" and "k < N"
  shows "\<exists>s' r'. abtst_reb_process_add_core A (int k) s r = Inr (s', r') \<and> req_base N s' \<and>
    (if used (stream_at s k) then s' = s else core_added s k s')"
  using process_add_core [OF assms, of A r] by blast

theorem add_core_starts_stream_witness:
  "\<exists>s' r'. abtst_reb_process_add_core counting_argobots (int 2) (set_stream sample 2 (\<lambda>st. st\<lparr>used := False\<rparr>)) 0 = Inr (s', r') \<and>
    req_base 4 s' \<and> core_added (set_stream sample 2 (\<lambda>st. st\<lparr>used := False\<rparr>)) 2 s'"
proof -
  let ?s = "set_stream sample 2 (\<lambda>st. st\<lparr>used := False\<rparr>)"
  have "req_base 4 ?s" by (rule req_base_set_stream [OF sample_base]) simp_all
  moreover have "\<not> used (stream_at ?s 2)" by (simp add: sample_views)
  ultimately show ?thesis using add_core_starts_stream [of 4 ?s 2 counting_argobots 0] by auto
qed

text \<open>
  C25: removing a core moves its loads. When another stream of the core's node is in use and
  memory is available, the handler ends, all loads of the core's stream are queued, in reverse
  order, at the head of the queue of the least busy other stream of the node, no other queue
  changes and no load is lost.
\<close>

theorem remove_core_moves_loads:
  assumes "qsort_contract qs" and "req_base N s" and "False \<notin> set (allocs s)" and "i < n_numas s"
    and "k \<in> set (numa_cores s i)" and "used (stream_at s k)" and "node_others s i k \<noteq> []"
  shows "\<exists>s' r'. abtst_reb_process_remove_core A qs (int k) s r = Inr (s', r') \<and> queued_loads s' = queued_loads s \<and>
    (\<exists>to \<in> set (node_others s i k). (\<forall>j \<in> set (node_others s i k). sint (depth_at s to) \<le> sint (depth_at s j)) \<and>
      load_queue s' k = [] \<and> load_queue s' to = rev (load_queue s k) @ load_queue s to \<and>
      (\<forall>j < n_streams s. j \<noteq> k \<longrightarrow> j \<noteq> to \<longrightarrow> load_queue s' j = load_queue s j))"
proof -
  obtain s' r' where s': "abtst_reb_process_remove_core A qs (int k) s r = Inr (s', r')" "core_removed s i k s'"
    using reb_sorter.remove_core_effect [OF reb_sorterI [OF assms(1)] assms(2-7), of A r] by blast
  from removed_queues [OF assms(2,4,5) s'(2)] s'(1) show ?thesis by blast
qed

theorem remove_core_moves_loads_witness:
  "\<exists>s' r'. abtst_reb_process_remove_core counting_argobots qsort_by (int 0) sample 0 = Inr (s', r') \<and> queued_loads s' = queued_loads sample \<and>
    (\<exists>to \<in> set (node_others sample 0 0). (\<forall>j \<in> set (node_others sample 0 0). sint (depth_at sample to) \<le> sint (depth_at sample j)) \<and>
      load_queue s' 0 = [] \<and> load_queue s' to = rev (load_queue sample 0) @ load_queue sample to \<and>
      (\<forall>j < n_streams sample. j \<noteq> 0 \<longrightarrow> j \<noteq> to \<longrightarrow> load_queue s' j = load_queue sample j))"
  by (rule remove_core_moves_loads [OF ins.qsort_contract_axioms sample_base sample_allocs])
    (use sample_used [of 0] sample_used [of 1] in \<open>simp_all add: sample_views node_others_def\<close>)

text \<open>
  C26: the stream that a removal takes out of use. It is not the stream of the core to be
  removed but the stream of the last core of its node, which the variable \<^verbatim>\<open>stream\<close>
  points to after the loop over the node's cores; the stream of the core stays in use unless
  the core is the last one.
\<close>

theorem remove_core_releases_last:
  assumes "qsort_contract qs" and "req_base N s" and "False \<notin> set (allocs s)" and "i < n_numas s"
    and "k \<in> set (numa_cores s i)" and "used (stream_at s k)" and "node_others s i k \<noteq> []" and "k \<noteq> last_core s i"
  shows "\<exists>s' r'. abtst_reb_process_remove_core A qs (int k) s r = Inr (s', r') \<and>
    used (stream_at s' k) \<and> \<not> used (stream_at s' (last_core s i))"
proof -
  obtain s' r' where s': "abtst_reb_process_remove_core A qs (int k) s r = Inr (s', r')" "core_removed s i k s'"
    using reb_sorter.remove_core_effect [OF reb_sorterI [OF assms(1)] assms(2-7), of A r] by blast
  from removed_used [OF assms(2,4,5) s'(2)] s'(1) assms(6,8) show ?thesis by blast
qed

theorem remove_core_releases_last_witness:
  "\<exists>s' r'. abtst_reb_process_remove_core counting_argobots qsort_by (int 0) sample 0 = Inr (s', r') \<and>
    used (stream_at s' 0) \<and> \<not> used (stream_at s' (last_core sample 0))"
  by (rule remove_core_releases_last [OF ins.qsort_contract_axioms sample_base sample_allocs])
    (use sample_used [of 0] sample_used [of 1] in \<open>simp_all add: sample_views node_others_def sample_last_core\<close>)

end
