(* ===== verification/Sched.thy ===== *)
theory Sched
  imports Loads Qsort
begin

text \<open>
  The two schedulers: \<^verbatim>\<open>src/sched/sub.c\<close>, which runs the threads of one load, and
  \<^verbatim>\<open>src/sched/base.c\<close>, which runs on each execution stream, takes the units of the
  stream's pool in turn, runs the sub-schedulers of its loads and carries out migrations.

  The operations of Argobots on pools, units and schedulers are the fields of a record over a
  runtime state \<open>'r\<close>; \<open>run\<close>, an argument of the loops, is \<^verbatim>\<open>ABT_xstream_run_unit\<close>,
  which runs code of the program and so works on the whole \<open>world\<close>. A handle \<open>0\<close> is a null
  handle. The structs \<^verbatim>\<open>sched_data\<close> of the two files live in two stores; the runtime
  holds the address that \<^verbatim>\<open>ABT_sched_set_data\<close> was given.
\<close>

declare split_paired_All [simp del] split_paired_Ex [simp del]

datatype pool_access =
    ABT_POOL_ACCESS_PRIV
  | ABT_POOL_ACCESS_SPSC
  | ABT_POOL_ACCESS_MPSC
  | ABT_POOL_ACCESS_SPMC
  | ABT_POOL_ACCESS_MPMC

text \<open>
  \<^verbatim>\<open>ABT_sched_config_read\<close> writes the variables that the configuration holds: \<open>None\<close>
  for one that is left as it is.
\<close>

record 'r sched_ops =
  ABT_pool_get_size :: "abt_handle \<Rightarrow> 'r \<Rightarrow> nat"
  ABT_pool_pop :: "abt_handle \<Rightarrow> 'r \<Rightarrow> abt_handle \<times> 'r"
  ABT_pool_push :: "abt_handle \<Rightarrow> abt_handle \<Rightarrow> 'r \<Rightarrow> 'r"
  ABT_pool_get_access :: "abt_handle \<Rightarrow> 'r \<Rightarrow> pool_access"
  ABT_unit_get_sched :: "abt_handle \<Rightarrow> abt_handle \<Rightarrow> 'r \<Rightarrow> abt_handle"
  ABT_sched_get_data :: "abt_handle \<Rightarrow> 'r \<Rightarrow> nat"
  ABT_sched_set_data :: "abt_handle \<Rightarrow> nat \<Rightarrow> 'r \<Rightarrow> int \<times> 'r"
  ABT_sched_get_num_pools :: "abt_handle \<Rightarrow> 'r \<Rightarrow> nat"
  ABT_sched_get_pools :: "abt_handle \<Rightarrow> nat \<Rightarrow> 'r \<Rightarrow> abt_handle list"
  ABT_sched_config_read :: "abt_handle \<Rightarrow> 'r \<Rightarrow> u32 option \<times> owner option"
  ABT_xstream_check_events :: "abt_handle \<Rightarrow> 'r \<Rightarrow> 'r"
  ABT_sched_has_to_stop :: "abt_handle \<Rightarrow> 'r \<Rightarrow> bool \<times> 'r"

text \<open>The structs \<^verbatim>\<open>sched_data\<close>; an owner that was never written is \<open>None\<close>.\<close>

record base_data =
  bd_event_freq :: u32
  bd_num_pools :: nat
  bd_pools :: "abt_handle list"
  bd_tv_nsec :: int
  bd_stream :: "owner option"

record sub_data =
  sb_event_freq :: u32
  sb_num_pools :: nat
  sb_pools :: "abt_handle list"
  sb_load :: "owner option"

text \<open>
  The parameter block of an I/O of the application (\<^verbatim>\<open>include/st.h\<close>), on which the threads
  of the loads work; the pointer to a packet is not used.
\<close>

record io_param =
  io_used :: bool
  io_key :: USER_KEY_S
  io_load :: lptr

record 'r world =
  w_sys :: sys
  w_io :: "io_param list"
  w_base :: "nat \<rightharpoonup> base_data"
  w_sub :: "nat \<rightharpoonup> sub_data"
  w_rt :: 'r

type_synonym 'r runner = "abt_handle \<Rightarrow> abt_handle \<Rightarrow> 'r world \<Rightarrow> 'r world res"

definition SCHED_EVENT_FREQ :: u32 where "SCHED_EVENT_FREQ = 50"

definition MAX_BATCH_COUNT :: nat where "MAX_BATCH_COUNT = 16"

subsection \<open>The scheduler of a load: sub.c\<close>

definition sub_sched_data_get_ptr :: "'r sched_ops \<Rightarrow> abt_handle \<Rightarrow> 'r world \<Rightarrow> sub_data res" where
  "sub_sched_data_get_ptr S sched w =
     (case w_sub w (ABT_sched_get_data S sched (w_rt w)) of None \<Rightarrow> Inl InvalidPtr | Some d \<Rightarrow> Inr d)"

definition sub_sched_get_load :: "'r sched_ops \<Rightarrow> abt_handle \<Rightarrow> 'r world \<Rightarrow> owner option res" where
  "sub_sched_get_load S sched w =
     (if sched = 0 then Inr None else rbind (sub_sched_data_get_ptr S sched w) (\<lambda>d. Inr (sb_load d)))"

definition sub_sched_get_pool :: "'r sched_ops \<Rightarrow> abt_handle \<Rightarrow> 'r world \<Rightarrow> abt_handle res" where
  "sub_sched_get_pool S sched w =
     (if sched = 0 then Inr 0 else rbind (sub_sched_data_get_ptr S sched w) (\<lambda>d. idx (sb_pools d) 0))"

text \<open>
  The arrays of pools that both \<^verbatim>\<open>init\<close> functions allocate; \<open>a\<close> names the new struct.
  Neither result of \<^verbatim>\<open>malloc\<close> is checked.
\<close>

definition read_pools :: "'r sched_ops \<Rightarrow> abt_handle \<Rightarrow> sys \<Rightarrow> 'r \<Rightarrow> (abt_handle list \<times> sys) res" where
  "read_pools S sched s r =
     (case alloc s of (ok, s) \<Rightarrow>
      let n = ABT_sched_get_num_pools S sched r in
      if \<not> ok \<and> 0 < n then Inl OutOfMemory else Inr (ABT_sched_get_pools S sched n r, s))"

definition sub_sched_init :: "'r sched_ops \<Rightarrow> nat \<Rightarrow> abt_handle \<Rightarrow> abt_handle \<Rightarrow> 'r world \<Rightarrow> (int \<times> 'r world) res" where
  "sub_sched_init S a sched config w =
     (case alloc (w_sys w) of (ok, s) \<Rightarrow>
      if \<not> ok then Inl OutOfMemory
      else case ABT_sched_config_read S config (w_rt w) of (freq, own) \<Rightarrow>
        rbind (read_pools S sched s (w_rt w)) (\<lambda>(ps, s).
        case ABT_sched_set_data S sched a (w_rt w) of (ret, r) \<Rightarrow>
        Inr (ret, w\<lparr>w_sys := s, w_rt := r, w_sub := (w_sub w)(a \<mapsto>
          \<lparr>sb_event_freq = (case freq of None \<Rightarrow> SCHED_EVENT_FREQ | Some f \<Rightarrow> f),
           sb_num_pools = ABT_sched_get_num_pools S sched (w_rt w), sb_pools = ps, sb_load = own\<rparr>)\<rparr>)))"

text \<open>
  The inner loop of \<^verbatim>\<open>sub_sched_run\<close> on one pool, entered with a popped unit; it ends
  when the pool is empty or the batch is full.
\<close>

fun sub_drain :: "nat \<Rightarrow> 'r sched_ops \<Rightarrow> 'r runner \<Rightarrow> abt_handle \<Rightarrow> nat \<Rightarrow> 'r world \<Rightarrow> (nat \<times> 'r world) res" where
  "sub_drain fuel S run pool run_cnt w =
     (case ABT_pool_pop S pool (w_rt w) of (u, r) \<Rightarrow>
      let w = w\<lparr>w_rt := r\<rparr> in
      if u = 0 then Inr (run_cnt, w)
      else if fuel = 0 then Inl Diverge
      else rbind (run u pool w) (\<lambda>w.
        if run_cnt + 1 \<ge> MAX_BATCH_COUNT then Inr (run_cnt + 1, w)
        else sub_drain (fuel - 1) S run pool (run_cnt + 1) w))"

declare sub_drain.simps [simp del]

definition sub_round :: "'r sched_ops \<Rightarrow> 'r runner \<Rightarrow> sub_data \<Rightarrow> 'r world \<Rightarrow> (nat \<times> 'r world) res" where
  "sub_round S run d w =
     for_each (\<lambda>i (run_cnt, w). rbind (idx (sb_pools d) i) (\<lambda>pool. sub_drain MAX_BATCH_COUNT S run pool run_cnt w))
       [0..<sb_num_pools d] (0, w)"

text \<open>
  The outer loop repeats while a round has run some units, but not a full batch. As a thread may
  create threads without end, it has a budget of rounds.
\<close>

fun sub_rounds :: "nat \<Rightarrow> 'r sched_ops \<Rightarrow> 'r runner \<Rightarrow> sub_data \<Rightarrow> 'r world \<Rightarrow> 'r world res" where
  "sub_rounds fuel S run d w =
     (if fuel = 0 then Inl Diverge
      else rbind (sub_round S run d w) (\<lambda>(run_cnt, w).
        if run_cnt = 0 \<or> run_cnt \<ge> MAX_BATCH_COUNT then Inr w else sub_rounds (fuel - 1) S run d w))"

declare sub_rounds.simps [simp del]

definition sub_sched_run :: "nat \<Rightarrow> 'r sched_ops \<Rightarrow> 'r runner \<Rightarrow> abt_handle \<Rightarrow> 'r world \<Rightarrow> 'r world res" where
  "sub_sched_run fuel S run sched w =
     rbind (sub_sched_data_get_ptr S sched w) (\<lambda>d. sub_rounds fuel S run d w)"

definition sub_sched_free :: "'r sched_ops \<Rightarrow> abt_handle \<Rightarrow> 'r world \<Rightarrow> (int \<times> 'r world) res" where
  "sub_sched_free S sched w =
     rbind (sub_sched_data_get_ptr S sched w) (\<lambda>d.
     Inr (0, w\<lparr>w_sub := (w_sub w)(ABT_sched_get_data S sched (w_rt w) := None)\<rparr>))"

subsection \<open>The scheduler of a stream: base.c\<close>

definition sched_data_get_ptr :: "'r sched_ops \<Rightarrow> abt_handle \<Rightarrow> 'r world \<Rightarrow> base_data res" where
  "sched_data_get_ptr S sched w =
     (case w_base w (ABT_sched_get_data S sched (w_rt w)) of None \<Rightarrow> Inl InvalidPtr | Some d \<Rightarrow> Inr d)"

text \<open>The five access modes are all values of the type, so that the failing \<^verbatim>\<open>default\<close> is not reached.\<close>

definition pool_get_access_num :: "pool_access \<Rightarrow> int" where
  "pool_get_access_num ac = (case ac of
     ABT_POOL_ACCESS_PRIV \<Rightarrow> 0
   | ABT_POOL_ACCESS_SPSC \<Rightarrow> 1 | ABT_POOL_ACCESS_MPSC \<Rightarrow> 1
   | ABT_POOL_ACCESS_SPMC \<Rightarrow> 2 | ABT_POOL_ACCESS_MPMC \<Rightarrow> 2)"

definition sched_cmp_pools :: "(abt_handle \<Rightarrow> pool_access) \<Rightarrow> abt_handle \<Rightarrow> abt_handle \<Rightarrow> int" where
  "sched_cmp_pools ac p1 p2 =
     (let a1 = pool_get_access_num (ac p1); a2 = pool_get_access_num (ac p2) in
      if a1 > a2 then 1 else if a1 < a2 then -1 else 0)"

definition sched_sort_pools :: "abt_handle sorter \<Rightarrow> (abt_handle \<Rightarrow> pool_access) \<Rightarrow> abt_handle list \<Rightarrow> abt_handle list" where
  "sched_sort_pools qs ac ps = qs (sched_cmp_pools ac) ps"

definition sched_init ::
    "abt_handle sorter \<Rightarrow> 'r sched_ops \<Rightarrow> nat \<Rightarrow> abt_handle \<Rightarrow> abt_handle \<Rightarrow> 'r world \<Rightarrow> (int \<times> 'r world) res" where
  "sched_init qs S a sched config w =
     (case alloc (w_sys w) of (ok, s) \<Rightarrow>
      if \<not> ok then Inl OutOfMemory
      else case ABT_sched_config_read S config (w_rt w) of (freq, own) \<Rightarrow>
        rbind (read_pools S sched s (w_rt w)) (\<lambda>(ps, s).
        let n = ABT_sched_get_num_pools S sched (w_rt w);
            ps = (if n > 1 then sched_sort_pools qs (\<lambda>p. ABT_pool_get_access S p (w_rt w)) ps else ps) in
        case ABT_sched_set_data S sched a (w_rt w) of (ret, r) \<Rightarrow>
        Inr (ret, w\<lparr>w_sys := s, w_rt := r, w_base := (w_base w)(a \<mapsto>
          \<lparr>bd_event_freq = (case freq of None \<Rightarrow> SCHED_EVENT_FREQ | Some f \<Rightarrow> f),
           bd_num_pools = n, bd_pools = ps, bd_tv_nsec = 100, bd_stream = own\<rparr>)\<rparr>)))"

text \<open>The owner pointer used as a load or as a stream.\<close>

definition own_load :: "owner option \<Rightarrow> lptr res" where
  "own_load p = (case p of Some (OwnLoad l) \<Rightarrow> Inr l | _ \<Rightarrow> Inl InvalidPtr)"

definition own_stream :: "owner option \<Rightarrow> nat res" where
  "own_stream p = (case p of Some (OwnStream k) \<Rightarrow> Inr k | _ \<Rightarrow> Inl InvalidPtr)"

text \<open>
  The migration of a unit: the new stream is found by pointer arithmetic from the current one,
  the load's rank is updated, the unit goes to the new stream's pool.
\<close>

definition migrate_unit :: "'r sched_ops \<Rightarrow> nat \<Rightarrow> abt_handle \<Rightarrow> lptr \<Rightarrow> abtst_load \<Rightarrow> 'r world \<Rightarrow> 'r world res" where
  "migrate_unit S k u l ld w =
     rbind (idx_int (stream_array (streams (w_sys w))) (int k + sint (dest_rank ld - curr_rank ld))) (\<lambda>to.
     rbind (upd_load (w_sys w) l (\<lambda>ld. abtst_load_update_curr_rank ld (dest_rank ld))) (\<lambda>s.
     Inr (w\<lparr>w_sys := s, w_rt := ABT_pool_push S (stream_pool to) u (w_rt w)\<rparr>)))"

text \<open>The run of a sub-scheduler, unless its pool is empty and it has run before.\<close>

definition run_load :: "'r sched_ops \<Rightarrow> 'r runner \<Rightarrow> abt_handle \<Rightarrow> abt_handle \<Rightarrow> abt_handle \<Rightarrow> lptr \<Rightarrow> abtst_load \<Rightarrow> nat \<Rightarrow> 'r world \<Rightarrow> (nat \<times> 'r world) res" where
  "run_load S run u pool sub_pool l ld run_cnt w =
     (if ABT_pool_get_size S sub_pool (w_rt w) \<noteq> 0 \<or> \<not> load_used ld
      then rbind (upd_load (w_sys w) l (\<lambda>ld. ld\<lparr>load_used := True\<rparr>)) (\<lambda>s.
        rbind (run u pool (w\<lparr>w_sys := s\<rparr>)) (\<lambda>w. Inr (run_cnt + 1, w)))
      else Inr (run_cnt, w))"

text \<open>
  The inner loop of \<^verbatim>\<open>sched_run\<close>. It has a budget, because the units it runs may keep
  adding units to the pool.
\<close>

fun sched_inner ::
    "nat \<Rightarrow> 'r sched_ops \<Rightarrow> 'r runner \<Rightarrow> nat \<Rightarrow> abt_handle list \<Rightarrow> nat \<Rightarrow> nat \<Rightarrow> 'r world \<Rightarrow> (nat \<times> nat \<times> 'r world) res" where
  "sched_inner fuel S run k ps run_cnt run_subpool w =
     rbind (get_stream (w_sys w) k) (\<lambda>st.
     if abtst_stream_is_blocking st then Inr (run_cnt, run_subpool, w)
     else if fuel = 0 then Inl Diverge
     else rbind (idx ps 0) (\<lambda>pool.
       let pool_size = ABT_pool_get_size S pool (w_rt w) in
       case ABT_pool_pop S pool (w_rt w) of (u, r) \<Rightarrow>
       let w = w\<lparr>w_rt := r\<rparr>; sub_sched = ABT_unit_get_sched S u pool r in
       if u = 0 then Inr (run_cnt, run_subpool, w)
       else if sub_sched = 0 then rbind (run u pool w) (\<lambda>w. Inr (run_cnt + 1, run_subpool, w))
       else
         rbind (sub_sched_get_pool S sub_sched w) (\<lambda>sub_pool.
         rbind (rbind (sub_sched_get_load S sub_sched w) own_load) (\<lambda>l.
         rbind (get_load (w_sys w) l) (\<lambda>ld.
         if abtst_load_is_migrating ld \<and> curr_rank ld \<noteq> dest_rank ld
         then rbind (migrate_unit S k u l ld w) (\<lambda>w. sched_inner (fuel - 1) S run k ps run_cnt run_subpool w)
         else
           rbind (run_load S run u pool sub_pool l ld run_cnt w) (\<lambda>(run_cnt, w).
           let w = (if \<not> abtst_is_system_stopping (w_sys w) then w\<lparr>w_rt := ABT_pool_push S pool u (w_rt w)\<rparr> else w) in
           if run_subpool + 1 \<ge> pool_size then Inr (run_cnt, run_subpool + 1, w)
           else sched_inner (fuel - 1) S run k ps run_cnt (run_subpool + 1) w))))))"

declare sched_inner.simps [simp del]

text \<open>
  The pause between rounds: after a round that ran something the next pause is 100 ns, otherwise
  it doubles below 1 ms. A round that ran nothing sleeps and adds the pause to the stream's sleep
  time, a 32-bit number.
\<close>

definition next_pause :: "nat \<Rightarrow> int \<Rightarrow> int" where
  "next_pause run_cnt ns = (if run_cnt \<noteq> 0 then 100 else if ns < 10000 * 100 then ns * 2 else ns)"

definition sched_pause :: "nat \<Rightarrow> nat \<Rightarrow> nat \<Rightarrow> 'r world \<Rightarrow> 'r world res" where
  "sched_pause a k run_cnt w =
     (case w_base w a of None \<Rightarrow> Inl InvalidPtr | Some d \<Rightarrow>
      let ns = next_pause run_cnt (bd_tv_nsec d); w = w\<lparr>w_base := (w_base w)(a \<mapsto> d\<lparr>bd_tv_nsec := ns\<rparr>)\<rparr> in
      if run_cnt = 0
      then rbind (upd_stream (w_sys w) k (abtst_stream_update_sleep_time (word_of_int ns))) (\<lambda>s. Inr (w\<lparr>w_sys := s\<rparr>))
      else Inr w)"

text \<open>
  One round of the outer loop, with the variables \<^verbatim>\<open>work_count\<close> and \<^verbatim>\<open>stop\<close>; the first
  component of the result is \<open>True\<close> when the loop is left.
\<close>

definition sched_round ::
    "'r sched_ops \<Rightarrow> 'r runner \<Rightarrow> abt_handle \<Rightarrow> nat \<Rightarrow> nat \<Rightarrow> base_data \<Rightarrow> u32 \<times> bool \<times> 'r world \<Rightarrow> (bool \<times> u32 \<times> bool \<times> 'r world) res" where
  "sched_round S run sched a k d x =
     (case x of (work_count, stop, w) \<Rightarrow>
      rbind (sched_inner list_bound S run k (bd_pools d) 0 0 w) (\<lambda>(run_cnt, run_subpool, w).
      if work_count + 1 \<ge> bd_event_freq d
      then
        let r = ABT_xstream_check_events S sched (w_rt w);
            (stop, r) = (if \<not> stop then ABT_sched_has_to_stop S sched r else (stop, r));
            w = w\<lparr>w_rt := r\<rparr> in
        if run_cnt = 0 \<and> run_subpool = 0 \<and> stop then Inr (True, work_count + 1, stop, w)
        else rbind (sched_pause a k run_cnt w) (\<lambda>w. Inr (False, 0, stop, w))
      else rbind (sched_pause a k run_cnt w) (\<lambda>w. Inr (False, work_count + 1, stop, w))))"

text \<open>The loop runs until it is told to stop; a budget bounds the rounds the model looks at.\<close>

fun sched_rounds ::
    "nat \<Rightarrow> 'r sched_ops \<Rightarrow> 'r runner \<Rightarrow> abt_handle \<Rightarrow> nat \<Rightarrow> nat \<Rightarrow> base_data \<Rightarrow> u32 \<times> bool \<times> 'r world \<Rightarrow> 'r world res" where
  "sched_rounds 0 S run sched a k d x = Inl Diverge"
| "sched_rounds (Suc fuel) S run sched a k d x =
     rbind (sched_round S run sched a k d x) (\<lambda>(left, x).
     if left then Inr (snd (snd x)) else sched_rounds fuel S run sched a k d x)"

definition sched_run :: "nat \<Rightarrow> 'r sched_ops \<Rightarrow> 'r runner \<Rightarrow> abt_handle \<Rightarrow> 'r world \<Rightarrow> 'r world res" where
  "sched_run fuel S run sched w =
     rbind (sched_data_get_ptr S sched w) (\<lambda>d.
     rbind (own_stream (bd_stream d)) (\<lambda>k.
     sched_rounds fuel S run sched (ABT_sched_get_data S sched (w_rt w)) k d (0, False, w)))"

definition sched_free :: "'r sched_ops \<Rightarrow> abt_handle \<Rightarrow> 'r world \<Rightarrow> (int \<times> 'r world) res" where
  "sched_free S sched w =
     rbind (sched_data_get_ptr S sched w) (\<lambda>d.
     Inr (0, w\<lparr>w_base := (w_base w)(ABT_sched_get_data S sched (w_rt w) := None)\<rparr>))"

end
