(* ===== verification/App.thy ===== *)
theory App
  imports Init Sched
begin

text \<open>
  The application: \<^verbatim>\<open>src/app/st.c\<close>, the work of one I/O, and \<^verbatim>\<open>src/app/main.c\<close>, which
  sets the system up, keeps \<open>PARALLEL_IOS\<close> I/Os in flight and shuts the system down. An I/O is
  a block of parameters; its thread is created in the pool of the load that its key maps to.
  \<^verbatim>\<open>ABT_thread_create\<close> is a parameter: it gets the pool and the position of the block.
\<close>

subsection \<open>The storage application: st.c\<close>

definition st_init :: int where "st_init = 0"

definition st_finalize :: int where "st_finalize = 0"

text \<open>
  \<^verbatim>\<open>st_thread_func\<close>. Its loop of 10000 rounds only computes a number that is not used. What
  is left are two accesses to shared memory: the block is given back, then the load that the
  block names is told that an I/O has ended. The main thread may run in between.
\<close>

definition st_release :: "nat \<Rightarrow> io_param list \<Rightarrow> io_param list res" where
  "st_release i io = rbind (idx io i) (\<lambda>p. put io i (p\<lparr>io_used := False\<rparr>))"

definition st_end :: "nat \<Rightarrow> sys \<Rightarrow> io_param list \<Rightarrow> sys res" where
  "st_end i s io = rbind (idx io i) (\<lambda>p. upd_load s (io_load p) abtst_load_inc_ended)"

definition st_thread_func :: "nat \<Rightarrow> sys \<times> io_param list \<Rightarrow> (sys \<times> io_param list) res" where
  "st_thread_func i x = (case x of (s, io) \<Rightarrow>
     rbind (st_release i io) (\<lambda>io. rbind (st_end i s io) (\<lambda>s. Inr (s, io))))"

subsection \<open>Issuing I/Os: main.c\<close>

definition HASH_TABLE_BUCKETS :: u32 where "HASH_TABLE_BUCKETS = 1024 * 8 * 16"

definition HASH_BLOCK_SIZE :: u32 where "HASH_BLOCK_SIZE = 64 * 1024"

definition PARALLEL_IOS :: nat where "PARALLEL_IOS = 128 * 8"

type_synonym 'r thread_create = "abt_handle \<Rightarrow> nat \<Rightarrow> 'r \<Rightarrow> int \<times> 'r"

text \<open>
  The body of the loop over the parameter blocks, in four parts: a block that is not in use is
  taken, the key and the load that it maps to are written to the block, a thread is created for
  it, and the I/O is counted. The threads of other I/Os run in between, and after the third part
  the new thread does, too. A block in use is skipped. When no thread could be created the loop
  is left, with the block still in use.
\<close>

definition issue_take :: "nat \<Rightarrow> 'r world \<Rightarrow> (bool \<times> 'r world) res" where
  "issue_take i w =
     rbind (idx (w_io w) i) (\<lambda>p.
     if io_used p then Inr (False, w)
     else Inr (True, w\<lparr>w_io := (w_io w)[i := p\<lparr>io_used := True\<rparr>]\<rparr>))"

definition issue_fill :: "u32 \<Rightarrow> nat \<Rightarrow> nat \<Rightarrow> u64 \<Rightarrow> 'r world \<Rightarrow> (lptr \<times> 'r world) res" where
  "issue_fill rnd mid i lb w =
     (let key = \<lparr>lba = lb, volumeId = 1\<rparr> in
      rbind (idx (w_io w) i) (\<lambda>p.
      rbind (map_key_to_load rnd (w_sys w) (int mid) key) (\<lambda>l.
      Inr ((mid, unat l), w\<lparr>w_io := (w_io w)[i := p\<lparr>io_key := key, io_load := (mid, unat l)\<rparr>]\<rparr>))))"

definition issue_thread :: "'r thread_create \<Rightarrow> nat \<Rightarrow> lptr \<Rightarrow> 'r world \<Rightarrow> (int \<times> 'r world) res" where
  "issue_thread C i l w =
     rbind (get_load (w_sys w) l) (\<lambda>ld.
     case C (load_pool ld) i (w_rt w) of (ret, r) \<Rightarrow> Inr (ret, w\<lparr>w_rt := r\<rparr>))"

definition issue_count :: "lptr \<Rightarrow> 'r world \<Rightarrow> 'r world res" where
  "issue_count l w = rbind (upd_load (w_sys w) l abtst_load_inc_started) (\<lambda>s. Inr (w\<lparr>w_sys := s\<rparr>))"

definition issue_io ::
    "'r thread_create \<Rightarrow> u32 \<Rightarrow> nat \<Rightarrow> nat \<Rightarrow> u64 \<times> nat \<times> 'r world \<Rightarrow> (int \<times> u64 \<times> nat \<times> 'r world) res" where
  "issue_io C rnd mid i x = (case x of (lb, cnt, w) \<Rightarrow>
     rbind (issue_take i w) (\<lambda>(free, w).
     if \<not> free then Inr (0, lb, cnt, w)
     else
       rbind (issue_fill rnd mid i lb w) (\<lambda>(l, w).
       rbind (issue_thread C i l w) (\<lambda>(ret, w).
       if ret \<noteq> 0 then Inr (ret, lb, cnt, w)
       else rbind (issue_count l w) (\<lambda>w. Inr (0, lb + ucast HASH_BLOCK_SIZE, cnt + 1, w))))))"

fun issue_ios ::
    "'r thread_create \<Rightarrow> u32 \<Rightarrow> nat \<Rightarrow> nat list \<Rightarrow> u64 \<times> nat \<times> 'r world \<Rightarrow> (int \<times> u64 \<times> nat \<times> 'r world) res" where
  "issue_ios C rnd mid [] x = Inr (0, x)"
| "issue_ios C rnd mid (i # is) x =
     rbind (issue_io C rnd mid i x) (\<lambda>(ret, x). if ret \<noteq> 0 then Inr (ret, x) else issue_ios C rnd mid is x)"

text \<open>
  The endless loop of \<^verbatim>\<open>main\<close>, left when ten seconds have passed: the number of rounds is
  given. \<open>others n\<close> is what the other threads do to the world during the sleep of round \<open>n\<close>.
\<close>

fun io_loop ::
    "'r thread_create \<Rightarrow> u32 \<Rightarrow> nat \<Rightarrow> (nat \<Rightarrow> 'r world \<Rightarrow> 'r world res) \<Rightarrow> nat \<Rightarrow> u64 \<times> nat \<times> 'r world \<Rightarrow> 'r world res" where
  "io_loop C rnd mid others 0 x = Inr (snd (snd x))"
| "io_loop C rnd mid others (Suc n) x =
     rbind (issue_ios C rnd mid [0..<PARALLEL_IOS] x) (\<lambda>(ret, lb, cnt, w).
     if ret \<noteq> 0 then Inr w
     else rbind (others n w) (\<lambda>w. io_loop C rnd mid others n (lb, cnt, w)))"

subsection \<open>Start and end: main.c\<close>

definition zero_io :: io_param where
  "zero_io = \<lparr>io_used = False, io_key = \<lparr>lba = 0, volumeId = 0\<rparr>, io_load = (0, 0)\<rparr>"

definition zero_hash :: hash_info where
  "zero_hash = \<lparr>total_buckets = 0, block_size = 0, hash_fn = abtst_hash_func\<rparr>"

text \<open>The steps before the loop; \<open>None\<close> for a jump to the exit.\<close>

definition main_setup :: "'r argobots \<Rightarrow> machine \<Rightarrow> int \<Rightarrow> sys \<Rightarrow> 'r \<Rightarrow> (nat option \<times> sys \<times> 'r) res" where
  "main_setup A M thr s r =
     rbind (abtst_init A M thr None s r) (\<lambda>(ret, s, r).
     if ret \<noteq> 0 then Inr (None, s, r)
     else
       rbind (abtst_create_mapping A s r 0 (Some (set_hash_info zero_hash HASH_TABLE_BUCKETS HASH_BLOCK_SIZE abtst_hash_func)) 0) (\<lambda>(mid, s, r).
       if mid < 0 then Inr (None, s, r)
       else
         rbind (abtst_create_mapping A s r 1 None 1) (\<lambda>(ret, s, r).
         if ret < 0 \<or> st_init \<noteq> 0 then Inr (None, s, r)
         else Inr (Some (nat mid), abtst_set_rebalance_level (abtst_set_rebalance_verbose s 2) 1, r))))"

text \<open>The exit: the flag is set before the streams are joined.\<close>

definition main_exit :: "'r argobots \<Rightarrow> sys \<Rightarrow> 'r \<Rightarrow> (sys \<times> 'r) res" where
  "main_exit A s r =
     rbind (abtst_finalize A (abtst_set_stopping s) r) (\<lambda>(ret, s, r). Inr (abtst_free s, r))"

text \<open>
  \<^verbatim>\<open>main\<close>, with the result of \<^verbatim>\<open>ABT_init\<close>, the number of rounds of the loop, the
  work of the other threads and the scheduler data that the call-backs of Argobots left during
  the set-up (\<open>stores\<close>) as parameters.
\<close>

definition main ::
    "'r argobots \<Rightarrow> machine \<Rightarrow> int \<Rightarrow> 'r thread_create \<Rightarrow> u32 \<Rightarrow> (nat \<Rightarrow> 'r world \<Rightarrow> 'r world res) \<Rightarrow> nat \<Rightarrow> int
     \<Rightarrow> (nat \<rightharpoonup> base_data) \<times> (nat \<rightharpoonup> sub_data) \<Rightarrow> sys \<Rightarrow> 'r \<Rightarrow> (int \<times> sys \<times> 'r) res" where
  "main A M thr C rnd others rounds abt_ret stores s r =
     (case alloc s of (ok, s) \<Rightarrow>
      if \<not> ok then Inr (-1, s, r)
      else if abt_ret \<noteq> 0 then Inr (abt_ret, s, r)
      else
        rbind (main_setup A M thr s r) (\<lambda>(mid, s, r).
        rbind (case mid of None \<Rightarrow> Inr (s, r)
          | Some m \<Rightarrow>
              rbind (io_loop C rnd m others rounds (0, 0, \<lparr>w_sys = s, w_io = replicate PARALLEL_IOS zero_io,
                w_base = fst stores, w_sub = snd stores, w_rt = r\<rparr>)) (\<lambda>w. Inr (w_sys w, w_rt w))) (\<lambda>(s, r).
        rbind (main_exit A s r) (\<lambda>(s, r). Inr (0, s, r)))))"

end
