(* ===== verification/App_Inv.thy ===== *)
theory App_Inv
  imports App Stream_Inv
begin

text \<open>
  I/Os in flight. The main thread issues I/Os, the threads of the loads complete them, and
  anything else that happens leaves the counters alone. The state remembers where these are
  interrupted: how far the main thread is with a block, and the blocks that a thread has given
  back without having counted the end of its I/O. A thread that could not be created ends the
  loop; its block stays in use and has no thread.

  The code lets the main thread take a block again whose thread has not counted its end. With
  \<open>careful\<close> it does not: then the counters of every load tell its I/Os in flight, and the queue
  depth that the rebalancer measures is their number. Without it, the end is counted for the
  wrong load.
\<close>

declare split_paired_All [simp del] split_paired_Ex [simp del]

text \<open>
  The main thread in the body of its loop: before it, with block \<open>i\<close> taken for the address
  \<open>lb\<close>, with the load written to the block, with a thread created that is not counted, or out
  of the loop because no thread could be created for the block.
\<close>

datatype issuer = Idle | Taken nat u64 | Filled nat lptr | Created lptr | Failed nat

record 'r io_state =
  io_pc :: issuer
  io_half :: "nat list"
  io_world :: "'r world"

definition same_counts :: "'r world \<Rightarrow> 'r world \<Rightarrow> bool" where
  "same_counts w w' \<longleftrightarrow> w_io w' = w_io w \<and> valid_load (w_sys w') = valid_load (w_sys w) \<and>
     (\<forall>l. valid_load (w_sys w) l \<longrightarrow> pkt_started (load_at (w_sys w') l) = pkt_started (load_at (w_sys w) l) \<and>
        pkt_ended (load_at (w_sys w') l) = pkt_ended (load_at (w_sys w) l))"

text \<open>A block has a thread to run when it is in use and the main thread is done with it.\<close>

fun unstarted :: "issuer \<Rightarrow> nat option" where
  "unstarted Idle = None"
| "unstarted (Taken i lb) = Some i"
| "unstarted (Filled i l) = Some i"
| "unstarted (Created l) = None"
| "unstarted (Failed i) = Some i"

definition running :: "'r io_state \<Rightarrow> nat \<Rightarrow> bool" where
  "running x i \<longleftrightarrow> i < length (w_io (io_world x)) \<and> io_used (w_io (io_world x) ! i) \<and> unstarted (io_pc x) \<noteq> Some i"

definition block_load :: "'r io_state \<Rightarrow> nat \<Rightarrow> lptr" where
  "block_load x i = io_load (w_io (io_world x) ! i)"

inductive io_step :: "bool \<Rightarrow> 'r thread_create \<Rightarrow> nat \<Rightarrow> 'r io_state \<Rightarrow> 'r io_state \<Rightarrow> bool"
  for careful :: bool and C :: "'r thread_create" and mid :: nat where
  take: "issue_take i w = Inr (True, w') \<Longrightarrow> careful \<longrightarrow> i \<notin> set hs \<Longrightarrow>
    io_step careful C mid \<lparr>io_pc = Idle, io_half = hs, io_world = w\<rparr> \<lparr>io_pc = Taken i lb, io_half = hs, io_world = w'\<rparr>"
| fill: "issue_fill rnd mid i lb w = Inr (l, w') \<Longrightarrow>
    io_step careful C mid \<lparr>io_pc = Taken i lb, io_half = hs, io_world = w\<rparr> \<lparr>io_pc = Filled i l, io_half = hs, io_world = w'\<rparr>"
| thread: "issue_thread C i l w = Inr (ret, w') \<Longrightarrow>
    io_step careful C mid \<lparr>io_pc = Filled i l, io_half = hs, io_world = w\<rparr>
      \<lparr>io_pc = (if ret = 0 then Created l else Failed i), io_half = hs, io_world = w'\<rparr>"
| count: "issue_count l w = Inr w' \<Longrightarrow>
    io_step careful C mid \<lparr>io_pc = Created l, io_half = hs, io_world = w\<rparr> \<lparr>io_pc = Idle, io_half = hs, io_world = w'\<rparr>"
| release: "running \<lparr>io_pc = pc, io_half = hs, io_world = w\<rparr> i \<Longrightarrow> st_release i (w_io w) = Inr io \<Longrightarrow>
    io_step careful C mid \<lparr>io_pc = pc, io_half = hs, io_world = w\<rparr> \<lparr>io_pc = pc, io_half = i # hs, io_world = w\<lparr>w_io := io\<rparr>\<rparr>"
| finish: "i \<in> set hs \<Longrightarrow> st_end i (w_sys w) (w_io w) = Inr s \<Longrightarrow>
    io_step careful C mid \<lparr>io_pc = pc, io_half = hs, io_world = w\<rparr> \<lparr>io_pc = pc, io_half = remove1 i hs, io_world = w\<lparr>w_sys := s\<rparr>\<rparr>"
| other: "same_counts w w' \<Longrightarrow>
    io_step careful C mid \<lparr>io_pc = pc, io_half = hs, io_world = w\<rparr> \<lparr>io_pc = pc, io_half = hs, io_world = w'\<rparr>"

inductive io_reachable :: "bool \<Rightarrow> 'r thread_create \<Rightarrow> nat \<Rightarrow> 'r world \<Rightarrow> 'r io_state \<Rightarrow> bool"
  for careful :: bool and C :: "'r thread_create" and mid :: nat and w0 :: "'r world" where
  start: "io_reachable careful C mid w0 \<lparr>io_pc = Idle, io_half = [], io_world = w0\<rparr>"
| step: "io_reachable careful C mid w0 x \<Longrightarrow> io_step careful C mid x y \<Longrightarrow> io_reachable careful C mid w0 y"

text \<open>
  The I/Os of a load: with a thread that has not given its block back, and between the two
  accesses of their thread. One of them may not be counted yet.
\<close>

definition in_flight :: "'r io_state \<Rightarrow> lptr \<Rightarrow> nat" where
  "in_flight x l = length (filter (\<lambda>i. running x i \<and> block_load x i = l) [0..<length (w_io (io_world x))])"

definition ending :: "'r io_state \<Rightarrow> lptr \<Rightarrow> nat" where
  "ending x l = length (filter (\<lambda>i. block_load x i = l) (io_half x))"

definition uncounted :: "'r io_state \<Rightarrow> lptr \<Rightarrow> nat" where
  "uncounted x l = (if io_pc x = Created l then 1 else 0)"

definition io_balanced :: "'r io_state \<Rightarrow> lptr \<Rightarrow> bool" where
  "io_balanced x l \<longleftrightarrow> pkt_started (load_at (w_sys (io_world x)) l) + of_nat (uncounted x l) =
     pkt_ended (load_at (w_sys (io_world x)) l) + of_nat (in_flight x l + ending x l)"

text \<open>What the position of the main thread says of the block it is at.\<close>

fun pc_ok :: "issuer \<Rightarrow> 'r world \<Rightarrow> bool" where
  "pc_ok Idle w = True"
| "pc_ok (Taken i lb) w = (i < length (w_io w) \<and> io_used (w_io w ! i))"
| "pc_ok (Filled i l) w = (i < length (w_io w) \<and> io_used (w_io w ! i) \<and> io_load (w_io w ! i) = l)"
| "pc_ok (Created l) w = valid_load (w_sys w) l"
| "pc_ok (Failed i) w = True"

definition io_inv :: "nat \<Rightarrow> 'r io_state \<Rightarrow> bool" where
  "io_inv N x \<longleftrightarrow> length (w_io (io_world x)) = N \<and> distinct (io_half x) \<and>
     (\<forall>i \<in> set (io_half x). i < N \<and> \<not> io_used (w_io (io_world x) ! i)) \<and>
     (\<forall>i < N. running x i \<or> i \<in> set (io_half x) \<longrightarrow> valid_load (w_sys (io_world x)) (block_load x i)) \<and>
     pc_ok (io_pc x) (io_world x) \<and>
     (\<forall>l. valid_load (w_sys (io_world x)) l \<longrightarrow> io_balanced x l)"

text \<open>At the start no block is in use and no load has an I/O.\<close>

definition io_start :: "'r world \<Rightarrow> bool" where
  "io_start w \<longleftrightarrow> (\<forall>p \<in> set (w_io w). \<not> io_used p) \<and>
     (\<forall>l. valid_load (w_sys w) l \<longrightarrow> pkt_started (load_at (w_sys w) l) = pkt_ended (load_at (w_sys w) l))"

lemma io_invI:
  assumes "length (w_io (io_world x)) = N" "distinct (io_half x)"
    "\<And>i. i \<in> set (io_half x) \<Longrightarrow> i < N \<and> \<not> io_used (w_io (io_world x) ! i)"
    "\<And>i. i < N \<Longrightarrow> running x i \<or> i \<in> set (io_half x) \<Longrightarrow> valid_load (w_sys (io_world x)) (block_load x i)"
    "pc_ok (io_pc x) (io_world x)"
    "\<And>l. valid_load (w_sys (io_world x)) l \<Longrightarrow> io_balanced x l"
  shows "io_inv N x"
  using assms unfolding io_inv_def by blast

lemma io_invD:
  assumes "io_inv N x"
  shows "length (w_io (io_world x)) = N" "distinct (io_half x)"
    "i \<in> set (io_half x) \<Longrightarrow> i < N \<and> \<not> io_used (w_io (io_world x) ! i)"
    "i < N \<Longrightarrow> running x i \<or> i \<in> set (io_half x) \<Longrightarrow> valid_load (w_sys (io_world x)) (block_load x i)"
    "pc_ok (io_pc x) (io_world x)"
    "valid_load (w_sys (io_world x)) l \<Longrightarrow> io_balanced x l"
  using assms unfolding io_inv_def by blast+

lemma io_start_inv: "io_start w \<Longrightarrow> io_inv (length (w_io w)) \<lparr>io_pc = Idle, io_half = [], io_world = w\<rparr>"
  by (rule io_invI) (auto simp: io_start_def io_balanced_def uncounted_def in_flight_def ending_def running_def)

subsection \<open>Counting blocks\<close>

lemma filter_upt_change:
  assumes "i < n" and "\<And>j. j < n \<Longrightarrow> j \<noteq> i \<Longrightarrow> Q j = P j"
  shows "length (filter Q [0..<n]) + (if P i then 1 else 0) = length (filter P [0..<n]) + (if Q i then 1 else 0)"
  using assms
proof (induction n)
  case (Suc n)
  show ?case
  proof (cases "i = n")
    case True
    then have "filter Q [0..<n] = filter P [0..<n]" using Suc.prems(2) by (intro filter_cong) auto
    then show ?thesis using True by simp
  next
    case False
    then show ?thesis using Suc.IH Suc.prems by auto
  qed
qed simp

lemma filter_remove1_count:
  "i \<in> set xs \<Longrightarrow> length (filter P (remove1 i xs)) + (if P i then 1 else 0) = length (filter P xs)"
  by (induction xs) auto

text \<open>A step that changes block \<open>i\<close> at most changes the I/Os in flight by that block.\<close>

lemma in_flight_change:
  assumes "length (w_io (io_world y)) = length (w_io (io_world x))" and "i < length (w_io (io_world x))"
    and "\<And>j. j \<noteq> i \<Longrightarrow> running y j = running x j \<and> block_load y j = block_load x j"
  shows "in_flight y l + (if running x i \<and> block_load x i = l then 1 else 0) =
    in_flight x l + (if running y i \<and> block_load y i = l then 1 else 0)"
  unfolding in_flight_def assms(1) by (rule filter_upt_change) (use assms(2,3) in auto)

lemma ending_change:
  assumes "io_half y = io_half x" and "\<And>j. j \<in> set (io_half x) \<Longrightarrow> block_load y j = block_load x j"
  shows "ending y l = ending x l"
  using assms unfolding ending_def by (auto intro!: arg_cong [of _ _ length] filter_cong)

lemma balance_change:
  fixes S E :: "'a::ab_group_add"
  assumes "S + u = E + f" and "f' + u = f + u'"
  shows "S + u' = E + f'"
proof -
  have "S + u' + u = E + f + u'" using assms(1) by (simp add: ac_simps)
  also have "\<dots> = E + (f' + u)" unfolding assms(2) by (simp add: ac_simps)
  finally have "(S + u') + u = (E + f') + u" by (simp add: ac_simps)
  then show ?thesis by (rule add_right_imp_eq)
qed

lemma io_balanced_change:
  assumes "io_balanced x l" and "w_sys (io_world y) = w_sys (io_world x)"
    and "in_flight y l + ending y l + uncounted x l = in_flight x l + ending x l + uncounted y l"
  shows "io_balanced y l"
  unfolding io_balanced_def assms(2)
  by (rule balance_change [OF assms(1) [unfolded io_balanced_def]]) (simp only: assms(3) flip: of_nat_add)

subsection \<open>The steps\<close>

lemma issue_takeD:
  assumes "issue_take i w = Inr (True, w')"
  shows "i < length (w_io w)" "\<not> io_used (w_io w ! i)" "w' = w\<lparr>w_io := (w_io w)[i := (w_io w ! i)\<lparr>io_used := True\<rparr>]\<rparr>"
  using assms by (auto simp: issue_take_def idx_def split: if_splits)

lemma issue_fillD:
  assumes "issue_fill rnd mid i lb w = Inr (l, w')"
  shows "i < length (w_io w)"
    "w' = w\<lparr>w_io := (w_io w)[i := (w_io w ! i)\<lparr>io_key := \<lparr>lba = lb, volumeId = 1\<rparr>, io_load := l\<rparr>]\<rparr>"
  using assms by (auto simp: issue_fill_def idx_def Let_def rbind_eq_Inr split: if_splits)

lemma issue_threadD:
  assumes "issue_thread C i l w = Inr (ret, w')"
  shows "valid_load (w_sys w) l" "w' = w\<lparr>w_rt := snd (C (load_pool (load_at (w_sys w) l)) i (w_rt w))\<rparr>"
    "ret = fst (C (load_pool (load_at (w_sys w) l)) i (w_rt w))"
proof -
  show "valid_load (w_sys w) l"
    using assms by (cases l) (auto simp: issue_thread_def get_load_def valid_load_def idx_def rbind_eq_Inr split: if_splits)
  with assms show "w' = w\<lparr>w_rt := snd (C (load_pool (load_at (w_sys w) l)) i (w_rt w))\<rparr>"
    "ret = fst (C (load_pool (load_at (w_sys w) l)) i (w_rt w))"
    by (auto simp: issue_thread_def split: prod.splits)
qed

text \<open>
  A step of the main thread on a block \<open>i\<close> that has no thread and is not given back leaves the
  I/Os of the other blocks alone.
\<close>

lemma main_step_inv:
  assumes inv: "io_inv N x" and y: "io_half y = io_half x" "w_sys (io_world y) = w_sys (io_world x)" "length (w_io (io_world y)) = N"
    and i: "i < N" "\<not> running x i" "i \<notin> set (io_half x)"
    and same: "\<And>j. j \<noteq> i \<Longrightarrow> w_io (io_world y) ! j = w_io (io_world x) ! j \<and> running y j = running x j"
    and pc: "pc_ok (io_pc y) (io_world y)" "running y i \<Longrightarrow> valid_load (w_sys (io_world x)) (block_load y i)"
    and count: "\<And>l. (if running y i \<and> block_load y i = l then 1 else 0) + uncounted x l = uncounted y l"
  shows "io_inv N y"
proof (rule io_invI)
  note x = io_invD [OF inv]
  have bl: "block_load y j = block_load x j" if "j \<noteq> i" for j using same [OF that] by (simp add: block_load_def)
  show "length (w_io (io_world y)) = N" "distinct (io_half y)" "pc_ok (io_pc y) (io_world y)" using x(2) y pc by simp_all
  show "j < N \<and> \<not> io_used (w_io (io_world y) ! j)" if "j \<in> set (io_half y)" for j
    using that x(3) [of j] y(1) i(3) same [of j] by (cases "j = i") auto
  show "valid_load (w_sys (io_world y)) (block_load y j)" if "j < N" "running y j \<or> j \<in> set (io_half y)" for j
    using that x(4) [of j] y i pc(2) same [of j] bl [of j] by (cases "j = i") auto
  show "io_balanced y l" if "valid_load (w_sys (io_world y)) l" for l
  proof (rule io_balanced_change [OF x(6) y(2)])
    show "valid_load (w_sys (io_world x)) l" using that y(2) by simp
    have "in_flight y l = in_flight x l + (if running y i \<and> block_load y i = l then 1 else 0)"
      using in_flight_change [of y x i l] y(3) x(1) i same bl by simp
    moreover have "ending y l = ending x l" using ending_change [of y x l] y(1) bl i(3) by metis
    ultimately show "in_flight y l + ending y l + uncounted x l = in_flight x l + ending x l + uncounted y l"
      using count [of l] by simp
  qed
qed

lemma take_inv:
  assumes inv: "io_inv N \<lparr>io_pc = Idle, io_half = hs, io_world = w\<rparr>"
    and c: "issue_take i w = Inr (True, w')" and i: "i \<notin> set hs"
  shows "io_inv N \<lparr>io_pc = Taken i lb, io_half = hs, io_world = w'\<rparr>"
  using issue_takeD [OF c] i io_invD(1) [OF inv]
  by (intro main_step_inv [OF inv, of _ i]) (auto simp: running_def uncounted_def nth_update_if)

lemma fill_inv:
  assumes inv: "io_inv N \<lparr>io_pc = Taken i lb, io_half = hs, io_world = w\<rparr>" and c: "issue_fill rnd mid i lb w = Inr (l, w')"
  shows "io_inv N \<lparr>io_pc = Filled i l, io_half = hs, io_world = w'\<rparr>"
  using issue_fillD [OF c] io_invD(1,5) [OF inv] io_invD(3) [OF inv, of i]
  by (intro main_step_inv [OF inv, of _ i]) (auto simp: running_def uncounted_def nth_update_if)

lemma thread_inv:
  assumes inv: "io_inv N \<lparr>io_pc = Filled i l, io_half = hs, io_world = w\<rparr>" and c: "issue_thread C i l w = Inr (ret, w')"
  shows "io_inv N \<lparr>io_pc = (if ret = 0 then Created l else Failed i), io_half = hs, io_world = w'\<rparr>"
  using issue_threadD [OF c] io_invD(1,5) [OF inv] io_invD(3) [OF inv, of i]
  by (intro main_step_inv [OF inv, of _ i]) (auto simp: running_def uncounted_def block_load_def)

lemma count_inv:
  assumes inv: "io_inv N \<lparr>io_pc = Created l, io_half = hs, io_world = w\<rparr>" (is "io_inv N ?x") and c: "issue_count l w = Inr w'"
  shows "io_inv N \<lparr>io_pc = Idle, io_half = hs, io_world = w'\<rparr>" (is "io_inv N ?y")
proof -
  note x = io_invD [OF inv, simplified]
  have vl: "valid_load (w_sys w) l" using x(5) by simp
  then have w': "w' = w\<lparr>w_sys := set_load (w_sys w) l abtst_load_inc_started\<rparr>" using c by (simp add: issue_count_def)
  have same: "running ?y = running ?x" "block_load ?y = block_load ?x"
    by (auto simp: running_def block_load_def w' fun_eq_iff)
  have "io_balanced ?y l'" if "valid_load (w_sys w) l'" for l'
    using x(6) [OF that] vl
    by (auto simp: w' [symmetric] same io_balanced_def uncounted_def in_flight_def ending_def)
      (auto simp: w' abtst_load_inc_started_def ac_simps)
  then show ?thesis
    using x(1-4) vl same by (intro io_invI) (auto simp: w')
qed

lemma release_inv:
  assumes inv: "io_inv N \<lparr>io_pc = pc, io_half = hs, io_world = w\<rparr>" (is "io_inv N ?x")
    and i: "running \<lparr>io_pc = pc, io_half = hs, io_world = w\<rparr> i" and r: "st_release i (w_io w) = Inr io"
  shows "io_inv N \<lparr>io_pc = pc, io_half = i # hs, io_world = w\<lparr>w_io := io\<rparr>\<rparr>" (is "io_inv N ?y")
proof -
  note x = io_invD [OF inv, simplified]
  have i': "i < length (w_io w)" "io_used (w_io w ! i)" "unstarted pc \<noteq> Some i" using i by (auto simp: running_def)
  have io: "io = (w_io w)[i := (w_io w ! i)\<lparr>io_used := False\<rparr>]" using r i'(1) by (simp add: st_release_def)
  then have len: "length io = length (w_io w)" by simp
  have new: "i \<notin> set hs" using x(3) i'(2) by blast
  have same: "block_load ?y = block_load ?x" "running ?y j = (running ?x j \<and> j \<noteq> i)" for j
    by (auto simp: block_load_def running_def io nth_update_if fun_eq_iff)
  have bal: "io_balanced ?y l" if "valid_load (w_sys w) l" for l
  proof (rule io_balanced_change [OF x(6) [OF that]])
    have "in_flight ?y l + (if block_load ?x i = l then 1 else 0) = in_flight ?x l"
      using in_flight_change [of ?y ?x i l] i i'(1) len by (auto simp: same)
    moreover have "ending ?y l = ending ?x l + (if block_load ?x i = l then 1 else 0)" by (simp add: ending_def same(1))
    ultimately show "in_flight ?y l + ending ?y l + uncounted ?x l = in_flight ?x l + ending ?x l + uncounted ?y l"
      by (simp add: uncounted_def)
  qed simp
  have pc: "pc_ok pc (w\<lparr>w_io := io\<rparr>)" using x(5) i'(3) by (cases pc) (auto simp: io nth_update_if)
  show ?thesis
    using x(1-4) new i i' pc bal len
    by (intro io_invI) (auto simp: same, auto simp: io nth_update_if split: if_splits)
qed

lemma finish_inv:
  assumes inv: "io_inv N \<lparr>io_pc = pc, io_half = hs, io_world = w\<rparr>" (is "io_inv N ?x")
    and i: "i \<in> set hs" and e: "st_end i (w_sys w) (w_io w) = Inr s"
  shows "io_inv N \<lparr>io_pc = pc, io_half = remove1 i hs, io_world = w\<lparr>w_sys := s\<rparr>\<rparr>" (is "io_inv N ?y")
proof -
  note x = io_invD [OF inv, simplified]
  let ?l = "block_load ?x i"
  have lt: "i < length (w_io w)" "\<not> io_used (w_io w ! i)" using x(1) x(3) [OF i] by auto
  have vl: "valid_load (w_sys w) ?l" using x(1) x(4) [of i] i lt by simp
  then have s: "s = set_load (w_sys w) ?l abtst_load_inc_ended" using e lt by (simp add: st_end_def block_load_def)
  have same: "running ?y = running ?x" "block_load ?y = block_load ?x"
    by (auto simp: running_def block_load_def fun_eq_iff)
  have bal: "io_balanced ?y l" if "valid_load (w_sys w) l" for l
  proof -
    have end_eq: "ending ?x l = ending ?y l + (if ?l = l then 1 else 0)"
      using filter_remove1_count [OF i, of "\<lambda>j. block_load ?x j = l"] by (simp add: ending_def same)
    have "of_nat (ending ?x l) = (of_nat (ending ?y l) + (if ?l = l then 1 else 0) :: u64)" unfolding end_eq by simp
    moreover have "in_flight ?y l = in_flight ?x l" by (simp add: in_flight_def same)
    ultimately show ?thesis using x(6) [OF that] vl
      by (auto simp: s io_balanced_def uncounted_def abtst_load_inc_ended_def ac_simps)
  qed
  have "pc_ok pc (w\<lparr>w_sys := s\<rparr>)" "valid_load s = valid_load (w_sys w)" using x(5) vl by (cases pc, auto simp: s)
  then show ?thesis
    using x(1-4) bal by (intro io_invI) (auto simp: same dest: notin_set_remove1)
qed

lemma other_inv:
  assumes "io_inv N \<lparr>io_pc = pc, io_half = hs, io_world = w\<rparr>" and "same_counts w w'"
  shows "io_inv N \<lparr>io_pc = pc, io_half = hs, io_world = w'\<rparr>"
proof -
  note x = io_invD [OF assms(1), simplified] and c = assms(2) [unfolded same_counts_def]
  have "pc_ok pc w'" using x(5) c by (cases pc) auto
  then show ?thesis
    using x c by (intro io_invI) (auto simp: io_balanced_def uncounted_def in_flight_def ending_def running_def block_load_def)
qed

lemma io_step_inv: "io_step True C mid x y \<Longrightarrow> io_inv N x \<Longrightarrow> io_inv N y"
proof (induction rule: io_step.induct)
  case (take i w w' hs lb)
  show ?case by (rule take_inv [OF take(3,1)]) (use take(2) in simp)
qed (blast intro: fill_inv thread_inv count_inv release_inv finish_inv other_inv)+

lemma io_reachable_inv:
  assumes "io_start w0"
  shows "io_reachable True C mid w0 x \<Longrightarrow> io_inv (length (w_io w0)) x"
proof (induction rule: io_reachable.induct)
  case start
  show ?case by (rule io_start_inv [OF assms])
next
  case (step x y)
  then show ?case by (blast intro: io_step_inv)
qed

subsection \<open>Queue depths\<close>

lemma load_size_in_flight:
  assumes inv: "io_inv N x" and pc: "io_pc x \<noteq> Created l" and l: "valid_load (w_sys (io_world x)) l"
    and small: "unat (pkt_ended (load_at (w_sys (io_world x)) l)) + 2 * N < 2 ^ 64"
  shows "abtst_get_load_size (load_at (w_sys (io_world x)) l) = of_nat (in_flight x l + ending x l)"
proof -
  let ?ld = "load_at (w_sys (io_world x)) l" and ?n = "in_flight x l + ending x l"
  have "io_half x = [] \<or> set (io_half x) \<subseteq> {..<N}" using io_invD(3) [OF inv] by auto
  then have "length (io_half x) \<le> N"
    using distinct_card [OF io_invD(2) [OF inv]] card_mono [of "{..<N}" "set (io_half x)"] by auto
  then have "ending x l \<le> N" unfolding ending_def by (rule order_trans [OF length_filter_le])
  moreover have "in_flight x l \<le> N" unfolding in_flight_def io_invD(1) [OF inv] by (rule order_trans [OF length_filter_le]) simp
  ultimately have n: "?n \<le> 2 * N" by simp
  have eq: "pkt_started ?ld = pkt_ended ?ld + of_nat ?n"
    using io_invD(6) [OF inv l] pc by (simp add: io_balanced_def uncounted_def)
  then have "pkt_started ?ld - pkt_ended ?ld = of_nat ?n" by simp
  moreover have "unat (pkt_started ?ld) = unat (pkt_ended ?ld) + ?n"
    unfolding eq using n small by (simp add: unat_word_ariths unat_of_nat take_bit_nat_eq_self del: of_nat_add)
  moreover have "ucast (of_nat ?n :: u64) = (of_nat ?n :: u32)"
    using n small by (simp add: unsigned_of_nat take_bit_nat_eq_self del: of_nat_add)
  ultimately show ?thesis
    by (cases "?n = 0") (simp_all add: abtst_get_load_size_def word_less_nat_alt del: of_nat_add)
qed

lemma length_filter_either:
  "l \<notin> L \<Longrightarrow> length (filter (\<lambda>x. P x \<and> (f x = l \<or> f x \<in> L)) xs) =
    length (filter (\<lambda>x. P x \<and> f x = l) xs) + length (filter (\<lambda>x. P x \<and> f x \<in> L) xs)"
  by (induction xs) auto

lemma sum_filter_in:
  "distinct ls \<Longrightarrow> (\<Sum>l\<leftarrow>ls. length (filter (\<lambda>x. P x \<and> f x = l) xs)) = length (filter (\<lambda>x. P x \<and> f x \<in> set ls) xs)"
  by (induction ls) (simp_all add: length_filter_either)

end
