(* ===== verification/App_Claims.thy ===== *)
theory App_Claims
  imports App_Inv Sample
begin

text \<open>
  The claims on the application's I/Os: the counters of a load, the queue depth of a stream, and
  what happens when a block is taken again too early.
\<close>

declare split_paired_All [simp del] split_paired_Ex [simp del]

subsection \<open>An example\<close>

text \<open>The sample system before any I/O, its first mapping with the random choice of a load.\<close>

definition io_sample :: sys where
  "io_sample = sample\<lparr>mappings := \<lparr>nr_mappings = 2, mapping_array =
     (sample_mapping 0 [sample_load 0 0 0, sample_load 1 0 0])\<lparr>mapping_ops := Some MAPPING_TYPE_RANDOM\<rparr> #
     sample_mapping 1 [sample_load 0 0 3] # replicate 6 (sample_mapping 0 [])\<rparr>\<rparr>"

definition io_world0 :: "unit world" where
  "io_world0 = \<lparr>w_sys = io_sample, w_io = [zero_io, zero_io], w_base = Map.empty, w_sub = Map.empty, w_rt = ()\<rparr>"

definition io_create :: "unit thread_create" where
  "io_create p i r = (0, r)"

lemma io_sample_fields:
  "stream_array (streams io_sample) = stream_array (streams sample)" "links io_sample = sample_links"
  "mapping_array (mappings io_sample) = (sample_mapping 0 [sample_load 0 0 0, sample_load 1 0 0])\<lparr>mapping_ops := Some MAPPING_TYPE_RANDOM\<rparr> #
     sample_mapping 1 [sample_load 0 0 3] # replicate 6 (sample_mapping 0 [])"
  by (simp_all add: io_sample_def sample_def)

lemma io_sample_valid: "valid_load io_sample l \<longleftrightarrow> l \<in> {(0, 0), (0, 1), (1, 0)}"
proof -
  have "(case m of 0 \<Rightarrow> i < 2 | Suc n \<Rightarrow> (case n of 0 \<Rightarrow> i < 1 | Suc n \<Rightarrow> False)) \<longleftrightarrow> (m, i) \<in> {(0, 0), (0, 1), (1, 0)}" for m i :: nat
    by (auto split: nat.splits)
  then show ?thesis
    by (cases l) (auto simp: valid_load_def io_sample_fields sample_mapping_def nth_Cons' less_Suc_eq)
qed

lemma io_sample_load_at:
  "load_at io_sample (0, 0) = sample_load 0 0 0" "load_at io_sample (0, Suc 0) = sample_load 1 0 0"
  "load_at io_sample (Suc 0, 0) = sample_load 0 0 3"
  by (simp_all add: load_at_def io_sample_fields sample_mapping_def)

lemma io_sample_start: "io_start io_world0"
  by (auto simp: io_start_def io_world0_def zero_io_def io_sample_valid io_sample_load_at sample_load_def)

lemma io_sample_wf_queues: "wf_queues io_sample" and io_sample_load_queue: "load_queue io_sample 0 = [(0, 0), (0, 1)]"
proof -
  have v: "n_streams io_sample = 4" "stream_at io_sample = stream_at sample"
    by (simp_all add: n_streams_def stream_at_def io_sample_fields fun_eq_iff) (simp add: sample_fields)
  have "wf_queues io_sample \<and> (\<forall>k < n_streams io_sample. load_queue io_sample k = sample_queue k)"
  proof (rule wf_queuesI)
    fix k assume k: "k < n_streams io_sample"
    then show "dlist (links io_sample) (LoadQ k) (map LoadNode (sample_queue k))"
      using sample_dlist by (simp add: v io_sample_fields)
    show "nr_loads (stream_at io_sample k) = of_nat (length (sample_queue k))" "rank (stream_at io_sample k) = of_nat k"
      using k by (auto simp: v less_4_cases stream_at_def sample_parts sample_queue_def)
    fix l assume "l \<in> set (sample_queue k)"
    then show "valid_load io_sample l \<and> dest_rank (load_at io_sample l) = of_nat k"
      using k by (auto simp: v sample_queue_def io_sample_valid io_sample_load_at sample_load_def split: if_splits)
  next
    show "length (all_loads io_sample) < 2 ^ 32"
      by (simp add: all_loads_def io_sample_fields sample_mapping_def upt_rec nth_Cons')
  qed (simp_all add: v)
  then show "wf_queues io_sample" "load_queue io_sample 0 = [(0, 0), (0, 1)]" by (auto simp: v sample_queue_def)
qed


subsection \<open>Runs of the issuing loop\<close>

text \<open>A pass of the rebalancer is one of the other steps: it leaves the counters alone.\<close>

lemma reb_pass_step:
  assumes "qsort_contract qs" and "reb_base (w_sys w)" and "reb_pass qs (w_sys w) = Inr s"
  shows "io_step c C mid \<lparr>io_pc = pc, io_half = hs, io_world = w\<rparr> \<lparr>io_pc = pc, io_half = hs, io_world = w\<lparr>w_sys := s\<rparr>\<rparr>"
proof -
  have "mem_ok {OutOfMemory} (w_sys w)" by (simp add: mem_ok_def)
  from reb_sorter.reb_pass_sat [OF reb_sorterI [OF assms(1)] assms(2) this]
  have "reb_frame (w_sys w) s" by (simp add: assms(3) reb_post_def)
  then have fr: "valid_load s = valid_load (w_sys w)"
    "\<And>l. valid_load (w_sys w) l \<Longrightarrow> load_core (load_at s l) = load_core (load_at (w_sys w) l)" by (simp_all add: reb_frame_def)
  have "same_counts w (w\<lparr>w_sys := s\<rparr>)"
    using fr(1) load_core_eqD(1,2) [OF fr(2)] by (simp add: same_counts_def)
  then show ?thesis by (rule io_step.other)
qed

lemma sum_of_nat_add:
  "(\<Sum>x\<leftarrow>xs. of_nat (f x + g x)) = (of_nat ((\<Sum>x\<leftarrow>xs. f x) + (\<Sum>x\<leftarrow>xs. g x)) :: 'b::semiring_1)"
  by (induction xs) (simp_all add: ac_simps)

lemma map_key_set_load [simp]: "map_key_to_load rnd (set_load s l f) mid key = map_key_to_load rnd s mid key"
  by (auto simp: map_key_to_load_def set_load_def idx_int_def idx_def mapping_to_load_def hash_mapping_to_load_def
      random_mapping_to_load_def nth_update_if split: option.splits mapping_type.splits)

lemma reach_issue:
  assumes reach: "io_reachable c C mid w0 \<lparr>io_pc = Idle, io_half = hs, io_world = w\<rparr>" and hs: "c \<longrightarrow> i \<notin> set hs"
    and i: "i < length (w_io w)" "\<not> io_used (w_io w ! i)" and C: "\<And>p i r. fst (C p i r) = 0"
    and key: "map_key_to_load rnd (w_sys w) (int mid) \<lparr>lba = lb, volumeId = 1\<rparr> = Inr l" and l: "valid_load (w_sys w) (mid, unat l)"
  obtains w' p where "io_reachable c C mid w0 \<lparr>io_pc = Idle, io_half = hs, io_world = w'\<rparr>"
    "w_sys w' = set_load (w_sys w) (mid, unat l) abtst_load_inc_started"
    "w_io w' = (w_io w)[i := p]" "io_used p" "io_load p = (mid, unat l)"
proof -
  let ?l = "(mid, unat l)" and ?k = "\<lparr>lba = lb, volumeId = 1\<rparr>" and ?q = "(w_io w ! i)\<lparr>io_used := True\<rparr>"
  let ?w1 = "w\<lparr>w_io := (w_io w)[i := ?q]\<rparr>" and ?w2 = "w\<lparr>w_io := (w_io w)[i := ?q\<lparr>io_key := ?k, io_load := ?l\<rparr>]\<rparr>"
  let ?w3 = "?w2\<lparr>w_rt := snd (C (load_pool (load_at (w_sys w) ?l)) i (w_rt w))\<rparr>"
  let ?w4 = "?w3\<lparr>w_sys := set_load (w_sys w) ?l abtst_load_inc_started\<rparr>"
  have "issue_take i w = Inr (True, ?w1)" using i by (simp add: issue_take_def)
  note r1 = io_reachable.step [OF reach io_step.take [OF this hs, of C mid lb]]
  have "issue_fill rnd mid i lb ?w1 = Inr (?l, ?w2)" using i key by (simp add: issue_fill_def)
  note r2 = io_reachable.step [OF r1 io_step.fill [OF this]]
  have "issue_thread C i ?l ?w2 = Inr (0, ?w3)"
    using l C [of "load_pool (load_at (w_sys w) ?l)" i "w_rt w"] by (auto simp: issue_thread_def split: prod.splits)
  from io_reachable.step [OF r2 io_step.thread [OF this]]
  have r3: "io_reachable c C mid w0 \<lparr>io_pc = Created ?l, io_half = hs, io_world = ?w3\<rparr>" by simp
  have "issue_count ?l ?w3 = Inr ?w4" using l by (simp add: issue_count_def)
  from io_reachable.step [OF r3 io_step.count [OF this]] show thesis
    by (rule that [of ?w4 "?q\<lparr>io_key := ?k, io_load := ?l\<rparr>"]) simp_all
qed

lemma reach_release:
  assumes "io_reachable c C mid w0 \<lparr>io_pc = Idle, io_half = hs, io_world = w\<rparr>" and "i < length (w_io w)" "io_used (w_io w ! i)"
  obtains w' where "io_reachable c C mid w0 \<lparr>io_pc = Idle, io_half = i # hs, io_world = w'\<rparr>"
    "w_sys w' = w_sys w" "w_io w' = (w_io w)[i := (w_io w ! i)\<lparr>io_used := False\<rparr>]"
proof -
  have "st_release i (w_io w) = Inr ((w_io w)[i := (w_io w ! i)\<lparr>io_used := False\<rparr>])" using assms(2) by (simp add: st_release_def)
  from io_reachable.step [OF assms(1) io_step.release [OF _ this]] show thesis
    by (rule that) (simp_all add: running_def assms(2,3))
qed

lemma reach_finish:
  assumes "io_reachable c C mid w0 \<lparr>io_pc = pc, io_half = i # hs, io_world = w\<rparr>"
    and "i < length (w_io w)" "valid_load (w_sys w) (io_load (w_io w ! i))"
  obtains w' where "io_reachable c C mid w0 \<lparr>io_pc = pc, io_half = hs, io_world = w'\<rparr>"
    "w_sys w' = set_load (w_sys w) (io_load (w_io w ! i)) abtst_load_inc_ended" "w_io w' = w_io w"
proof -
  have "st_end i (w_sys w) (w_io w) = Inr (set_load (w_sys w) (io_load (w_io w ! i)) abtst_load_inc_ended)"
    using assms(2,3) by (simp add: st_end_def)
  from io_reachable.step [OF assms(1) io_step.finish [OF _ this]]
  have "io_reachable c C mid w0 \<lparr>io_pc = pc, io_half = hs, io_world = w\<lparr>w_sys := set_load (w_sys w) (io_load (w_io w ! i)) abtst_load_inc_ended\<rparr>\<rparr>" by simp
  then show thesis by (rule that) simp_all
qed

text \<open>Two I/Os on one block, the second issued while the thread of the first is half done.\<close>

lemma race_run:
  assumes io: "w_io w0 \<noteq> []" and free: "\<not> io_used (w_io w0 ! 0)" and C: "\<And>p i r. fst (C p i r) = 0"
    and a: "map_key_to_load rnd (w_sys w0) (int mid) \<lparr>lba = lb, volumeId = 1\<rparr> = Inr a" "valid_load (w_sys w0) (mid, unat a)"
    and b: "map_key_to_load rnd' (w_sys w0) (int mid) \<lparr>lba = lb', volumeId = 1\<rparr> = Inr b" "valid_load (w_sys w0) (mid, unat b)"
  obtains w q where "io_reachable False C mid w0 \<lparr>io_pc = Idle, io_half = [], io_world = w\<rparr>" "w_io w = (w_io w0)[0 := q]" "\<not> io_used q"
    "w_sys w = set_load (set_load (set_load (set_load (w_sys w0) (mid, unat a) abtst_load_inc_started)
      (mid, unat b) abtst_load_inc_started) (mid, unat b) abtst_load_inc_ended) (mid, unat b) abtst_load_inc_ended"
proof -
  obtain w1 p where w1: "io_reachable False C mid w0 \<lparr>io_pc = Idle, io_half = [], io_world = w1\<rparr>"
    "w_sys w1 = set_load (w_sys w0) (mid, unat a) abtst_load_inc_started" "w_io w1 = (w_io w0)[0 := p]" "io_used p" "io_load p = (mid, unat a)"
    by (rule reach_issue [OF io_reachable.start _ _ free C a]) (use io in auto)
  obtain w2 where w2: "io_reachable False C mid w0 \<lparr>io_pc = Idle, io_half = [0], io_world = w2\<rparr>"
    "w_sys w2 = w_sys w1" "w_io w2 = (w_io w1)[0 := (w_io w1 ! 0)\<lparr>io_used := False\<rparr>]"
    by (rule reach_release [OF w1(1), of 0]) (use w1(3,4) io in auto)
  have key: "map_key_to_load rnd' (w_sys w2) (int mid) \<lparr>lba = lb', volumeId = 1\<rparr> = Inr b" "valid_load (w_sys w2) (mid, unat b)"
    using w2(2) w1(2) a b by simp_all
  obtain w3 q where w3: "io_reachable False C mid w0 \<lparr>io_pc = Idle, io_half = [0], io_world = w3\<rparr>"
    "w_sys w3 = set_load (w_sys w2) (mid, unat b) abtst_load_inc_started" "w_io w3 = (w_io w2)[0 := q]" "io_used q" "io_load q = (mid, unat b)"
    by (rule reach_issue [OF w2(1) _ _ _ C key, where i = 0]) (use w2(3) w1(3) io in auto)
  have q: "w_io w3 = (w_io w0)[0 := q]" "w_io w3 ! 0 = q" "0 < length (w_io w3)" using w3(3) w2(3) w1(3) io by simp_all
  obtain w4 where w4: "io_reachable False C mid w0 \<lparr>io_pc = Idle, io_half = [], io_world = w4\<rparr>"
    "w_sys w4 = set_load (w_sys w3) (io_load (w_io w3 ! 0)) abtst_load_inc_ended" "w_io w4 = w_io w3"
    by (rule reach_finish [OF w3(1) q(3)]) (use w3(2,5) q(2) key(2) in auto)
  obtain w5 where w5: "io_reachable False C mid w0 \<lparr>io_pc = Idle, io_half = [0], io_world = w5\<rparr>"
    "w_sys w5 = w_sys w4" "w_io w5 = (w_io w4)[0 := (w_io w4 ! 0)\<lparr>io_used := False\<rparr>]"
    by (rule reach_release [OF w4(1), of 0]) (use w4(3) q w3(4) in auto)
  have io5: "w_io w5 ! 0 = q\<lparr>io_used := False\<rparr>" "0 < length (w_io w5)" using w5(3) w4(3) q by simp_all
  obtain w6 where w6: "io_reachable False C mid w0 \<lparr>io_pc = Idle, io_half = [], io_world = w6\<rparr>"
    "w_sys w6 = set_load (w_sys w5) (io_load (w_io w5 ! 0)) abtst_load_inc_ended" "w_io w6 = w_io w5"
    by (rule reach_finish [OF w5(1) io5(2)]) (use io5(1) w5(2) w4(2) w3(2,5) q(2) key(2) in auto)
  show thesis
    by (rule that [OF w6(1), of "q\<lparr>io_used := False\<rparr>"])
      (use w6(2,3) w5(2,3) w4(2,3) w3(2,5) w2(2) w1(2) q io5(1) in simp_all)
qed

text \<open>One I/O issued in the example.\<close>

definition io_sample1 :: sys where
  "io_sample1 = set_load io_sample (0, 0) abtst_load_inc_started"

lemma io_sample_key: "map_key_to_load rnd (w_sys io_world0) (int 0) \<lparr>lba = lb, volumeId = 1\<rparr> = Inr (rnd mod 2)"
  by (simp add: io_world0_def map_key_to_load_def idx_int_def idx_def io_sample_fields mapping_to_load_def
      random_mapping_to_load_def sample_mapping_def)

lemma io_sample1_loads:
  "pkt_ended (load_at io_sample1 (0, 0)) = 0" "pkt_ended (load_at io_sample1 (0, Suc 0)) = 0" "valid_load io_sample1 = valid_load io_sample"
  by (simp_all add: io_sample1_def io_sample_valid io_sample_load_at sample_load_def abtst_load_inc_started_def)

lemma io_sample1_queue:
  "wf_queues io_sample1" "load_queue io_sample1 0 = [(0, 0), (0, Suc 0)]" "0 < n_streams io_sample1"
proof -
  have "0 < n_streams io_sample" by (simp add: n_streams_def io_sample_fields) (simp add: sample_fields)
  then show "wf_queues io_sample1" "load_queue io_sample1 0 = [(0, 0), (0, Suc 0)]" "0 < n_streams io_sample1"
    using wf_queues_count [OF io_sample_wf_queues, of "(0, 0)" abtst_load_inc_started] io_sample_load_queue
    by (auto simp: io_sample1_def io_sample_valid abtst_load_inc_started_def)
qed

lemma io_example:
  obtains x where "io_reachable True io_create 0 io_world0 x" "io_pc x = Idle" "io_half x = []" "w_sys (io_world x) = io_sample1"
    "length (filter (\<lambda>i. running x i \<and> block_load x i \<in> {(0, 0), (0, 1)}) [0..<length (w_io (io_world x))]) = 1" "in_flight x (0, 0) = 1"
    "valid_load (w_sys (io_world x)) (0, 0)"
proof -
  have w: "w_sys io_world0 = io_sample" "w_io io_world0 = [zero_io, zero_io]" by (simp_all add: io_world0_def)
  obtain w p where "io_reachable True io_create 0 io_world0 \<lparr>io_pc = Idle, io_half = [], io_world = w\<rparr>"
    "w_sys w = set_load (w_sys io_world0) (0, unat (0::u32)) abtst_load_inc_started"
    "w_io w = (w_io io_world0)[0 := p]" "io_used p" "io_load p = (0, unat (0::u32))"
    by (rule reach_issue [OF io_reachable.start, of True 0 io_world0 io_create 0 0 0 0])
      (use io_sample_key [of 0 0] w in \<open>auto simp: io_create_def io_sample_valid zero_io_def\<close>)
  then show thesis
    by (intro that) (auto simp: w io_sample1_def in_flight_def running_def block_load_def zero_io_def io_sample_valid)
qed

text \<open>A first I/O whose thread cannot be created.\<close>

lemma failed_run:
  assumes i: "i < length (w_io w0)" "\<not> io_used (w_io w0 ! i)" and C: "fst (C (load_pool (load_at (w_sys w0) (mid, unat l))) i (w_rt w0)) \<noteq> 0"
    and key: "map_key_to_load rnd (w_sys w0) (int mid) \<lparr>lba = lb, volumeId = 1\<rparr> = Inr l" and l: "valid_load (w_sys w0) (mid, unat l)"
  obtains w where "io_reachable c C mid w0 \<lparr>io_pc = Failed i, io_half = [], io_world = w\<rparr>" "w_sys w = w_sys w0" "io_used (w_io w ! i)"
proof -
  let ?l = "(mid, unat l)" and ?k = "\<lparr>lba = lb, volumeId = 1\<rparr>" and ?q = "(w_io w0 ! i)\<lparr>io_used := True\<rparr>"
  let ?w1 = "w0\<lparr>w_io := (w_io w0)[i := ?q]\<rparr>" and ?w2 = "w0\<lparr>w_io := (w_io w0)[i := ?q\<lparr>io_key := ?k, io_load := ?l\<rparr>]\<rparr>"
  have "issue_take i w0 = Inr (True, ?w1)" using i by (simp add: issue_take_def)
  note r1 = io_reachable.step [OF io_reachable.start io_step.take [OF this, of c "[]" C mid lb]]
  have "issue_fill rnd mid i lb ?w1 = Inr (?l, ?w2)" using i key by (simp add: issue_fill_def)
  note r2 = io_reachable.step [OF r1 io_step.fill [OF this]]
  obtain ret r where C': "C (load_pool (load_at (w_sys w0) ?l)) i (w_rt w0) = (ret, r)" "ret \<noteq> 0"
    using C by (cases "C (load_pool (load_at (w_sys w0) ?l)) i (w_rt w0)") auto
  then have "issue_thread C i ?l ?w2 = Inr (ret, ?w2\<lparr>w_rt := r\<rparr>)" using l by (simp add: issue_thread_def)
  from io_reachable.step [OF r2 io_step.thread [OF this]] C'(2)
  have "io_reachable c C mid w0 \<lparr>io_pc = Failed i, io_half = [], io_world = ?w2\<lparr>w_rt := r\<rparr>\<rparr>" by simp
  then show thesis by (rule that) (use i in simp_all)
qed

lemma race_sizes:
  assumes "pkt_started ld = pkt_ended ld" and "unat (pkt_ended ld) + 2 < 2 ^ 64"
  shows "abtst_get_load_size (abtst_load_inc_started ld) = 1"
    "abtst_get_load_size (abtst_load_inc_ended (abtst_load_inc_ended (abtst_load_inc_started ld))) = 0"
proof -
  have "unat (pkt_ended ld + 1) = unat (pkt_ended ld) + 1" "unat (pkt_ended ld + 2) = unat (pkt_ended ld) + 2"
    using assms(2) by (simp_all add: unat_word_ariths)
  then show "abtst_get_load_size (abtst_load_inc_started ld) = 1"
    "abtst_get_load_size (abtst_load_inc_ended (abtst_load_inc_ended (abtst_load_inc_started ld))) = 0"
    using assms(1) by (auto simp: abtst_get_load_size_def abtst_load_inc_started_def abtst_load_inc_ended_def word_less_nat_alt add.assoc)
qed

subsection \<open>Claims\<close>

text \<open>
  C5: in every state that the issuing loop and the threads of the I/Os reach, the started I/Os
  of a load are those that have ended and those in flight (a thread that the main thread has not
  yet counted apart), as long as the main thread takes no block whose thread is still between
  giving the block back and counting its end; C7 shows that the condition is needed. The calls
  of \<^verbatim>\<open>ABT_thread_create\<close> may fail: a block for which no thread was created stays in use, but is not
  an I/O in flight, and it is not counted. The counters wrap at 64 bits, the equation does not mind.
\<close>

theorem io_counters:
  assumes "io_start w0" and "io_reachable True C mid w0 x" and "valid_load (w_sys (io_world x)) l"
  shows "pkt_started (load_at (w_sys (io_world x)) l) + of_nat (uncounted x l) =
    pkt_ended (load_at (w_sys (io_world x)) l) + of_nat (in_flight x l + ending x l)"
  using io_invD(6) [OF io_reachable_inv [OF assms(1,2)] assms(3)] by (simp add: io_balanced_def)

theorem io_counters_witness:
  "(\<exists>x. io_reachable True io_create 0 io_world0 x \<and> in_flight x (0, 0) = 1 \<and>
     pkt_started (load_at (w_sys (io_world x)) (0, 0)) + of_nat (uncounted x (0, 0)) =
     pkt_ended (load_at (w_sys (io_world x)) (0, 0)) + of_nat (in_flight x (0, 0) + ending x (0, 0))) \<and>
   (\<exists>x. io_reachable True (\<lambda>_ _ r. (1, r)) 0 io_world0 x \<and> io_pc x = Failed 0 \<and> io_used (w_io (io_world x) ! 0) \<and>
     pkt_started (load_at (w_sys (io_world x)) (0, 0)) + of_nat (uncounted x (0, 0)) =
     pkt_ended (load_at (w_sys (io_world x)) (0, 0)) + of_nat (in_flight x (0, 0) + ending x (0, 0)))"
  (is "?A \<and> ?B")
proof
  obtain x where "io_reachable True io_create 0 io_world0 x" "valid_load (w_sys (io_world x)) (0, 0)" "in_flight x (0, 0) = 1"
    by (rule io_example) auto
  then show ?A using io_counters [OF io_sample_start] by blast
  obtain w where "io_reachable True (\<lambda>_ _ r. (1, r)) 0 io_world0 \<lparr>io_pc = Failed 0, io_half = [], io_world = w\<rparr>"
    "w_sys w = w_sys io_world0" "io_used (w_io w ! 0)"
    by (rule failed_run [of 0 io_world0 "\<lambda>_ _ r. (1, r)" 0 0 0 0 True])
      (use io_sample_key [of 0 0] in \<open>auto simp: io_world0_def zero_io_def io_sample_valid\<close>)
  then show ?B
    using io_counters [OF io_sample_start, of "\<lambda>_ _ r. (1, r)" 0 "\<lparr>io_pc = Failed 0, io_half = [], io_world = w\<rparr>" "(0, 0)"]
    by (intro exI [of _ "\<lparr>io_pc = Failed 0, io_half = [], io_world = w\<rparr>"]) (auto simp: io_world0_def io_sample_valid)
qed

text \<open>
  C6: unless the main thread is just between creating a thread and counting its I/O, the queue
  depth that the rebalancer measures for a stream is the number of I/Os of the loads in the
  stream's queue that have not been counted as ended: blocks with a thread and blocks just given
  back. This holds on condition that the main thread has taken no block again before the thread of
  the block had counted its end, which the code does not ensure (C7). The call of
  \<^verbatim>\<open>ABT_thread_create\<close> may have failed.
\<close>

theorem stream_depth:
  assumes start: "io_start w0" and reach: "io_reachable True C mid w0 x" and pc: "\<forall>l. io_pc x \<noteq> Created l"
    and wf: "wf_queues (w_sys (io_world x))" and k: "k < n_streams (w_sys (io_world x))"
    and small: "\<forall>l \<in> set (load_queue (w_sys (io_world x)) k).
      unat (pkt_ended (load_at (w_sys (io_world x)) l)) + 2 * length (w_io w0) < 2 ^ 64"
  shows "get_stream_ios (w_sys (io_world x)) k = Inr (of_nat
    (length (filter (\<lambda>i. running x i \<and> block_load x i \<in> set (load_queue (w_sys (io_world x)) k)) [0..<length (w_io (io_world x))]) +
     length (filter (\<lambda>i. block_load x i \<in> set (load_queue (w_sys (io_world x)) k)) (io_half x))))"
proof -
  let ?s = "w_sys (io_world x)" let ?q = "load_queue ?s k"
  have "loads_size ?s ?q = (\<Sum>l\<leftarrow>?q. of_nat (in_flight x l + ending x l))"
    unfolding loads_size_def using small pc load_size_in_flight [OF io_reachable_inv [OF start reach]] wf_queuesD(4) [OF wf k]
    by (intro arg_cong [of _ _ sum_list] map_cong) simp_all
  also have "\<dots> = of_nat ((\<Sum>l\<leftarrow>?q. in_flight x l) + (\<Sum>l\<leftarrow>?q. ending x l))"
    by (rule sum_of_nat_add)
  finally show ?thesis
    using sum_filter_in [OF wf_queuesD(6) [OF wf k], of "running x" "block_load x" "[0..<length (w_io (io_world x))]"]
      sum_filter_in [OF wf_queuesD(6) [OF wf k], of "\<lambda>_. True" "block_load x" "io_half x"]
    by (simp add: get_stream_ios_ok [OF wf k] in_flight_def ending_def)
qed

theorem stream_depth_witness:
  "\<exists>x. io_reachable True io_create 0 io_world0 x \<and> get_stream_ios (w_sys (io_world x)) 0 = Inr 1"
proof -
  obtain x where x: "io_reachable True io_create 0 io_world0 x" "io_pc x = Idle" "io_half x = []" "w_sys (io_world x) = io_sample1"
    "length (filter (\<lambda>i. running x i \<and> block_load x i \<in> {(0, 0), (0, 1)}) [0..<length (w_io (io_world x))]) = 1"
    by (rule io_example) auto
  have "\<forall>l \<in> set (load_queue (w_sys (io_world x)) 0). unat (pkt_ended (load_at (w_sys (io_world x)) l)) + 2 * length (w_io io_world0) < 2 ^ 64"
    using x(4) by (auto simp: io_sample1_queue io_sample1_loads io_world0_def)
  from stream_depth [OF io_sample_start x(1) _ _ _ this] show ?thesis
    using x io_sample1_queue by (intro exI [of _ x]) simp
qed

text \<open>
  C7: the code does not wait for the thread. A block that was given back is taken again for
  an I/O of another load before the first thread has counted its end; both ends are then counted
  for the second load. A state is reached in which no I/O is left and the main thread is between
  two I/Os, but the first load has a depth of one.
\<close>

theorem io_race:
  assumes start: "io_start w0" and io: "w_io w0 \<noteq> []" and C: "\<forall>p i r. fst (C p i r) = 0"
    and a: "map_key_to_load rnd (w_sys w0) (int mid) \<lparr>lba = lb, volumeId = 1\<rparr> = Inr a" "valid_load (w_sys w0) (mid, unat a)"
    and b: "map_key_to_load rnd' (w_sys w0) (int mid) \<lparr>lba = lb', volumeId = 1\<rparr> = Inr b" "valid_load (w_sys w0) (mid, unat b)"
    and ne: "a \<noteq> b" and small: "unat (pkt_ended (load_at (w_sys w0) (mid, unat a))) + 2 < 2 ^ 64"
      "unat (pkt_ended (load_at (w_sys w0) (mid, unat b))) + 2 < 2 ^ 64"
  shows "\<exists>w. io_reachable False C mid w0 \<lparr>io_pc = Idle, io_half = [], io_world = w\<rparr> \<and> (\<forall>p \<in> set (w_io w). \<not> io_used p) \<and>
    abtst_get_load_size (load_at (w_sys w) (mid, unat a)) = 1 \<and> abtst_get_load_size (load_at (w_sys w) (mid, unat b)) = 0"
proof -
  let ?a = "(mid, unat a)" and ?b = "(mid, unat b)" and ?s = "w_sys w0"
  have free: "\<not> io_used (w_io w0 ! 0)" using start io by (auto simp: io_start_def)
  obtain w q where w: "io_reachable False C mid w0 \<lparr>io_pc = Idle, io_half = [], io_world = w\<rparr>" "w_io w = (w_io w0)[0 := q]" "\<not> io_used q"
    "w_sys w = set_load (set_load (set_load (set_load ?s ?a abtst_load_inc_started) ?b abtst_load_inc_started)
      ?b abtst_load_inc_ended) ?b abtst_load_inc_ended"
    by (rule race_run [OF io free _ a b]) (use C in auto)
  have "\<forall>p \<in> set (w_io w). \<not> io_used p"
    using start w(2,3) set_update_subset_insert [of "w_io w0" 0 q] by (auto simp: io_start_def)
  moreover have "?a \<noteq> ?b" using ne by (simp add: word_unat_eq_iff)
  then have "load_at (w_sys w) ?a = abtst_load_inc_started (load_at ?s ?a)"
    "load_at (w_sys w) ?b = abtst_load_inc_ended (abtst_load_inc_ended (abtst_load_inc_started (load_at ?s ?b)))"
    using a(2) b(2) by (simp_all add: w(4))
  ultimately show ?thesis
    using w(1) start a(2) b(2) small by (auto simp: io_start_def race_sizes)
qed

theorem io_race_witness:
  "\<exists>w. io_reachable False io_create 0 io_world0 \<lparr>io_pc = Idle, io_half = [], io_world = w\<rparr> \<and> (\<forall>p \<in> set (w_io w). \<not> io_used p) \<and>
    abtst_get_load_size (load_at (w_sys w) (0, 0)) = 1 \<and> abtst_get_load_size (load_at (w_sys w) (0, 1)) = 0"
proof -
  have "map_key_to_load rnd (w_sys io_world0) (int 0) \<lparr>lba = 0, volumeId = 1\<rparr> = Inr (rnd mod 2)" for rnd
    by (rule io_sample_key)
  from io_race [OF io_sample_start, of io_create 0 0 0 0 1 0 1] this [of 0] this [of 1] show ?thesis
    by (simp add: io_world0_def io_create_def io_sample_valid io_sample_load_at sample_load_def)
qed

end
