(* ===== verification/Sched_Inv.thy ===== *)
theory Sched_Inv
  imports Sched Stream_Inv
begin

text \<open>
  What the schedulers do on a runtime whose pools are queues. The interface \<open>pool_runtime\<close>
  states the laws of the pool operations through a view of the runtime state: the units of each
  pool, the scheduler of a unit, the data pointer of a scheduler. \<open>thread_runtime\<close> adds that
  running a thread changes the program's state by a function \<open>exec\<close> and nothing else;
  \<open>unit_runtime\<close> that running the sub-scheduler of a load leaves the pools of the streams and
  the ranks of the loads alone. The lemmas follow a whole run of \<^verbatim>\<open>sub_sched_run\<close> and a
  whole pass of the inner loop of \<^verbatim>\<open>sched_run\<close>.
\<close>

record rt_view =
  rv_pools :: "abt_handle \<Rightarrow> abt_handle list"
  rv_sched :: "abt_handle \<Rightarrow> abt_handle"
  rv_ptr :: "abt_handle \<Rightarrow> nat"
  rv_stop :: "abt_handle \<Rightarrow> bool"

definition set_pool :: "abt_handle \<Rightarrow> abt_handle list \<Rightarrow> rt_view \<Rightarrow> rt_view" where
  "set_pool p us x = x\<lparr>rv_pools := (rv_pools x)(p := us)\<rparr>"

lemma set_pool_simps [simp]:
  "rv_pools (set_pool p us x) = (rv_pools x)(p := us)" "rv_sched (set_pool p us x) = rv_sched x"
  "rv_ptr (set_pool p us x) = rv_ptr x" "rv_stop (set_pool p us x) = rv_stop x" "set_pool p us (set_pool p us' x) = set_pool p us x"
  "set_pool p (rv_pools x p) x = x"
  by (simp_all add: set_pool_def)

locale pool_runtime =
  fixes S :: "'r sched_ops" and v :: "'r \<Rightarrow> rt_view"
  assumes size: "ABT_pool_get_size S p r = length (rv_pools (v r) p)"
    and pop_nil: "rv_pools (v r) p = [] \<Longrightarrow> fst (ABT_pool_pop S p r) = 0 \<and> v (snd (ABT_pool_pop S p r)) = v r"
    and pop_cons: "rv_pools (v r) p = u # us \<Longrightarrow>
      fst (ABT_pool_pop S p r) = u \<and> v (snd (ABT_pool_pop S p r)) = set_pool p us (v r)"
    and push: "v (ABT_pool_push S p u r) = set_pool p (rv_pools (v r) p @ [u]) (v r)"
    and unit_sched: "ABT_unit_get_sched S u p r = rv_sched (v r) u"
    and get_data: "ABT_sched_get_data S h r = rv_ptr (v r) h"
begin

lemma pop_empty:
  assumes "rv_pools (v r) p = []"
  obtains r' where "ABT_pool_pop S p r = (0, r')" "v r' = v r"
  using pop_nil [OF assms] by (metis prod.collapse)

lemma pop_first:
  assumes "rv_pools (v r) p = u # us"
  obtains r' where "ABT_pool_pop S p r = (u, r')" "v r' = set_pool p us (v r)"
  using pop_cons [OF assms] by (metis prod.collapse)

end

subsection \<open>The scheduler of a load\<close>

text \<open>The part of the world that threads work on.\<close>

type_synonym app_state = "sys \<times> io_param list"

definition app_of :: "'r world \<Rightarrow> app_state" where
  "app_of w = (w_sys w, w_io w)"

lemma app_of_rt [simp]: "app_of (w\<lparr>w_rt := r\<rparr>) = app_of w"
  by (simp add: app_of_def)

locale thread_runtime = pool_runtime S v for S :: "'r sched_ops" and v +
  fixes run :: "'r runner" and exec :: "abt_handle \<Rightarrow> app_state \<Rightarrow> app_state" and ok :: "abt_handle \<Rightarrow> app_state \<Rightarrow> bool"
  assumes run_thread: "ok u (app_of w) \<Longrightarrow> \<exists>w'. run u p w = Inr w' \<and> app_of w' = exec u (app_of w) \<and> v (w_rt w') = v (w_rt w) \<and>
      w_sub w' = w_sub w \<and> w_base w' = w_base w"
    and ok_exec: "ok u x \<Longrightarrow> ok u' x \<Longrightarrow> ok u (exec u' x)"
begin

lemma ok_fold: "ok u x \<Longrightarrow> \<forall>u' \<in> set us. ok u' x \<Longrightarrow> ok u (fold exec us x)"
proof (induction us arbitrary: x)
  case (Cons a us)
  have "ok u (exec a x)" "\<forall>u' \<in> set us. ok u' (exec a x)" using Cons.prems ok_exec by auto
  from Cons.IH [OF this] show ?case by simp
qed simp

text \<open>The effect of running the first \<open>n\<close> units of pool \<open>p\<close>.\<close>

definition ran :: "abt_handle \<Rightarrow> nat \<Rightarrow> 'r world \<Rightarrow> 'r world \<Rightarrow> bool" where
  "ran p n w w' \<longleftrightarrow> app_of w' = fold exec (take n (rv_pools (v (w_rt w)) p)) (app_of w) \<and>
     v (w_rt w') = set_pool p (drop n (rv_pools (v (w_rt w)) p)) (v (w_rt w)) \<and>
     w_sub w' = w_sub w \<and> w_base w' = w_base w"

lemma sub_drain_runs:
  assumes "0 \<notin> set (rv_pools (v (w_rt w)) p)" and "c < MAX_BATCH_COUNT" and "MAX_BATCH_COUNT \<le> c + fuel"
    and "\<forall>u \<in> set (rv_pools (v (w_rt w)) p). ok u (app_of w)"
  shows "\<exists>w'. sub_drain fuel S run p c w = Inr (min MAX_BATCH_COUNT (c + length (rv_pools (v (w_rt w)) p)), w') \<and>
    ran p (MAX_BATCH_COUNT - c) w w'"
  using assms
proof (induction "rv_pools (v (w_rt w)) p" arbitrary: w c fuel)
  case Nil
  then obtain r' where "ABT_pool_pop S p (w_rt w) = (0, r')" "v r' = v (w_rt w)" using pop_empty by metis
  with Nil show ?case
    using set_pool_simps(6) [of p "v (w_rt w)"] by (auto simp: sub_drain.simps ran_def)
next
  case (Cons u us)
  obtain r' where r': "ABT_pool_pop S p (w_rt w) = (u, r')" "v r' = set_pool p us (v (w_rt w))"
    using pop_first Cons.hyps(2) by metis
  obtain w1 where w1: "run u p (w\<lparr>w_rt := r'\<rparr>) = Inr w1" "app_of w1 = exec u (app_of w)" "v (w_rt w1) = set_pool p us (v (w_rt w))"
    "w_sub w1 = w_sub w" "w_base w1 = w_base w"
    using run_thread [of u "w\<lparr>w_rt := r'\<rparr>" p] r'(2) Cons.prems(4) by (auto simp: Cons.hyps(2) [symmetric])
  have u: "u \<noteq> 0" using Cons.prems by (auto simp: Cons.hyps(2) [symmetric])
  obtain f where f: "fuel = Suc f" using Cons.prems(2,3) by (cases fuel) auto
  have us: "rv_pools (v (w_rt w1)) p = us" by (simp add: w1(3))
  show ?case
  proof (cases "Suc c = MAX_BATCH_COUNT")
    case True
    then have "sub_drain fuel S run p c w = Inr (Suc c, w1)"
      using r'(1) w1(1) u by (simp add: sub_drain.simps f)
    moreover have "ran p (MAX_BATCH_COUNT - c) w w1"
      using w1 True unfolding ran_def Cons.hyps(2) [symmetric] by (simp add: Suc_diff_le flip: True)
    ultimately show ?thesis using True Cons.hyps(2) by (auto simp: Cons.hyps(2) [symmetric])
  next
    case False
    then have lt: "Suc c < MAX_BATCH_COUNT" using Cons.prems(2) by simp
    have "0 \<notin> set (rv_pools (v (w_rt w1)) p)" using Cons.prems(1) unfolding us by (simp add: Cons.hyps(2) [symmetric])
    moreover have "MAX_BATCH_COUNT \<le> Suc c + f" using Cons.prems(3) by (simp add: f)
    ultimately obtain w' where w': "sub_drain f S run p (Suc c) w1 = Inr (min MAX_BATCH_COUNT (Suc c + length us), w')"
      "ran p (MAX_BATCH_COUNT - Suc c) w1 w'"
      using Cons.hyps(1) [of w1 "Suc c" f] us lt Cons.prems(4) ok_exec
      by (auto simp: w1(2) Cons.hyps(2) [symmetric])
    have "sub_drain fuel S run p c w = Inr (min MAX_BATCH_COUNT (c + length (u # us)), w')"
      using r'(1) w1(1) u lt w'(1) unfolding f by (simp add: sub_drain.simps [of "Suc f"])
    moreover have "ran p (MAX_BATCH_COUNT - c) w w'"
    proof -
      have "MAX_BATCH_COUNT - c = Suc (MAX_BATCH_COUNT - Suc c)" using lt by simp
      then show ?thesis using w'(2) w1 us unfolding ran_def Cons.hyps(2) [symmetric] by simp
    qed
    ultimately show ?thesis unfolding Cons.hyps(2) [symmetric] by blast
  qed
qed

text \<open>A load's scheduler with one pool runs at most a batch of its threads, in their order.\<close>

lemma sub_sched_run_batch:
  assumes d: "w_sub w (rv_ptr (v (w_rt w)) h) = Some d" "sb_pools d = [p]" "sb_num_pools d = 1"
    and u: "0 \<notin> set (rv_pools (v (w_rt w)) p)" "\<forall>u \<in> set (rv_pools (v (w_rt w)) p). ok u (app_of w)" and fuel: "2 \<le> fuel"
  shows "\<exists>w'. sub_sched_run fuel S run h w = Inr w' \<and> ran p MAX_BATCH_COUNT w w'"
proof -
  let ?us = "rv_pools (v (w_rt w)) p"
  have round: "\<exists>w'. sub_round S run d x = Inr (min MAX_BATCH_COUNT (length (rv_pools (v (w_rt x)) p)), w') \<and> ran p MAX_BATCH_COUNT x w'"
    if "0 \<notin> set (rv_pools (v (w_rt x)) p)" "\<forall>u \<in> set (rv_pools (v (w_rt x)) p). ok u (app_of x)" for x
    using sub_drain_runs [OF that(1), of 0 MAX_BATCH_COUNT] that(2) d by (auto simp: sub_round_def MAX_BATCH_COUNT_def)
  from round [OF u] obtain w1 where w1: "sub_round S run d w = Inr (min MAX_BATCH_COUNT (length ?us), w1)" "ran p MAX_BATCH_COUNT w w1"
    by blast
  obtain m where m: "fuel = Suc (Suc m)" using fuel by (cases fuel; cases "fuel - 1") auto
  have run: "sub_sched_run fuel S run h w = (if ?us = [] \<or> length ?us \<ge> MAX_BATCH_COUNT then Inr w1 else sub_rounds (Suc m) S run d w1)"
    using d(1) w1(1) unfolding sub_sched_run_def sub_sched_data_get_ptr_def get_data m
    by (subst sub_rounds.simps) (auto simp: MAX_BATCH_COUNT_def)
  show ?thesis
  proof (cases "?us = [] \<or> length ?us \<ge> MAX_BATCH_COUNT")
    case True
    then show ?thesis using run w1(2) by auto
  next
    case False
    then have nil: "rv_pools (v (w_rt w1)) p = []" using w1(2) by (simp add: ran_def)
    with round [of w1] obtain w2 where w2: "sub_round S run d w1 = Inr (0, w2)" "ran p MAX_BATCH_COUNT w1 w2" by auto
    have "ran p MAX_BATCH_COUNT w w2" using w1(2) w2(2) nil False by (simp add: ran_def)
    moreover have "sub_rounds (Suc m) S run d w1 = Inr w2" using w2(1) by (subst sub_rounds.simps) simp
    ultimately show ?thesis using run False by auto
  qed
qed

end

end
