(* ===== verification/Sched_Round.thy ===== *)
theory Sched_Round
  imports Sched_Inv
begin

text \<open>
  One pass of the inner loop of \<^verbatim>\<open>sched_run\<close> over the pool of a stream. Every unit in the
  pool is the sub-scheduler of a load. The pass ends; each unit whose load has another
  destination is pushed to the pool of the destination's stream and the load's current rank is
  the destination then; the other units are back in the pool.
\<close>

definition stream_pools :: "sys \<Rightarrow> abt_handle set" where
  "stream_pools s = (\<lambda>k. stream_pool (stream_at s k)) ` {..<n_streams s}"

text \<open>The unit \<open>u\<close> is the sub-scheduler of load \<open>l\<close>, with a pool of its own.\<close>

definition sub_unit :: "('r \<Rightarrow> rt_view) \<Rightarrow> (abt_handle \<Rightarrow> app_state \<Rightarrow> bool) \<Rightarrow> 'r world \<Rightarrow> abt_handle \<Rightarrow> lptr \<Rightarrow> bool" where
  "sub_unit v ok w u l \<longleftrightarrow> u \<noteq> 0 \<and> rv_sched (v (w_rt w)) u \<noteq> 0 \<and> valid_load (w_sys w) l \<and>
     (\<exists>d q. w_sub w (rv_ptr (v (w_rt w)) (rv_sched (v (w_rt w)) u)) = Some d \<and> sb_load d = Some (OwnLoad l) \<and>
       sb_num_pools d = 1 \<and> sb_pools d = [q] \<and> q \<notin> stream_pools (w_sys w) \<and> 0 \<notin> set (rv_pools (v (w_rt w)) q) \<and>
       (\<forall>t \<in> set (rv_pools (v (w_rt w)) q). ok t (app_of w)))"

text \<open>What running a sub-scheduler leaves alone.\<close>

definition quiet :: "('r \<Rightarrow> rt_view) \<Rightarrow> (abt_handle \<Rightarrow> app_state \<Rightarrow> bool) \<Rightarrow> 'r world \<Rightarrow> 'r world \<Rightarrow> bool" where
  "quiet v ok w w' \<longleftrightarrow> rv_sched (v (w_rt w')) = rv_sched (v (w_rt w)) \<and> rv_ptr (v (w_rt w')) = rv_ptr (v (w_rt w)) \<and>
     w_sub w' = w_sub w \<and> w_base w' = w_base w \<and> streams (w_sys w') = streams (w_sys w) \<and> env (w_sys w') = env (w_sys w) \<and>
     valid_load (w_sys w') = valid_load (w_sys w) \<and>
     (\<forall>l. curr_rank (load_at (w_sys w') l) = curr_rank (load_at (w_sys w) l) \<and>
        dest_rank (load_at (w_sys w') l) = dest_rank (load_at (w_sys w) l)) \<and>
     (\<forall>t. ok t (app_of w) \<longrightarrow> ok t (app_of w')) \<and>
     (\<forall>p \<in> stream_pools (w_sys w). rv_pools (v (w_rt w')) p = rv_pools (v (w_rt w)) p) \<and>
     (\<forall>p. set (rv_pools (v (w_rt w')) p) \<subseteq> set (rv_pools (v (w_rt w)) p))"

locale unit_runtime = pool_runtime S v for S :: "'r sched_ops" and v +
  fixes run :: "'r runner" and ok :: "abt_handle \<Rightarrow> app_state \<Rightarrow> bool"
  assumes ok_load: "ok t (s, io) \<Longrightarrow> ok t (set_load s l f, io)"
    and run_sub: "sub_unit v ok w u l \<Longrightarrow> \<exists>w'. run u p w = Inr w' \<and> quiet v ok w w'"

text \<open>
  The state of a pass over the pool of stream \<open>k\<close>: \<open>xs\<close> are the units still to be seen,
  \<open>ys\<close> those seen and put back; \<open>L\<close> is the load of a unit.
\<close>

definition pass_at :: "('r \<Rightarrow> rt_view) \<Rightarrow> (abt_handle \<Rightarrow> app_state \<Rightarrow> bool) \<Rightarrow> (abt_handle \<Rightarrow> lptr) \<Rightarrow> nat \<Rightarrow> abt_handle list \<Rightarrow> abt_handle list \<Rightarrow> 'r world \<Rightarrow> bool" where
  "pass_at v ok L k xs ys w \<longleftrightarrow>
     k < n_streams (w_sys w) \<and> n_streams (w_sys w) < 2 ^ 31 \<and> \<not> blocking (stream_at (w_sys w) k) \<and> \<not> stopping (env (w_sys w)) \<and>
     inj_on (\<lambda>j. stream_pool (stream_at (w_sys w) j)) {..<n_streams (w_sys w)} \<and>
     rv_pools (v (w_rt w)) (stream_pool (stream_at (w_sys w) k)) = xs @ ys \<and>
     (\<forall>u \<in> set (xs @ ys). sub_unit v ok w u (L u) \<and> curr_rank (load_at (w_sys w) (L u)) = of_nat k \<and>
        (\<exists>j < n_streams (w_sys w). dest_rank (load_at (w_sys w) (L u)) = of_nat j)) \<and>
     (\<forall>u \<in> set ys. dest_rank (load_at (w_sys w) (L u)) = of_nat k) \<and>
     distinct (map L (xs @ ys))"

definition unit_dest :: "(abt_handle \<Rightarrow> lptr) \<Rightarrow> 'r world \<Rightarrow> abt_handle \<Rightarrow> nat" where
  "unit_dest L w u = unat (dest_rank (load_at (w_sys w) (L u)))"

text \<open>The effect of the pass over \<open>xs\<close>.\<close>

definition passed :: "('r \<Rightarrow> rt_view) \<Rightarrow> (abt_handle \<Rightarrow> lptr) \<Rightarrow> nat \<Rightarrow> abt_handle list \<Rightarrow> abt_handle list \<Rightarrow> 'r world \<Rightarrow> 'r world \<Rightarrow> bool" where
  "passed v L k xs ys w w' \<longleftrightarrow>
     streams (w_sys w') = streams (w_sys w) \<and> env (w_sys w') = env (w_sys w) \<and> w_base w' = w_base w \<and>
     mset (rv_pools (v (w_rt w')) (stream_pool (stream_at (w_sys w) k))) =
       mset (filter (\<lambda>u. unit_dest L w u = k) xs) + mset ys \<and>
     (\<forall>j < n_streams (w_sys w). j \<noteq> k \<longrightarrow> rv_pools (v (w_rt w')) (stream_pool (stream_at (w_sys w) j)) =
       rv_pools (v (w_rt w)) (stream_pool (stream_at (w_sys w) j)) @ filter (\<lambda>u. unit_dest L w u = j) xs) \<and>
     (\<forall>l. dest_rank (load_at (w_sys w') l) = dest_rank (load_at (w_sys w) l) \<and>
        curr_rank (load_at (w_sys w') l) =
          (if l \<in> L ` set xs then dest_rank (load_at (w_sys w) l) else curr_rank (load_at (w_sys w) l)))"

lemma stream_views_cong:
  "streams s' = streams s \<Longrightarrow> n_streams s' = n_streams s" "streams s' = streams s \<Longrightarrow> stream_at s' = stream_at s"
  "streams s' = streams s \<Longrightarrow> stream_pools s' = stream_pools s"
  by (auto simp: n_streams_def stream_at_def stream_pools_def fun_eq_iff)

lemma pointer_diff:
  assumes "j < 2 ^ 31" "k < 2 ^ 31"
  shows "int k + sint (of_nat j - of_nat k :: u32) = int j"
proof -
  have "(of_nat j - of_nat k :: u32) = word_of_int (int j - int k)" by simp
  then have "sint (of_nat j - of_nat k :: u32) = int j - int k"
    using assms by (simp only: signed_of_int) (simp add: signed_take_bit_int_eq_self)
  then show ?thesis by simp
qed

lemma quietD:
  assumes "quiet v ok w w'"
  shows "rv_sched (v (w_rt w')) = rv_sched (v (w_rt w))" "rv_ptr (v (w_rt w')) = rv_ptr (v (w_rt w))"
    "w_sub w' = w_sub w" "w_base w' = w_base w" "streams (w_sys w') = streams (w_sys w)" "env (w_sys w') = env (w_sys w)"
    "valid_load (w_sys w') = valid_load (w_sys w)"
    "curr_rank (load_at (w_sys w') l) = curr_rank (load_at (w_sys w) l)"
    "dest_rank (load_at (w_sys w') l) = dest_rank (load_at (w_sys w) l)"
    "p \<in> stream_pools (w_sys w) \<Longrightarrow> rv_pools (v (w_rt w')) p = rv_pools (v (w_rt w)) p"
    "set (rv_pools (v (w_rt w')) p) \<subseteq> set (rv_pools (v (w_rt w)) p)"
    "ok t (app_of w) \<Longrightarrow> ok t (app_of w')"
  using assms unfolding quiet_def by simp_all

text \<open>What every step of the pass leaves alone.\<close>

definition near :: "('r \<Rightarrow> rt_view) \<Rightarrow> (abt_handle \<Rightarrow> app_state \<Rightarrow> bool) \<Rightarrow> 'r world \<Rightarrow> 'r world \<Rightarrow> bool" where
  "near v ok w w' \<longleftrightarrow> rv_sched (v (w_rt w')) = rv_sched (v (w_rt w)) \<and> rv_ptr (v (w_rt w')) = rv_ptr (v (w_rt w)) \<and>
     w_sub w' = w_sub w \<and> w_base w' = w_base w \<and> streams (w_sys w') = streams (w_sys w) \<and> env (w_sys w') = env (w_sys w) \<and>
     valid_load (w_sys w') = valid_load (w_sys w) \<and>
     (\<forall>l. dest_rank (load_at (w_sys w') l) = dest_rank (load_at (w_sys w) l)) \<and>
     (\<forall>t. ok t (app_of w) \<longrightarrow> ok t (app_of w')) \<and>
     (\<forall>p. p \<notin> stream_pools (w_sys w) \<longrightarrow> set (rv_pools (v (w_rt w')) p) \<subseteq> set (rv_pools (v (w_rt w)) p))"

lemma nearD:
  assumes "near v ok w w'"
  shows "rv_sched (v (w_rt w')) = rv_sched (v (w_rt w))" "rv_ptr (v (w_rt w')) = rv_ptr (v (w_rt w))"
    "w_sub w' = w_sub w" "w_base w' = w_base w" "streams (w_sys w') = streams (w_sys w)" "env (w_sys w') = env (w_sys w)"
    "valid_load (w_sys w') = valid_load (w_sys w)" "dest_rank (load_at (w_sys w') l) = dest_rank (load_at (w_sys w) l)"
    "p \<notin> stream_pools (w_sys w) \<Longrightarrow> set (rv_pools (v (w_rt w')) p) \<subseteq> set (rv_pools (v (w_rt w)) p)"
    "ok t (app_of w) \<Longrightarrow> ok t (app_of w')"
  using assms unfolding near_def by simp_all

lemma near_trans:
  assumes "near v ok w w1" "near v ok w1 w2"
  shows "near v ok w w2"
proof -
  note a = nearD [OF assms(1)] and b = nearD [OF assms(2)]
  have "stream_pools (w_sys w1) = stream_pools (w_sys w)" by (rule stream_views_cong(3) [OF a(5)])
  then show ?thesis using a b subset_trans unfolding near_def by metis
qed

lemma quiet_near: "quiet v ok w w' \<Longrightarrow> near v ok w w'"
  using quietD [of v ok w w'] by (simp add: near_def)

lemma near_pool:
  assumes "v r = set_pool p us (v (w_rt w))" and "p \<in> stream_pools (w_sys w)"
  shows "near v ok w (w\<lparr>w_rt := r\<rparr>)"
  using assms by (auto simp: near_def)

lemma near_load:
  assumes "valid_load (w_sys w) l" and "\<And>ld. dest_rank (f ld) = dest_rank ld"
    and "\<And>t. ok t (app_of w) \<Longrightarrow> ok t (set_load (w_sys w) l f, w_io w)"
  shows "near v ok w (w\<lparr>w_sys := set_load (w_sys w) l f\<rparr>)"
  using assms by (simp add: near_def app_of_def)

lemma sub_unit_near:
  assumes "near v ok w w'" and "sub_unit v ok w u l"
  shows "sub_unit v ok w' u l"
proof -
  note q = nearD [OF assms(1)]
  have "p \<notin> stream_pools (w_sys w) \<Longrightarrow> 0 \<notin> set (rv_pools (v (w_rt w)) p) \<Longrightarrow> 0 \<notin> set (rv_pools (v (w_rt w')) p)"
    "p \<notin> stream_pools (w_sys w) \<Longrightarrow> (\<forall>t \<in> set (rv_pools (v (w_rt w)) p). ok t (app_of w)) \<Longrightarrow>
      (\<forall>t \<in> set (rv_pools (v (w_rt w')) p). ok t (app_of w'))" for p
    using q(9,10) by blast+
  then show ?thesis
    using assms(2) unfolding sub_unit_def q(1,2,3,7) stream_views_cong(3) [OF q(5)] by blast
qed

text \<open>Establishing the state of the pass after a step, from what the step left alone.\<close>

lemma pass_atD:
  assumes "pass_at v ok L k xs ys w"
  shows "k < n_streams (w_sys w)" "n_streams (w_sys w) < 2 ^ 31" "\<not> blocking (stream_at (w_sys w) k)" "\<not> stopping (env (w_sys w))"
    "inj_on (\<lambda>j. stream_pool (stream_at (w_sys w) j)) {..<n_streams (w_sys w)}"
    "rv_pools (v (w_rt w)) (stream_pool (stream_at (w_sys w) k)) = xs @ ys"
    "u \<in> set (xs @ ys) \<Longrightarrow> sub_unit v ok w u (L u)" "u \<in> set (xs @ ys) \<Longrightarrow> curr_rank (load_at (w_sys w) (L u)) = of_nat k"
    "u \<in> set (xs @ ys) \<Longrightarrow> \<exists>j < n_streams (w_sys w). dest_rank (load_at (w_sys w) (L u)) = of_nat j"
    "u \<in> set ys \<Longrightarrow> dest_rank (load_at (w_sys w) (L u)) = of_nat k"
    "distinct (map L (xs @ ys))"
  using assms unfolding pass_at_def by simp_all

lemma pass_at_step:
  assumes p: "pass_at v ok L k xs ys w" and n: "near v ok w w'"
    and pool: "rv_pools (v (w_rt w')) (stream_pool (stream_at (w_sys w) k)) = xs' @ ys'"
    and sub: "set (xs' @ ys') \<subseteq> set (xs @ ys)" and d: "distinct (map L (xs' @ ys'))"
    and curr: "\<And>u. u \<in> set (xs' @ ys') \<Longrightarrow> curr_rank (load_at (w_sys w') (L u)) = curr_rank (load_at (w_sys w) (L u))"
    and stay: "\<And>u. u \<in> set ys' \<Longrightarrow> dest_rank (load_at (w_sys w) (L u)) = of_nat k"
  shows "pass_at v ok L k xs' ys' w'"
proof -
  note q = nearD [OF n] and x = pass_atD [OF p]
  have v: "n_streams (w_sys w') = n_streams (w_sys w)" "stream_at (w_sys w') = stream_at (w_sys w)"
    using stream_views_cong [OF q(5)] by auto
  have "sub_unit v ok w' u (L u) \<and> curr_rank (load_at (w_sys w') (L u)) = of_nat k \<and>
      (\<exists>j < n_streams (w_sys w). dest_rank (load_at (w_sys w') (L u)) = of_nat j)" if "u \<in> set (xs' @ ys')" for u
  proof -
    have u: "u \<in> set (xs @ ys)" using that sub by blast
    show ?thesis using sub_unit_near [OF n x(7) [OF u]] curr [OF that] x(8,9) [OF u] by (simp add: q(8))
  qed
  then show ?thesis
    using x(1-5) pool d stay unfolding pass_at_def v q(6) q(8) by blast
qed

text \<open>A step followed by the pass over the rest.\<close>

lemma passed_stay:
  assumes n: "near v ok w w2" and p: "passed v L k xs (ys @ [u]) w2 w'" and k: "k < n_streams (w_sys w)" "unit_dest L w u = k"
    and pools: "\<forall>p \<in> stream_pools (w_sys w). p \<noteq> stream_pool (stream_at (w_sys w) k) \<longrightarrow> rv_pools (v (w_rt w2)) p = rv_pools (v (w_rt w)) p"
    and inj: "inj_on (\<lambda>j. stream_pool (stream_at (w_sys w) j)) {..<n_streams (w_sys w)}"
    and curr: "\<forall>l. curr_rank (load_at (w_sys w2) l) = curr_rank (load_at (w_sys w) l)"
    and u: "curr_rank (load_at (w_sys w) (L u)) = dest_rank (load_at (w_sys w) (L u))"
  shows "passed v L k (u # xs) ys w w'"
proof -
  note q = nearD [OF n]
  have v: "n_streams (w_sys w2) = n_streams (w_sys w)" "stream_at (w_sys w2) = stream_at (w_sys w)"
    using stream_views_cong [OF q(5)] by auto
  have d: "unit_dest L w2 = unit_dest L w" by (simp add: unit_dest_def q(8) fun_eq_iff)
  have other: "rv_pools (v (w_rt w2)) (stream_pool (stream_at (w_sys w) j)) = rv_pools (v (w_rt w)) (stream_pool (stream_at (w_sys w) j))"
    if "j < n_streams (w_sys w)" "j \<noteq> k" for j
    using pools that k(1) inj by (auto simp: stream_pools_def dest: inj_onD)
  show ?thesis
    using p other k curr u unfolding passed_def v d q(4,5,6,8) by auto
qed

lemma passed_leave:
  assumes n: "near v ok w w1" and p: "passed v L k xs ys w1 w'" and j: "j < n_streams (w_sys w)" "j \<noteq> k" "unit_dest L w u = j"
    and k: "k < n_streams (w_sys w)" and dest: "dest_rank (load_at (w_sys w) (L u)) = of_nat j" and new: "L u \<notin> L ` set xs"
    and inj: "inj_on (\<lambda>j. stream_pool (stream_at (w_sys w) j)) {..<n_streams (w_sys w)}"
    and pools: "rv_pools (v (w_rt w1)) = (rv_pools (v (w_rt w)))(stream_pool (stream_at (w_sys w) k) := xs @ ys,
      stream_pool (stream_at (w_sys w) j) := rv_pools (v (w_rt w)) (stream_pool (stream_at (w_sys w) j)) @ [u])"
    and curr: "\<forall>l. curr_rank (load_at (w_sys w1) l) = (if l = L u then of_nat j else curr_rank (load_at (w_sys w) l))"
  shows "passed v L k (u # xs) ys w w'"
proof -
  note q = nearD [OF n]
  have v: "n_streams (w_sys w1) = n_streams (w_sys w)" "stream_at (w_sys w1) = stream_at (w_sys w)"
    using stream_views_cong [OF q(5)] by auto
  have d: "unit_dest L w1 = unit_dest L w" by (simp add: unit_dest_def q(8) fun_eq_iff)
  have other: "rv_pools (v (w_rt w1)) (stream_pool (stream_at (w_sys w) i)) =
      rv_pools (v (w_rt w)) (stream_pool (stream_at (w_sys w) i)) @ (if i = j then [u] else [])"
    if "i < n_streams (w_sys w)" "i \<noteq> k" for i
    unfolding pools using that k j(1) inj by (auto dest: inj_onD)
  have rank: "curr_rank (load_at (w_sys w') l) = (if l \<in> L ` set (u # xs) then dest_rank (load_at (w_sys w) l) else curr_rank (load_at (w_sys w) l))" for l
    using p new curr dest unfolding passed_def q(8) by (cases "l = L u") auto
  show ?thesis
    using p other j rank unfolding passed_def v d q(4,5,6,8) by auto
qed

lemma passed_done:
  assumes "pass_at v ok L k [] ys w"
  shows "passed v L k [] ys w w"
  using pass_atD(6) [OF assms] by (simp add: passed_def)

context unit_runtime
begin

lemma near_push: "p \<in> stream_pools (w_sys w) \<Longrightarrow> near v ok w (w\<lparr>w_rt := ABT_pool_push S p u (w_rt w)\<rparr>)"
  by (rule near_pool [of v _ p]) (auto simp: push)

text \<open>The first unit is taken from the pool; its scheduler leads to its load and its pool.\<close>

lemma pass_pop:
  assumes at: "pass_at v ok L k (u # xs) ys w"
  obtains r q where "ABT_pool_pop S (stream_pool (stream_at (w_sys w) k)) (w_rt w) = (u, r)"
    "v r = set_pool (stream_pool (stream_at (w_sys w) k)) (xs @ ys) (v (w_rt w))"
    "u \<noteq> 0" "ABT_unit_get_sched S u p' r = rv_sched (v (w_rt w)) u" "rv_sched (v (w_rt w)) u \<noteq> 0"
    "sub_sched_get_pool S (rv_sched (v (w_rt w)) u) (w\<lparr>w_rt := r\<rparr>) = Inr q"
    "rbind (sub_sched_get_load S (rv_sched (v (w_rt w)) u) (w\<lparr>w_rt := r\<rparr>)) own_load = Inr (L u)"
    "valid_load (w_sys w) (L u)" "near v ok w (w\<lparr>w_rt := r\<rparr>)"
proof -
  note x = pass_atD [OF at]
  have su: "sub_unit v ok w u (L u)" by (rule x(7)) simp
  let ?p = "stream_pool (stream_at (w_sys w) k)"
  have pool: "rv_pools (v (w_rt w)) ?p = u # (xs @ ys)" using x(6) by simp
  obtain r where r: "ABT_pool_pop S ?p (w_rt w) = (u, r)" "v r = set_pool ?p (xs @ ys) (v (w_rt w))"
    by (rule pop_first [OF pool])
  obtain d q where d: "w_sub w (rv_ptr (v (w_rt w)) (rv_sched (v (w_rt w)) u)) = Some d" "sb_load d = Some (OwnLoad (L u))" "sb_pools d = [q]"
    using su by (auto simp: sub_unit_def)
  have ptr: "sub_sched_data_get_ptr S (rv_sched (v (w_rt w)) u) (w\<lparr>w_rt := r\<rparr>) = Inr d"
    using d(1) r(2) by (simp add: sub_sched_data_get_ptr_def get_data)
  have "near v ok w (w\<lparr>w_rt := r\<rparr>)" by (rule near_pool [OF r(2)]) (use x(1) in \<open>simp add: stream_pools_def\<close>)
  then show thesis
    using that [of r q] r su ptr d(2,3)
    by (auto simp: sub_unit_def sub_sched_get_pool_def sub_sched_get_load_def own_load_def unit_sched)
qed

text \<open>A unit whose load has another destination goes to the pool of that stream.\<close>

lemma pass_migrate:
  assumes at: "pass_at v ok L k (u # xs) ys w" and dest: "dest_rank (load_at (w_sys w) (L u)) = of_nat j" "j < n_streams (w_sys w)" "j \<noteq> k"
    and r: "v r = set_pool (stream_pool (stream_at (w_sys w) k)) (xs @ ys) (v (w_rt w))"
    and nr: "near v ok w (w\<lparr>w_rt := r\<rparr>)" and vl: "valid_load (w_sys w) (L u)"
  shows "\<exists>w1. migrate_unit S k u (L u) (load_at (w_sys w) (L u)) (w\<lparr>w_rt := r\<rparr>) = Inr w1 \<and> pass_at v ok L k xs ys w1 \<and> near v ok w w1 \<and>
    rv_pools (v (w_rt w1)) = (rv_pools (v (w_rt w)))(stream_pool (stream_at (w_sys w) k) := xs @ ys,
      stream_pool (stream_at (w_sys w) j) := rv_pools (v (w_rt w)) (stream_pool (stream_at (w_sys w) j)) @ [u]) \<and>
    (\<forall>l. curr_rank (load_at (w_sys w1) l) = (if l = L u then of_nat j else curr_rank (load_at (w_sys w) l)))"
proof -
  note x = pass_atD [OF at]
  let ?s = "w_sys w" let ?p = "stream_pool (stream_at ?s k)" and ?q = "stream_pool (stream_at ?s j)"
  let ?f = "\<lambda>ld. abtst_load_update_curr_rank ld (dest_rank ld)"
  define w1 where "w1 = w\<lparr>w_sys := set_load ?s (L u) ?f, w_rt := ABT_pool_push S ?q u r\<rparr>"
  have pq: "?p \<noteq> ?q" using x(5) x(1) dest(2,3) by (auto dest: inj_onD)
  have ptr: "int k + sint (dest_rank (load_at ?s (L u)) - curr_rank (load_at ?s (L u))) = int j"
    using x(1,2,8) dest by (simp add: pointer_diff)
  have "migrate_unit S k u (L u) (load_at ?s (L u)) (w\<lparr>w_rt := r\<rparr>) = Inr w1"
    using vl dest(2) by (simp add: migrate_unit_def ptr w1_def n_streams_def stream_at_def idx_int_def)
  moreover have pools: "rv_pools (v (w_rt w1)) = (rv_pools (v (w_rt w)))(?p := xs @ ys, ?q := rv_pools (v (w_rt w)) ?q @ [u])"
    using pq by (simp add: w1_def push r)
  moreover have curr: "\<forall>l. curr_rank (load_at (w_sys w1) l) = (if l = L u then of_nat j else curr_rank (load_at ?s l))"
    using vl dest(1) by (simp add: w1_def abtst_load_update_curr_rank_def)
  moreover have near1: "near v ok w w1"
  proof -
    have "?q \<in> stream_pools ?s" using dest(2) by (simp add: stream_pools_def)
    then have "near v ok (w\<lparr>w_rt := r\<rparr>) (w\<lparr>w_rt := ABT_pool_push S ?q u r\<rparr>)"
      using near_pool [of v "ABT_pool_push S ?q u r" ?q _ "w\<lparr>w_rt := r\<rparr>"] push by simp
    moreover have "near v ok (w\<lparr>w_rt := ABT_pool_push S ?q u r\<rparr>) w1"
    proof -
      have "w1 = w\<lparr>w_rt := ABT_pool_push S ?q u r, w_sys := set_load ?s (L u) ?f\<rparr>" by (simp add: w1_def)
      then show ?thesis
        using near_load [of "w\<lparr>w_rt := ABT_pool_push S ?q u r\<rparr>" "L u" ?f ok v] vl ok_load by (simp add: abtst_load_update_curr_rank_def app_of_def)
    qed
    ultimately show ?thesis using nr near_trans by blast
  qed
  moreover have "pass_at v ok L k xs ys w1"
  proof (rule pass_at_step [OF at near1])
    show "rv_pools (v (w_rt w1)) ?p = xs @ ys" using pq by (simp add: pools)
    show "curr_rank (load_at (w_sys w1) (L u')) = curr_rank (load_at ?s (L u'))" if "u' \<in> set (xs @ ys)" for u'
    proof -
      have "L u' \<in> L ` set (xs @ ys)" using that by blast
      then have "L u' \<noteq> L u" using x(11) by auto
      then show ?thesis using curr by simp
    qed
  qed (use x(10,11) in auto)
  ultimately show ?thesis by blast
qed

text \<open>The other units are run, or skipped when idle, and put back at the end of the pool.\<close>

lemma pass_run:
  assumes at: "pass_at v ok L k (u # xs) ys w" and dest: "dest_rank (load_at (w_sys w) (L u)) = of_nat k"
    and r: "v r = set_pool (stream_pool (stream_at (w_sys w) k)) (xs @ ys) (v (w_rt w))"
    and nr: "near v ok w (w\<lparr>w_rt := r\<rparr>)" and vl: "valid_load (w_sys w) (L u)"
  shows "\<exists>c' w1. run_load S run u (stream_pool (stream_at (w_sys w) k)) q (L u) (load_at (w_sys w) (L u)) c (w\<lparr>w_rt := r\<rparr>) = Inr (c', w1) \<and>
    \<not> stopping (env (w_sys w1)) \<and>
    (let w2 = w1\<lparr>w_rt := ABT_pool_push S (stream_pool (stream_at (w_sys w) k)) u (w_rt w1)\<rparr> in
     pass_at v ok L k xs (ys @ [u]) w2 \<and> near v ok w w2 \<and>
     (\<forall>p \<in> stream_pools (w_sys w). rv_pools (v (w_rt w2)) p =
        (if p = stream_pool (stream_at (w_sys w) k) then xs @ ys @ [u] else rv_pools (v (w_rt w)) p)) \<and>
     (\<forall>l. curr_rank (load_at (w_sys w2) l) = curr_rank (load_at (w_sys w) l)))"
proof -
  note x = pass_atD [OF at]
  let ?s = "w_sys w" let ?p = "stream_pool (stream_at ?s k)"
  let ?w0 = "w\<lparr>w_rt := r\<rparr>" let ?wu = "w\<lparr>w_rt := r, w_sys := set_load ?s (L u) (\<lambda>ld. ld\<lparr>load_used := True\<rparr>)\<rparr>"
  have wu: "near v ok ?w0 ?wu" using near_load [of ?w0 "L u" "\<lambda>ld. ld\<lparr>load_used := True\<rparr>" ok v] vl ok_load by (simp add: app_of_def)
  have p: "?p \<in> stream_pools ?s" using x(1) by (simp add: stream_pools_def)
  have su: "sub_unit v ok ?wu u (L u)" using sub_unit_near [OF near_trans [OF nr wu]] x(7) [of u] by simp
  obtain wr where wr: "run u ?p ?wu = Inr wr" "quiet v ok ?wu wr" using run_sub [OF su] by blast
  define b where "b \<longleftrightarrow> ABT_pool_get_size S q r \<noteq> 0 \<or> \<not> load_used (load_at ?s (L u))"
  define w1 where "w1 = (if b then wr else ?w0)"
  have rl: "run_load S run u ?p q (L u) (load_at ?s (L u)) c ?w0 = Inr (if b then c + 1 else c, w1)"
    using vl wr(1) by (auto simp: run_load_def b_def w1_def)
  have n1: "near v ok w w1"
    using near_trans [OF near_trans [OF nr wu] quiet_near [OF wr(2)]] nr by (simp add: w1_def)
  have pools1: "rv_pools (v (w_rt w1)) p' = (if p' = ?p then xs @ ys else rv_pools (v (w_rt w)) p')" if "p' \<in> stream_pools ?s" for p'
  proof -
    have "p' \<in> stream_pools (w_sys ?wu)" using that stream_views_cong(3) [of "w_sys ?wu" ?s] by simp
    then show ?thesis using quietD(10) [OF wr(2), of p'] r by (auto simp: w1_def split: if_splits)
  qed
  have curr1: "curr_rank (load_at (w_sys w1) l) = curr_rank (load_at ?s l)" for l
    using quietD(8) [OF wr(2), of l] vl by (simp add: w1_def)
  let ?w2 = "w1\<lparr>w_rt := ABT_pool_push S ?p u (w_rt w1)\<rparr>"
  have n2: "near v ok w ?w2"
    using near_trans [OF n1 near_push] p stream_views_cong(3) [OF nearD(5) [OF n1]] by simp
  have pools2: "rv_pools (v (w_rt ?w2)) p' = (if p' = ?p then xs @ ys @ [u] else rv_pools (v (w_rt w)) p')" if "p' \<in> stream_pools ?s" for p'
    using pools1 [OF that] pools1 [OF p] by (simp add: push)
  have "pass_at v ok L k xs (ys @ [u]) ?w2"
    by (rule pass_at_step [OF at n2]) (use pools2 [OF p] x(10,11) dest curr1 in auto)
  moreover have "\<not> stopping (env (w_sys w1))" using x(4) nearD(6) [OF n1] by simp
  ultimately show ?thesis using rl n2 pools2 curr1 by (auto simp: Let_def)
qed

text \<open>One iteration at a unit that stays, and one at a unit that leaves.\<close>

lemma sched_inner_stay:
  assumes at: "pass_at v ok L k (u # xs) ys w" and dest: "dest_rank (load_at (w_sys w) (L u)) = of_nat k"
    and ps: "ps \<noteq> []" "ps ! 0 = stream_pool (stream_at (w_sys w) k)"
  obtains c' w2 where "sched_inner (Suc fuel) S run k ps c n w =
      (if n + 1 \<ge> length (u # xs @ ys) then Inr (c', n + 1, w2) else sched_inner fuel S run k ps c' (n + 1) w2)"
    "pass_at v ok L k xs (ys @ [u]) w2" "near v ok w w2" "rv_pools (v (w_rt w2)) (stream_pool (stream_at (w_sys w) k)) = xs @ ys @ [u]"
    "\<forall>p \<in> stream_pools (w_sys w). p \<noteq> stream_pool (stream_at (w_sys w) k) \<longrightarrow> rv_pools (v (w_rt w2)) p = rv_pools (v (w_rt w)) p"
    "\<forall>l. curr_rank (load_at (w_sys w2) l) = curr_rank (load_at (w_sys w) l)"
proof -
  note x = pass_atD [OF at]
  let ?p = "stream_pool (stream_at (w_sys w) k)"
  obtain r q where r: "ABT_pool_pop S ?p (w_rt w) = (u, r)" "v r = set_pool ?p (xs @ ys) (v (w_rt w))" "u \<noteq> 0"
    "ABT_unit_get_sched S u ?p r = rv_sched (v (w_rt w)) u" "rv_sched (v (w_rt w)) u \<noteq> 0"
    "sub_sched_get_pool S (rv_sched (v (w_rt w)) u) (w\<lparr>w_rt := r\<rparr>) = Inr q"
    "rbind (sub_sched_get_load S (rv_sched (v (w_rt w)) u) (w\<lparr>w_rt := r\<rparr>)) own_load = Inr (L u)"
    "valid_load (w_sys w) (L u)" "near v ok w (w\<lparr>w_rt := r\<rparr>)"
    by (rule pass_pop [OF at])
  obtain c' w1 where w1: "run_load S run u ?p q (L u) (load_at (w_sys w) (L u)) c (w\<lparr>w_rt := r\<rparr>) = Inr (c', w1)" "\<not> stopping (env (w_sys w1))"
    and w2: "pass_at v ok L k xs (ys @ [u]) (w1\<lparr>w_rt := ABT_pool_push S ?p u (w_rt w1)\<rparr>)" "near v ok w (w1\<lparr>w_rt := ABT_pool_push S ?p u (w_rt w1)\<rparr>)"
    "\<forall>p \<in> stream_pools (w_sys w). rv_pools (v (w_rt (w1\<lparr>w_rt := ABT_pool_push S ?p u (w_rt w1)\<rparr>))) p = (if p = ?p then xs @ ys @ [u] else rv_pools (v (w_rt w)) p)"
    "\<forall>l. curr_rank (load_at (w_sys (w1\<lparr>w_rt := ABT_pool_push S ?p u (w_rt w1)\<rparr>)) l) = curr_rank (load_at (w_sys w) l)"
    using pass_run [OF at dest r(2,9,8), of q c] unfolding Let_def by blast
  have sz: "ABT_pool_get_size S ?p (w_rt w) = length (u # xs @ ys)" using x(6) by (simp add: size)
  have cd: "curr_rank (load_at (w_sys w) (L u)) = dest_rank (load_at (w_sys w) (L u))" using x(8) dest by simp
  have "sched_inner (Suc fuel) S run k ps c n w = (if n + 1 \<ge> length (u # xs @ ys)
      then Inr (c', n + 1, w1\<lparr>w_rt := ABT_pool_push S ?p u (w_rt w1)\<rparr>)
      else sched_inner fuel S run k ps c' (n + 1) (w1\<lparr>w_rt := ABT_pool_push S ?p u (w_rt w1)\<rparr>))"
    unfolding sched_inner.simps [of "Suc fuel"]
    using x(1,3) ps r w1 cd sz by (simp add: abtst_stream_is_blocking_def abtst_is_system_stopping_def Let_def)
  moreover have "?p \<in> stream_pools (w_sys w)" using x(1) by (simp add: stream_pools_def)
  ultimately show thesis using that [OF _ w2(1,2)] w2(3,4) by auto
qed

lemma sched_inner_leave:
  assumes at: "pass_at v ok L k (u # xs) ys w" and dest: "dest_rank (load_at (w_sys w) (L u)) = of_nat j" "j < n_streams (w_sys w)" "j \<noteq> k"
    and ps: "ps \<noteq> []" "ps ! 0 = stream_pool (stream_at (w_sys w) k)"
  obtains w1 where "sched_inner (Suc fuel) S run k ps c n w = sched_inner fuel S run k ps c n w1" "pass_at v ok L k xs ys w1" "near v ok w w1"
    "rv_pools (v (w_rt w1)) = (rv_pools (v (w_rt w)))(stream_pool (stream_at (w_sys w) k) := xs @ ys,
      stream_pool (stream_at (w_sys w) j) := rv_pools (v (w_rt w)) (stream_pool (stream_at (w_sys w) j)) @ [u])"
    "\<forall>l. curr_rank (load_at (w_sys w1) l) = (if l = L u then of_nat j else curr_rank (load_at (w_sys w) l))"
proof -
  note x = pass_atD [OF at]
  let ?p = "stream_pool (stream_at (w_sys w) k)"
  obtain r q where r: "ABT_pool_pop S ?p (w_rt w) = (u, r)" "v r = set_pool ?p (xs @ ys) (v (w_rt w))" "u \<noteq> 0"
    "ABT_unit_get_sched S u ?p r = rv_sched (v (w_rt w)) u" "rv_sched (v (w_rt w)) u \<noteq> 0"
    "sub_sched_get_pool S (rv_sched (v (w_rt w)) u) (w\<lparr>w_rt := r\<rparr>) = Inr q"
    "rbind (sub_sched_get_load S (rv_sched (v (w_rt w)) u) (w\<lparr>w_rt := r\<rparr>)) own_load = Inr (L u)"
    "valid_load (w_sys w) (L u)" "near v ok w (w\<lparr>w_rt := r\<rparr>)"
    by (rule pass_pop [OF at])
  have "of_nat j \<noteq> (of_nat k :: u32)" using of_nat_u32_inj [of j k] dest x(1,2) by simp
  then have cd: "curr_rank (load_at (w_sys w) (L u)) \<noteq> dest_rank (load_at (w_sys w) (L u))" using x(8) [of u] dest(1) by simp
  from pass_migrate [OF at dest r(2,9,8)] obtain w1 where w1:
    "migrate_unit S k u (L u) (load_at (w_sys w) (L u)) (w\<lparr>w_rt := r\<rparr>) = Inr w1" "pass_at v ok L k xs ys w1" "near v ok w w1"
    "rv_pools (v (w_rt w1)) = (rv_pools (v (w_rt w)))(?p := xs @ ys,
      stream_pool (stream_at (w_sys w) j) := rv_pools (v (w_rt w)) (stream_pool (stream_at (w_sys w) j)) @ [u])"
    "\<forall>l. curr_rank (load_at (w_sys w1) l) = (if l = L u then of_nat j else curr_rank (load_at (w_sys w) l))" by blast
  have "sched_inner (Suc fuel) S run k ps c n w = sched_inner fuel S run k ps c n w1"
    unfolding sched_inner.simps [of "Suc fuel"]
    using x(1,3) ps r w1(1) cd by (simp add: abtst_stream_is_blocking_def abtst_load_is_migrating_def Let_def)
  then show thesis using that w1 by blast
qed

lemma sched_inner_empty:
  assumes at: "pass_at v ok L k [] [] w" and ps: "ps \<noteq> []" "ps ! 0 = stream_pool (stream_at (w_sys w) k)"
  obtains r where "sched_inner (Suc fuel) S run k ps c n w = Inr (c, n, w\<lparr>w_rt := r\<rparr>)" "v r = v (w_rt w)"
proof -
  note x = pass_atD [OF at]
  have "rv_pools (v (w_rt w)) (stream_pool (stream_at (w_sys w) k)) = []" using x(6) by simp
  then obtain r where r: "ABT_pool_pop S (stream_pool (stream_at (w_sys w) k)) (w_rt w) = (0, r)" "v r = v (w_rt w)" by (rule pop_empty)
  have "sched_inner (Suc fuel) S run k ps c n w = Inr (c, n, w\<lparr>w_rt := r\<rparr>)"
    unfolding sched_inner.simps [of "Suc fuel"] using x(1,3) ps r(1) by (simp add: abtst_stream_is_blocking_def Let_def)
  then show thesis using that r(2) by blast
qed

text \<open>
  The end of a pass: the pool is empty, or its first unit has been seen already and is seen once
  more before the loop is left.
\<close>

lemma sched_inner_last:
  assumes "pass_at v ok L k [] ys w" and "ps \<noteq> []" and "ps ! 0 = stream_pool (stream_at (w_sys w) k)"
  shows "\<exists>c' n' w'. sched_inner (Suc f) S run k ps c (length ys) w = Inr (c', n', w') \<and> passed v L k [] ys w w'"
proof (cases ys)
  case Nil
  with assms(1,2,3) obtain r where "sched_inner (Suc f) S run k ps c 0 w = Inr (c, 0, w\<lparr>w_rt := r\<rparr>)" "v r = v (w_rt w)"
    unfolding Nil by (metis sched_inner_empty list.size(3))
  then show ?thesis using Nil pass_atD(6) [OF assms(1)] by (auto simp: passed_def)
next
  case (Cons u ys')
  have at: "pass_at v ok L k (u # []) ys' w" using assms(1) unfolding Cons pass_at_def by auto
  have dest: "dest_rank (load_at (w_sys w) (L u)) = of_nat k" using pass_atD(10) [OF assms(1), of u] Cons by simp
  obtain c' w2 where w2: "sched_inner (Suc f) S run k ps c (length ys) w =
      (if length ys + 1 \<ge> length (u # [] @ ys') then Inr (c', length ys + 1, w2) else sched_inner f S run k ps c' (length ys + 1) w2)"
    "near v ok w w2" "rv_pools (v (w_rt w2)) (stream_pool (stream_at (w_sys w) k)) = [] @ ys' @ [u]"
    "\<forall>p \<in> stream_pools (w_sys w). p \<noteq> stream_pool (stream_at (w_sys w) k) \<longrightarrow> rv_pools (v (w_rt w2)) p = rv_pools (v (w_rt w)) p"
    "\<forall>l. curr_rank (load_at (w_sys w2) l) = curr_rank (load_at (w_sys w) l)"
    by (rule sched_inner_stay [OF at dest assms(2,3), of f c "length ys"]) blast
  have "passed v L k [] ys w w2"
    using w2(3-5) nearD [OF w2(2)] pass_atD(1,5) [OF assms(1)] Cons
    by (auto simp: passed_def stream_pools_def dest: inj_onD)
  then show ?thesis using w2(1) Cons by auto
qed

text \<open>The whole pass. A budget of one more than the units to be seen is enough.\<close>

lemma sched_inner_pass:
  assumes "pass_at v ok L k xs ys w" and "length xs < fuel" and "ps \<noteq> []" and "ps ! 0 = stream_pool (stream_at (w_sys w) k)"
  shows "\<exists>c' n' w'. sched_inner fuel S run k ps c (length ys) w = Inr (c', n', w') \<and> passed v L k xs ys w w'"
  using assms
proof (induction xs arbitrary: ys w c fuel)
  case Nil
  then obtain f where f: "fuel = Suc f" by (cases fuel) auto
  show ?case unfolding f by (rule sched_inner_last [OF Nil.prems(1,3,4)])
next
  case (Cons u xs)
  then obtain f where f: "fuel = Suc f" "length xs < f" by (cases fuel) auto
  note at = Cons.prems(1) and x = pass_atD [OF Cons.prems(1)]
  obtain j where j: "j < n_streams (w_sys w)" "dest_rank (load_at (w_sys w) (L u)) = of_nat j" using x(9) [of u] by auto
  have ud: "unit_dest L w u = j" using j x(2) by (simp add: unit_dest_def)
  show ?case
  proof (cases "j = k")
    case True
    with j have dest: "dest_rank (load_at (w_sys w) (L u)) = of_nat k" by simp
    obtain c' w2 where w2: "sched_inner fuel S run k ps c (length ys) w =
        (if length ys + 1 \<ge> length (u # xs @ ys) then Inr (c', length ys + 1, w2) else sched_inner f S run k ps c' (length ys + 1) w2)"
      "pass_at v ok L k xs (ys @ [u]) w2" "near v ok w w2" "rv_pools (v (w_rt w2)) (stream_pool (stream_at (w_sys w) k)) = xs @ ys @ [u]"
      "\<forall>p \<in> stream_pools (w_sys w). p \<noteq> stream_pool (stream_at (w_sys w) k) \<longrightarrow> rv_pools (v (w_rt w2)) p = rv_pools (v (w_rt w)) p"
      "\<forall>l. curr_rank (load_at (w_sys w2) l) = curr_rank (load_at (w_sys w) l)"
      unfolding f(1) by (rule sched_inner_stay [OF at dest Cons.prems(3,4), of f c "length ys"])
    have ps: "ps ! 0 = stream_pool (stream_at (w_sys w2) k)"
      using Cons.prems(4) stream_views_cong(2) [OF nearD(5) [OF w2(3)]] by simp
    have "\<exists>c'' n' w'. sched_inner fuel S run k ps c (length ys) w = Inr (c'', n', w') \<and> passed v L k xs (ys @ [u]) w2 w'"
    proof (cases "xs = []")
      case True
      then show ?thesis using w2(1) passed_done [of v ok L k "ys @ [u]" w2] w2(2) by auto
    next
      case False
      then show ?thesis using w2(1) Cons.IH [OF w2(2) f(2) Cons.prems(3) ps, of c'] by auto
    qed
    then show ?thesis
      using passed_stay [OF w2(3) _ x(1) _ w2(5) x(5) w2(6), of L xs ys u] ud True x(8) [of u] dest by auto
  next
    case False
    obtain w1 where w1: "sched_inner fuel S run k ps c (length ys) w = sched_inner f S run k ps c (length ys) w1" "pass_at v ok L k xs ys w1" "near v ok w w1"
      "rv_pools (v (w_rt w1)) = (rv_pools (v (w_rt w)))(stream_pool (stream_at (w_sys w) k) := xs @ ys,
        stream_pool (stream_at (w_sys w) j) := rv_pools (v (w_rt w)) (stream_pool (stream_at (w_sys w) j)) @ [u])"
      "\<forall>l. curr_rank (load_at (w_sys w1) l) = (if l = L u then of_nat j else curr_rank (load_at (w_sys w) l))"
      unfolding f(1) by (rule sched_inner_leave [OF at j(2,1) False Cons.prems(3,4)])
    have ps: "ps ! 0 = stream_pool (stream_at (w_sys w1) k)"
      using Cons.prems(4) stream_views_cong(2) [OF nearD(5) [OF w1(3)]] by simp
    have new: "L u \<notin> L ` set xs" using x(11) by auto
    from Cons.IH [OF w1(2) f(2) Cons.prems(3) ps, of c] w1(1) show ?thesis
      using passed_leave [OF w1(3) _ j(1) False ud x(1) j(2) new x(5) w1(4,5)] by auto
  qed
qed

end

end
