(* ===== verification/Sched_Stop.thy ===== *)
theory Sched_Stop
  imports Sched_Round
begin

text \<open>
  The outer loop of \<^verbatim>\<open>sched_run\<close>: the pause between rounds stays between 100 ns and
  1.6384 ms, and a scheduler with an empty pool that is told to stop leaves its loop after at
  most as many rounds as its event frequency.
\<close>

subsection \<open>Pauses\<close>

definition pause_ok :: "int \<Rightarrow> bool" where
  "pause_ok ns \<longleftrightarrow> (\<exists>i \<le> 14. ns = 100 * 2 ^ i)"

lemma pause_ok_bounds: "pause_ok ns \<Longrightarrow> 100 \<le> ns \<and> ns \<le> 1638400"
proof -
  assume "pause_ok ns"
  then obtain i where i: "i \<le> 14" "ns = 100 * 2 ^ i" by (auto simp: pause_ok_def)
  have "(2::int) ^ i \<le> 2 ^ 14" using i(1) by (intro power_increasing) auto
  moreover have "(1::int) \<le> 2 ^ i" by simp
  ultimately show ?thesis using i(2) by simp
qed

lemma next_pause_ok: "pause_ok ns \<Longrightarrow> pause_ok (next_pause c ns)"
proof -
  assume ns: "pause_ok ns"
  then obtain i where i: "i \<le> 14" "ns = 100 * 2 ^ i" by (auto simp: pause_ok_def)
  have "Suc i \<le> 14" if "ns < 1000000"
  proof (rule ccontr)
    assume "\<not> Suc i \<le> 14"
    then have "i = 14" using i(1) by simp
    then show False using that i(2) by simp
  qed
  then have "pause_ok (ns * 2)" if "ns < 1000000"
    using that i(2) unfolding pause_ok_def by (intro exI [of _ "Suc i"]) simp
  moreover have "pause_ok 100" unfolding pause_ok_def by (intro exI [of _ 0]) simp
  ultimately show ?thesis using ns by (simp add: next_pause_def)
qed

lemma next_pause_doubles:
  "next_pause c (100 * 2 ^ min n 14) = 100 * 2 ^ min (if c = 0 then Suc n else 0) 14"
proof (cases "n < 14")
  case True
  then have "n \<le> 13" by simp
  then have "(2::int) ^ n \<le> 2 ^ 13" by (intro power_increasing) auto
  then show ?thesis using True by (simp add: next_pause_def)
next
  case False
  then have "min n 14 = 14" "min (Suc n) 14 = 14" by simp_all
  then show ?thesis by (simp add: next_pause_def)
qed

lemma sched_pause_eq:
  assumes "w_base w a = Some d" and "k < n_streams (w_sys w)"
  shows "sched_pause a k c w =
    Inr (w\<lparr>w_base := (w_base w)(a \<mapsto> d\<lparr>bd_tv_nsec := next_pause c (bd_tv_nsec d)\<rparr>),
      w_sys := if c = 0 then set_stream (w_sys w) k (abtst_stream_update_sleep_time (word_of_int (next_pause c (bd_tv_nsec d)))) else w_sys w\<rparr>)"
  using assms by (simp add: sched_pause_def Let_def)

subsection \<open>Leaving the loop\<close>

text \<open>
  Scheduler \<open>h\<close> of stream \<open>k\<close> has been told to stop and has nothing to do: the stream is
  blocked, or its pool is empty.
\<close>

definition idle_at :: "('r \<Rightarrow> rt_view) \<Rightarrow> abt_handle \<Rightarrow> nat \<Rightarrow> nat \<Rightarrow> base_data \<Rightarrow> 'r world \<Rightarrow> bool" where
  "idle_at v h a k d w \<longleftrightarrow> rv_stop (v (w_rt w)) h \<and> k < n_streams (w_sys w) \<and> w_base w a \<noteq> None \<and> bd_pools d \<noteq> [] \<and>
     (blocking (stream_at (w_sys w) k) \<or> rv_pools (v (w_rt w)) (bd_pools d ! 0) = [])"

locale stop_runtime = pool_runtime S v for S :: "'r sched_ops" and v +
  assumes events: "v (ABT_xstream_check_events S h r) = v r"
    and stop: "fst (ABT_sched_has_to_stop S h r) = rv_stop (v r) h \<and> v (snd (ABT_sched_has_to_stop S h r)) = v r"
begin

lemma idle_inner:
  assumes "idle_at v h a k d w" and "0 < fuel"
  obtains r where "sched_inner fuel S run k (bd_pools d) 0 0 w = Inr (0, 0, w\<lparr>w_rt := r\<rparr>)" "v r = v (w_rt w)"
proof (cases "blocking (stream_at (w_sys w) k)")
  case True
  then have "sched_inner fuel S run k (bd_pools d) 0 0 w = Inr (0, 0, w\<lparr>w_rt := w_rt w\<rparr>)"
    using assms by (subst sched_inner.simps) (simp add: idle_at_def abtst_stream_is_blocking_def)
  then show thesis using that by blast
next
  case False
  then have "rv_pools (v (w_rt w)) (bd_pools d ! 0) = []" using assms(1) by (simp add: idle_at_def)
  then obtain r where r: "ABT_pool_pop S (bd_pools d ! 0) (w_rt w) = (0, r)" "v r = v (w_rt w)" by (rule pop_empty)
  have "sched_inner fuel S run k (bd_pools d) 0 0 w = Inr (0, 0, w\<lparr>w_rt := r\<rparr>)"
    using False assms r(1) by (subst sched_inner.simps) (simp add: idle_at_def abtst_stream_is_blocking_def Let_def)
  then show thesis using that r(2) by blast
qed

lemma idle_pause:
  assumes "idle_at v h a k d w" and "v r = v (w_rt w)"
  obtains w' where "sched_pause a k c (w\<lparr>w_rt := r\<rparr>) = Inr w'" "idle_at v h a k d w'"
proof -
  obtain d0 where d0: "w_base w a = Some d0" "k < n_streams (w_sys w)" using assms(1) by (auto simp: idle_at_def)
  show thesis
    by (rule that, rule sched_pause_eq)
      (use assms d0 in \<open>auto simp: idle_at_def abtst_stream_update_sleep_time_def\<close>)
qed

lemma idle_round:
  assumes idle: "idle_at v h a k d w"
  obtains w' where "sched_round S run h a k d (wc, st, w) =
      Inr (wc + 1 \<ge> bd_event_freq d, wc + 1, st \<or> wc + 1 \<ge> bd_event_freq d, w')" "idle_at v h a k d w'"
proof -
  obtain r where r: "sched_inner list_bound S run k (bd_pools d) 0 0 w = Inr (0, 0, w\<lparr>w_rt := r\<rparr>)" "v r = v (w_rt w)"
    by (rule idle_inner [OF idle, of list_bound]) (simp_all add: list_bound_def)
  show thesis
  proof (cases "wc + 1 \<ge> bd_event_freq d")
    case True
    let ?r1 = "ABT_xstream_check_events S h r"
    let ?r2 = "if st then ?r1 else snd (ABT_sched_has_to_stop S h ?r1)"
    have "v ?r2 = v (w_rt w)" using events stop r(2) by simp
    then have "idle_at v h a k d (w\<lparr>w_rt := ?r2\<rparr>)" using idle by (simp add: idle_at_def)
    moreover have "sched_round S run h a k d (wc, st, w) = Inr (True, wc + 1, True, w\<lparr>w_rt := ?r2\<rparr>)"
      using r True idle stop [of h ?r1] events [of h r] by (cases "ABT_sched_has_to_stop S h ?r1") (simp add: sched_round_def Let_def idle_at_def)
    ultimately show thesis using that True by simp
  next
    case False
    obtain w' where "sched_pause a k 0 (w\<lparr>w_rt := r\<rparr>) = Inr w'" "idle_at v h a k d w'"
      by (rule idle_pause [OF idle r(2)])
    then show thesis using that [of w'] r(1) False by (simp add: sched_round_def)
  qed
qed

lemma idle_rounds:
  assumes "idle_at v h a k d w" and "i < max 1 (unat (bd_event_freq d))"
  shows "\<exists>w'. sched_rounds (max 1 (unat (bd_event_freq d)) - i + n) S run h a k d (of_nat i, st, w) = Inr w' \<and> idle_at v h a k d w'"
  using assms
proof (induction "max 1 (unat (bd_event_freq d)) - i" arbitrary: i st w)
  case 0
  then show ?case by linarith
next
  case (Suc m)
  let ?F = "max 1 (unat (bd_event_freq d))"
  obtain w1 where w1: "sched_round S run h a k d (of_nat i, st, w) =
      Inr (of_nat i + 1 \<ge> bd_event_freq d, of_nat i + 1, st \<or> of_nat i + 1 \<ge> bd_event_freq d, w1)" "idle_at v h a k d w1"
    by (rule idle_round [OF Suc.prems(1)])
  have F: "?F < 2 ^ 32" using unsigned_less [of "bd_event_freq d", where 'a = nat] by simp
  have fu: "?F - i + n = Suc (m + n)" using Suc.hyps(2) by simp
  show ?case
  proof (cases "Suc i < ?F")
    case True
    then have "unat (of_nat (Suc i) :: u32) = Suc i" using F by (intro unat_of_nat_small) linarith
    then have "\<not> of_nat (Suc i) \<ge> bd_event_freq d" unfolding word_le_nat_alt using True by linarith
    then have "\<not> of_nat i + 1 \<ge> bd_event_freq d" by (simp add: add.commute)
    then have step: "sched_rounds (Suc (m + n)) S run h a k d (of_nat i, st, w) = sched_rounds (m + n) S run h a k d (of_nat (Suc i), st, w1)"
      using w1(1) by (simp add: add.commute)
    have m: "m = ?F - Suc i" using Suc.hyps(2) by simp
    from Suc.hyps(1) [OF m w1(2) True, of st] show ?thesis unfolding fu step unfolding m .
  next
    case False
    then have i: "i = ?F - 1" using Suc.prems(2) by simp
    have "of_nat i + 1 \<ge> bd_event_freq d"
    proof (cases "unat (bd_event_freq d) = 0")
      case True
      then show ?thesis by (simp add: unat_eq_0)
    next
      case False
      then have "Suc i = unat (bd_event_freq d)" using i by simp
      then have "of_nat (Suc i) = bd_event_freq d" by simp
      then show ?thesis by (simp add: add.commute)
    qed
    then show ?thesis using w1 unfolding fu by simp
  qed
qed

lemma sched_run_leaves:
  assumes d: "w_base w (rv_ptr (v (w_rt w)) h) = Some d" "bd_stream d = Some (OwnStream k)"
    and idle: "idle_at v h (rv_ptr (v (w_rt w)) h) k d w" and fuel: "max 1 (unat (bd_event_freq d)) \<le> fuel"
  shows "\<exists>w'. sched_run fuel S run h w = Inr w' \<and> idle_at v h (rv_ptr (v (w_rt w)) h) k d w'"
proof -
  obtain n where "fuel = max 1 (unat (bd_event_freq d)) + n" using fuel le_Suc_ex by blast
  then show ?thesis
    using idle_rounds [OF idle, of 0 n run False] d
    by (auto simp: sched_run_def sched_data_get_ptr_def get_data own_stream_def)
qed

end

end
