(* ===== verification/Sched_Ref.thy ===== *)
theory Sched_Ref
  imports Sched_Stop App
begin

text \<open>
  The two schedulers and the storage application together. \<open>app_runtime\<close> is a runtime whose
  threads leave streams and ranks alone; running the unit of a load is then a run of its
  sub-scheduler, which fulfils the contract of \<open>unit_runtime\<close>. A reference runtime with
  queues as pools, whose threads are \<^verbatim>\<open>st_thread_func\<close>, fulfils all the contracts.
\<close>

declare split_paired_All [simp del] split_paired_Ex [simp del]

subsection \<open>Units are runs of the sub-scheduler\<close>

text \<open>\<^verbatim>\<open>ABT_xstream_run_unit\<close> on the unit of a scheduler. Two rounds are enough when threads create no threads.\<close>

definition unit_run :: "'r sched_ops \<Rightarrow> 'r runner \<Rightarrow> 'r runner" where
  "unit_run S run u p w = sub_sched_run 2 S run (ABT_unit_get_sched S u p (w_rt w)) w"

definition sys_frame :: "sys \<Rightarrow> sys \<Rightarrow> bool" where
  "sys_frame s s' \<longleftrightarrow> streams s' = streams s \<and> env s' = env s \<and> valid_load s' = valid_load s \<and>
     (\<forall>l. curr_rank (load_at s' l) = curr_rank (load_at s l) \<and> dest_rank (load_at s' l) = dest_rank (load_at s l))"

lemma app_of_sys [simp]: "fst (app_of w) = w_sys w" "snd (app_of w) = w_io w"
  by (simp_all add: app_of_def)

lemma sys_frame_trans: "sys_frame s s' \<Longrightarrow> sys_frame s' s'' \<Longrightarrow> sys_frame s s''"
  by (simp add: sys_frame_def)

locale app_runtime = thread_runtime S v run exec ok for S :: "'r sched_ops" and v run exec ok +
  assumes exec_frame: "ok u x \<Longrightarrow> sys_frame (fst x) (fst (exec u x))"
    and exec_ok_load: "ok t (s, io) \<Longrightarrow> ok t (set_load s l f, io)"
begin

lemma fold_exec:
  assumes "\<forall>u \<in> set us. ok u x"
  shows "sys_frame (fst x) (fst (fold exec us x)) \<and> (\<forall>t. ok t x \<longrightarrow> ok t (fold exec us x))"
  using assms
proof (induction us arbitrary: x)
  case Nil
  show ?case by (simp add: sys_frame_def)
next
  case (Cons u us)
  have "\<forall>u' \<in> set us. ok u' (exec u x)" using Cons.prems ok_exec by auto
  from Cons.IH [OF this] show ?case
    using Cons.prems exec_frame [of u x] ok_exec [of _ x u] sys_frame_trans by auto
qed

lemma ran_frame:
  assumes "ran q n w w'" and "\<forall>t \<in> set (rv_pools (v (w_rt w)) q). ok t (app_of w)"
  shows "sys_frame (w_sys w) (w_sys w')" "ok t (app_of w) \<Longrightarrow> ok t (app_of w')"
proof -
  have "\<forall>t \<in> set (take n (rv_pools (v (w_rt w)) q)). ok t (app_of w)" using assms(2) by (meson in_set_takeD)
  from fold_exec [OF this] assms(1) show "sys_frame (w_sys w) (w_sys w')" "ok t (app_of w) \<Longrightarrow> ok t (app_of w')"
    unfolding ran_def by (metis app_of_sys(1), metis)
qed

lemma unit_run_quiet:
  assumes "sub_unit v ok w u l"
  shows "\<exists>w'. unit_run S run u p w = Inr w' \<and> quiet v ok w w'"
proof -
  obtain d q where d: "w_sub w (rv_ptr (v (w_rt w)) (rv_sched (v (w_rt w)) u)) = Some d" "sb_num_pools d = 1" "sb_pools d = [q]"
    "q \<notin> stream_pools (w_sys w)" "0 \<notin> set (rv_pools (v (w_rt w)) q)" "\<forall>t \<in> set (rv_pools (v (w_rt w)) q). ok t (app_of w)"
    using assms unfolding sub_unit_def by blast
  from sub_sched_run_batch [OF d(1,3,2,5,6), of 2]
  obtain w' where w': "unit_run S run u p w = Inr w'" "ran q MAX_BATCH_COUNT w w'" by (auto simp: unit_run_def unit_sched)
  note r = w'(2) [unfolded ran_def]
  note f = ran_frame [OF w'(2) d(6)]
  have "set (rv_pools (v (w_rt w')) p) \<subseteq> set (rv_pools (v (w_rt w)) p)" for p
    using r by (auto dest: in_set_dropD)
  moreover have "\<forall>p \<in> stream_pools (w_sys w). rv_pools (v (w_rt w')) p = rv_pools (v (w_rt w)) p" using r d(4) by auto
  ultimately have "quiet v ok w w'" using r f unfolding quiet_def sys_frame_def by simp
  then show ?thesis using w'(1) by blast
qed

text \<open>
  In a system that is stopping, a unit is not put back after its run: what its batch has left in
  the pool of the load stays there.
\<close>

lemma stopping_drop:
  assumes k: "k < n_streams (w_sys w)" "\<not> blocking (stream_at (w_sys w) k)" "stopping (env (w_sys w))"
    and ps: "ps \<noteq> []" "ps ! 0 = stream_pool (stream_at (w_sys w) k)"
    and pool: "rv_pools (v (w_rt w)) (stream_pool (stream_at (w_sys w) k)) = [u]" and su: "sub_unit v ok w u l"
    and d: "w_sub w (rv_ptr (v (w_rt w)) (rv_sched (v (w_rt w)) u)) = Some d" "sb_pools d = [q]"
    and stay: "curr_rank (load_at (w_sys w) l) = dest_rank (load_at (w_sys w) l)" and busy: "rv_pools (v (w_rt w)) q \<noteq> []"
  shows "\<exists>w'. sched_inner (Suc fuel) S (unit_run S run) k ps 0 0 w = Inr (1, 1, w') \<and>
    v (w_rt w') = set_pool q (drop MAX_BATCH_COUNT (rv_pools (v (w_rt w)) q)) (set_pool (stream_pool (stream_at (w_sys w) k)) [] (v (w_rt w)))"
proof -
  let ?p = "stream_pool (stream_at (w_sys w) k)" and ?h = "rv_sched (v (w_rt w)) u"
  have u: "u \<noteq> 0" "?h \<noteq> 0" "valid_load (w_sys w) l" "sb_load d = Some (OwnLoad l)" "sb_num_pools d = 1" "q \<notin> stream_pools (w_sys w)"
    "0 \<notin> set (rv_pools (v (w_rt w)) q)" "\<forall>t \<in> set (rv_pools (v (w_rt w)) q). ok t (app_of w)"
    using su d unfolding sub_unit_def by auto
  then have pq: "?p \<noteq> q" using k(1) by (auto simp: stream_pools_def)
  obtain r where r: "ABT_pool_pop S ?p (w_rt w) = (u, r)" "v r = set_pool ?p [] (v (w_rt w))" using pop_first [OF pool] by auto
  let ?w = "w\<lparr>w_rt := r, w_sys := set_load (w_sys w) l (\<lambda>ld. ld\<lparr>load_used := True\<rparr>)\<rparr>"
  have q: "rv_pools (v (w_rt ?w)) q = rv_pools (v (w_rt w)) q" using r(2) pq by simp
  have ok': "\<forall>t \<in> set (rv_pools (v (w_rt ?w)) q). ok t (app_of ?w)"
    using u(8) exec_ok_load unfolding q by (simp add: app_of_def)
  obtain w' where w': "sub_sched_run 2 S run ?h ?w = Inr w'" "ran q MAX_BATCH_COUNT ?w w'"
    using sub_sched_run_batch [of ?w ?h d q 2] d u(5,7) ok' r(2) pq by auto
  have env': "stopping (env (w_sys w'))" using ran_frame(1) [OF w'(2) ok'] k(3) by (simp add: sys_frame_def)
  have ptr: "sub_sched_data_get_ptr S ?h (w\<lparr>w_rt := r\<rparr>) = Inr d" using d(1) r(2) by (simp add: sub_sched_data_get_ptr_def get_data)
  have "run_load S (unit_run S run) u ?p q l (load_at (w_sys w) l) 0 (w\<lparr>w_rt := r\<rparr>) = Inr (1, w')"
    using u(3) w'(1) q busy r(2) by (simp add: run_load_def size unit_run_def unit_sched)
  then have "sched_inner (Suc fuel) S (unit_run S run) k ps 0 0 w = Inr (1, 1, w')"
    unfolding sched_inner.simps [of "Suc fuel"]
    using k ps r u d(2) ptr stay env' pool
    by (simp add: abtst_stream_is_blocking_def abtst_is_system_stopping_def Let_def unit_sched size
        sub_sched_get_pool_def sub_sched_get_load_def own_load_def)
  then show ?thesis using w'(2) q r(2) unfolding ran_def by auto
qed

end

sublocale app_runtime \<subseteq> u: unit_runtime S v "unit_run S run" ok
  by unfold_locales (rule exec_ok_load, assumption, rule unit_run_quiet)

context app_runtime
begin

lemma runs_units: "unit_runtime S v (unit_run S run) ok"
  by (rule u.unit_runtime_axioms)

end

subsection \<open>A reference runtime\<close>

record ref_rt =
  rr_view :: rt_view
  rr_pools_of :: "abt_handle \<Rightarrow> abt_handle list"
  rr_config :: "abt_handle \<Rightarrow> u32 option \<times> owner option"

definition ref_pop :: "abt_handle \<Rightarrow> ref_rt \<Rightarrow> abt_handle \<times> ref_rt" where
  "ref_pop p r = (case rv_pools (rr_view r) p of [] \<Rightarrow> (0, r) | u # us \<Rightarrow> (u, r\<lparr>rr_view := set_pool p us (rr_view r)\<rparr>))"

definition ref_ops :: "ref_rt sched_ops" where
  "ref_ops = \<lparr>
     ABT_pool_get_size = \<lambda>p r. length (rv_pools (rr_view r) p),
     ABT_pool_pop = ref_pop,
     ABT_pool_push = \<lambda>p u r. r\<lparr>rr_view := set_pool p (rv_pools (rr_view r) p @ [u]) (rr_view r)\<rparr>,
     ABT_pool_get_access = \<lambda>p r. ABT_POOL_ACCESS_MPMC,
     ABT_unit_get_sched = \<lambda>u p r. rv_sched (rr_view r) u,
     ABT_sched_get_data = \<lambda>h r. rv_ptr (rr_view r) h,
     ABT_sched_set_data = \<lambda>h a r. (0, r\<lparr>rr_view := (rr_view r)\<lparr>rv_ptr := (rv_ptr (rr_view r))(h := a)\<rparr>\<rparr>),
     ABT_sched_get_num_pools = \<lambda>h r. length (rr_pools_of r h),
     ABT_sched_get_pools = \<lambda>h n r. take n (rr_pools_of r h),
     ABT_sched_config_read = \<lambda>c r. rr_config r c,
     ABT_xstream_check_events = \<lambda>h r. r,
     ABT_sched_has_to_stop = \<lambda>h r. (rv_stop (rr_view r) h, r)\<rparr>"

text \<open>The thread of unit \<open>u\<close> works on the block \<open>arg u\<close>.\<close>

definition ref_thread :: "(abt_handle \<Rightarrow> nat) \<Rightarrow> ref_rt runner" where
  "ref_thread arg u p w = rbind (st_thread_func (arg u) (w_sys w, w_io w)) (\<lambda>(s, io). Inr (w\<lparr>w_sys := s, w_io := io\<rparr>))"

definition ref_exec :: "(abt_handle \<Rightarrow> nat) \<Rightarrow> abt_handle \<Rightarrow> app_state \<Rightarrow> app_state" where
  "ref_exec arg u x = (set_load (fst x) (io_load (snd x ! arg u)) abtst_load_inc_ended,
     (snd x)[arg u := (snd x ! arg u)\<lparr>io_used := False\<rparr>])"

definition ref_ok :: "(abt_handle \<Rightarrow> nat) \<Rightarrow> abt_handle \<Rightarrow> app_state \<Rightarrow> bool" where
  "ref_ok arg u x \<longleftrightarrow> arg u < length (snd x) \<and> valid_load (fst x) (io_load (snd x ! arg u))"

interpretation ref: app_runtime ref_ops rr_view "ref_thread arg" "ref_exec arg" "ref_ok arg" for arg
proof unfold_locales
  show "rv_pools (rr_view r) p = [] \<Longrightarrow> fst (ABT_pool_pop ref_ops p r) = 0 \<and> rr_view (snd (ABT_pool_pop ref_ops p r)) = rr_view r"
    "rv_pools (rr_view r) p = u # us \<Longrightarrow>
      fst (ABT_pool_pop ref_ops p r) = u \<and> rr_view (snd (ABT_pool_pop ref_ops p r)) = set_pool p us (rr_view r)" for r p u us
    by (simp_all add: ref_ops_def ref_pop_def)
  show "\<exists>w'. ref_thread arg u p w = Inr w' \<and> app_of w' = ref_exec arg u (app_of w) \<and> rr_view (w_rt w') = rr_view (w_rt w) \<and>
      w_sub w' = w_sub w \<and> w_base w' = w_base w" if "ref_ok arg u (app_of w)" for u w p
    using that by (simp add: ref_thread_def ref_exec_def ref_ok_def app_of_def st_thread_func_def st_release_def st_end_def)
  show "ref_ok arg u (ref_exec arg u' x)" if "ref_ok arg u x" "ref_ok arg u' x" for u u' x
    using that by (simp add: ref_ok_def ref_exec_def nth_update_if)
  show "sys_frame (fst x) (fst (ref_exec arg u x))" if "ref_ok arg u x" for u x
    using that by (simp add: ref_ok_def ref_exec_def sys_frame_def abtst_load_inc_ended_def)
qed (simp_all add: ref_ops_def ref_ok_def)

interpretation ref_stop: stop_runtime ref_ops rr_view
  by unfold_locales (simp_all add: ref_ops_def)

end
