(* ===== verification/Sched_Claims.thy ===== *)
theory Sched_Claims
  imports Sched_Ref Sample
begin

text \<open>
  The claims on the schedulers, with a small machine on the reference runtime as an example:
  stream \<open>k\<close> of the sample system has pool \<open>k + 1\<close>; units 11 and 12 in pool 1 are the
  sub-schedulers 21 and 22 of the loads \<open>(0, 0)\<close> and \<open>(0, 1)\<close> with the pools 31 and 32. Load
  \<open>(0, 1)\<close> is to move to stream 2. Pool 31 has seventeen threads, one more than a batch.
  Scheduler 41 belongs to stream 1 and has been told to stop.
\<close>

declare split_paired_All [simp del] split_paired_Ex [simp del]

subsection \<open>An example\<close>

definition demo_sys :: sys where
  "demo_sys = sample\<lparr>
     streams := (streams sample)\<lparr>stream_array :=
       [(sample_stream 0 0 2)\<lparr>stream_pool := 1\<rparr>, (sample_stream 1 1 0)\<lparr>stream_pool := 2\<rparr>,
        (sample_stream 2 0 0)\<lparr>stream_pool := 3\<rparr>, (sample_stream 3 1 1)\<lparr>stream_pool := 4\<rparr>]\<rparr>,
     mappings := \<lparr>nr_mappings = 2, mapping_array =
       sample_mapping 0 [sample_load 0 17 0, (sample_load 1 0 0)\<lparr>dest_rank := 2\<rparr>] # replicate 7 (sample_mapping 1 [])\<rparr>\<rparr>"

definition demo_rt :: "abt_handle list \<Rightarrow> ref_rt" where
  "demo_rt us = \<lparr>
     rr_view = \<lparr>
       rv_pools = (\<lambda>_. [])(1 := us, 31 := [101..<118]),
       rv_sched = (\<lambda>u. if u = 11 then 21 else if u = 12 then 22 else 0),
       rv_ptr = (\<lambda>h. h), rv_stop = (\<lambda>h. h = 41)\<rparr>,
     rr_pools_of = (\<lambda>_. []), rr_config = (\<lambda>_. (None, None))\<rparr>"

definition demo :: "abt_handle list \<Rightarrow> ref_rt world" where
  "demo us = \<lparr>w_sys = demo_sys, w_io = replicate 17 (zero_io\<lparr>io_used := True\<rparr>),
     w_base = [41 \<mapsto> \<lparr>bd_event_freq = 3, bd_num_pools = 1, bd_pools = [2], bd_tv_nsec = 100, bd_stream = Some (OwnStream 1)\<rparr>],
     w_sub = [21 \<mapsto> \<lparr>sb_event_freq = 50, sb_num_pools = 1, sb_pools = [31], sb_load = Some (OwnLoad (0, 0))\<rparr>,
       22 \<mapsto> \<lparr>sb_event_freq = 50, sb_num_pools = 1, sb_pools = [32], sb_load = Some (OwnLoad (0, 1))\<rparr>],
     w_rt = demo_rt us\<rparr>"

definition demo_arg :: "abt_handle \<Rightarrow> nat" where
  "demo_arg u = u - 101"

definition demo_load :: "abt_handle \<Rightarrow> lptr" where
  "demo_load u = (0, u - 11)"

lemma demo_sys_fields:
  "stream_array (streams demo_sys) = [(sample_stream 0 0 2)\<lparr>stream_pool := 1\<rparr>, (sample_stream 1 1 0)\<lparr>stream_pool := 2\<rparr>,
        (sample_stream 2 0 0)\<lparr>stream_pool := 3\<rparr>, (sample_stream 3 1 1)\<lparr>stream_pool := 4\<rparr>]"
  "mapping_array (mappings demo_sys) = sample_mapping 0 [sample_load 0 17 0, (sample_load 1 0 0)\<lparr>dest_rank := 2\<rparr>] # replicate 7 (sample_mapping 1 [])"
  "stopping (env demo_sys) = False"
  by (simp_all add: demo_sys_def sample_def)

lemma demo_sys_views:
  "n_streams demo_sys = 4" "k < 4 \<Longrightarrow> stream_pool (stream_at demo_sys k) = Suc k" "k < 4 \<Longrightarrow> \<not> blocking (stream_at demo_sys k)"
  "load_at demo_sys (0, 0) = sample_load 0 17 0" "load_at demo_sys (0, Suc 0) = (sample_load 1 0 0)\<lparr>dest_rank := 2\<rparr>"
  "valid_load demo_sys (0, 0)" "valid_load demo_sys (0, Suc 0)"
  by (auto simp: less_4_cases n_streams_def stream_at_def load_at_def valid_load_def demo_sys_fields sample_stream_def sample_mapping_def)

lemma demo_pools: "stream_pools demo_sys = Suc ` {..<4}"
  unfolding stream_pools_def by (rule image_cong) (simp_all add: demo_sys_views)

lemma demo_fields [simp]:
  "w_sys (demo us) = demo_sys" "rr_view (w_rt (demo us)) = rr_view (demo_rt us)" "length (w_io (demo us)) = 17"
  "rv_pools (rr_view (demo_rt us)) = (\<lambda>_. [])(1 := us, 31 := [101..<118])" "rv_ptr (rr_view (demo_rt us)) = (\<lambda>h. h)"
  "rv_stop (rr_view (demo_rt us)) h \<longleftrightarrow> h = 41"
  by (simp_all add: demo_def demo_rt_def)

lemma demo_ok: "t \<in> set [101..<118] \<Longrightarrow> ref_ok demo_arg t (s, w_io (demo us)) \<longleftrightarrow> valid_load s (0, 0)"
  by (auto simp: ref_ok_def demo_arg_def demo_def zero_io_def)

lemma demo_sub:
  "sub_unit rr_view (ref_ok demo_arg) (demo us) 11 (0, 0)" "sub_unit rr_view (ref_ok demo_arg) (demo us) 12 (0, 1)"
proof -
  have a: "w_sub (demo us) 21 = Some \<lparr>sb_event_freq = 50, sb_num_pools = 1, sb_pools = [31], sb_load = Some (OwnLoad (0, 0))\<rparr>"
    "w_sub (demo us) 22 = Some \<lparr>sb_event_freq = 50, sb_num_pools = 1, sb_pools = [32], sb_load = Some (OwnLoad (0, 1))\<rparr>"
    by (simp_all add: demo_def)
  have s: "rv_sched (rr_view (demo_rt us)) 11 = 21" "rv_sched (rr_view (demo_rt us)) 12 = 22" by (simp_all add: demo_rt_def)
  have "\<forall>t \<in> set [101..<118]. ref_ok demo_arg t (app_of (demo us))"
    using demo_ok [of _ demo_sys us] demo_sys_views(6) by (simp add: app_of_def)
  then show "sub_unit rr_view (ref_ok demo_arg) (demo us) 11 (0, 0)"
    unfolding sub_unit_def using a s demo_sys_views(6) by (auto simp: demo_pools)
  show "sub_unit rr_view (ref_ok demo_arg) (demo us) 12 (0, 1)"
    unfolding sub_unit_def using a s demo_sys_views(7) by (auto simp: demo_pools)
qed

lemma demo_pass: "pass_at rr_view (ref_ok demo_arg) demo_load 0 [11, 12] [] (demo [11, 12])"
proof -
  have "inj_on (\<lambda>j. stream_pool (stream_at demo_sys j)) {..<4}" by (auto simp: inj_on_def demo_sys_views)
  moreover have "dest_rank (load_at demo_sys (0, 0)) = of_nat 0" "dest_rank (load_at demo_sys (0, Suc 0)) = of_nat 2"
    "curr_rank (load_at demo_sys (0, 0)) = of_nat 0" "curr_rank (load_at demo_sys (0, Suc 0)) = of_nat 0"
    by (simp_all add: demo_sys_views sample_load_def)
  moreover have "\<exists>j < 4. word_of_nat j = (0::u32)" "\<exists>j < 4. word_of_nat j = (2::u32)"
    using exI [of _ "0::nat"] exI [of "\<lambda>j. j < 4 \<and> word_of_nat j = (2::u32)" 2] by auto
  ultimately show ?thesis
    unfolding pass_at_def using demo_sub [of "[11, 12]"]
    by (auto simp: demo_sys_views demo_sys_fields demo_load_def)
qed


subsection \<open>Claims\<close>

text \<open>
  C4: one pass of a stream's scheduler over its pool ends and carries out every migration that
  the rebalancer has asked for: the unit of a load with another destination is at the end of the
  destination's pool, in the order of the pool; the units that stay are in the stream's own
  pool; the current rank of every load seen is its destination. The units it runs are runs of
  \<^verbatim>\<open>sub_sched_run\<close>. The runtime's pools are queues and its threads leave streams and ranks alone.
\<close>

theorem sched_pass_migrates:
  assumes R: "app_runtime S v run exec ok" and at: "pass_at v ok L k us [] w" and fuel: "length us < fuel"
    and ps: "ps \<noteq> []" "ps ! 0 = stream_pool (stream_at (w_sys w) k)"
  shows "\<exists>c n w'. sched_inner fuel S (unit_run S run) k ps 0 0 w = Inr (c, n, w') \<and>
    mset (rv_pools (v (w_rt w')) (stream_pool (stream_at (w_sys w) k))) = mset (filter (\<lambda>u. unit_dest L w u = k) us) \<and>
    (\<forall>j < n_streams (w_sys w). j \<noteq> k \<longrightarrow> rv_pools (v (w_rt w')) (stream_pool (stream_at (w_sys w) j)) =
      rv_pools (v (w_rt w)) (stream_pool (stream_at (w_sys w) j)) @ filter (\<lambda>u. unit_dest L w u = j) us) \<and>
    (\<forall>u \<in> set us. curr_rank (load_at (w_sys w') (L u)) = dest_rank (load_at (w_sys w) (L u)))"
  using unit_runtime.sched_inner_pass [OF app_runtime.runs_units [OF R] at fuel ps, of 0] unfolding passed_def by auto

theorem sched_pass_migrates_witness:
  "\<exists>c n w'. sched_inner 3 ref_ops (unit_run ref_ops (ref_thread demo_arg)) 0 [1] 0 0 (demo [11, 12]) = Inr (c, n, w') \<and>
    rv_pools (rr_view (w_rt w')) 1 = [11] \<and> rv_pools (rr_view (w_rt w')) 3 = [12] \<and> curr_rank (load_at (w_sys w') (0, 1)) = 2"
proof -
  let ?w = "demo [11, 12]"
  have pre: "length [11, 12::nat] < 3" "[1] \<noteq> []" "[1] ! 0 = stream_pool (stream_at (w_sys ?w) 0)" by (simp_all add: demo_sys_views)
  from sched_pass_migrates [OF ref.app_runtime_axioms demo_pass pre]
  obtain c n w' where w': "sched_inner 3 ref_ops (unit_run ref_ops (ref_thread demo_arg)) 0 [1] 0 0 ?w = Inr (c, n, w')"
    "mset (rv_pools (rr_view (w_rt w')) (stream_pool (stream_at (w_sys ?w) 0))) = mset (filter (\<lambda>u. unit_dest demo_load ?w u = 0) [11, 12])"
    "\<forall>j < n_streams (w_sys ?w). j \<noteq> 0 \<longrightarrow> rv_pools (rr_view (w_rt w')) (stream_pool (stream_at (w_sys ?w) j)) =
      rv_pools (rr_view (w_rt ?w)) (stream_pool (stream_at (w_sys ?w) j)) @ filter (\<lambda>u. unit_dest demo_load ?w u = j) [11, 12]"
    "\<forall>u \<in> set [11, 12]. curr_rank (load_at (w_sys w') (demo_load u)) = dest_rank (load_at (w_sys ?w) (demo_load u))" by blast
  have "unit_dest demo_load (demo [11, 12]) 11 = 0" "unit_dest demo_load (demo [11, 12]) 12 = 2"
    by (simp_all add: unit_dest_def demo_load_def demo_sys_views sample_load_def)
  then show ?thesis
    using w'(1,2) w'(3) [rule_format, of 2] w'(4) [rule_format, of 12] by (auto simp: demo_sys_views demo_load_def)
qed

text \<open>
  C28: the sub-scheduler of a load with one pool returns after having run the first sixteen
  threads of the pool, or all of them if there are fewer, each once and in their order; the rest
  stays in the pool. The contract asks that a thread does not change the pools: two rounds are
  enough then.
\<close>

theorem sub_sched_runs_batch:
  assumes R: "thread_runtime S v run exec ok" and d: "w_sub w (rv_ptr (v (w_rt w)) h) = Some d" "sb_pools d = [q]" "sb_num_pools d = 1"
    and u: "0 \<notin> set (rv_pools (v (w_rt w)) q)" "\<forall>u \<in> set (rv_pools (v (w_rt w)) q). ok u (app_of w)" and fuel: "2 \<le> fuel"
  shows "\<exists>w'. sub_sched_run fuel S run h w = Inr w' \<and>
    app_of w' = fold exec (take 16 (rv_pools (v (w_rt w)) q)) (app_of w) \<and>
    v (w_rt w') = set_pool q (drop 16 (rv_pools (v (w_rt w)) q)) (v (w_rt w))"
  using thread_runtime.sub_sched_run_batch [OF R d u fuel]
  by (auto simp: thread_runtime.ran_def [OF R] MAX_BATCH_COUNT_def)

theorem sub_sched_runs_batch_witness:
  "\<exists>w'. sub_sched_run 2 ref_ops (ref_thread demo_arg) 21 (demo []) = Inr w' \<and> rv_pools (rr_view (w_rt w')) 31 = [117]"
proof -
  have "\<forall>u \<in> set [101..<118]. ref_ok demo_arg u (app_of (demo []))"
    using demo_ok [of _ demo_sys "[]"] demo_sys_views(6) by (simp add: app_of_def)
  then show ?thesis
    using sub_sched_runs_batch [OF ref.thread_runtime_axioms, of "demo []" 21 _ 31 demo_arg 2]
    by (auto simp: demo_def)
qed

text \<open>
  C29: a stream's scheduler that has been told to stop leaves its loop. When its pool is empty,
  or the stream is blocked, \<^verbatim>\<open>sched_run\<close> returns after at most as many rounds as the event
  frequency (one round, if that is zero).
\<close>

theorem sched_run_returns:
  assumes R: "stop_runtime S v" and d: "w_base w (rv_ptr (v (w_rt w)) h) = Some d" "bd_stream d = Some (OwnStream k)" "bd_pools d \<noteq> []"
    and k: "k < n_streams (w_sys w)" and stop: "rv_stop (v (w_rt w)) h"
    and idle: "blocking (stream_at (w_sys w) k) \<or> rv_pools (v (w_rt w)) (bd_pools d ! 0) = []"
    and fuel: "max 1 (unat (bd_event_freq d)) \<le> fuel"
  shows "\<exists>w'. sched_run fuel S run h w = Inr w'"
  using stop_runtime.sched_run_leaves [OF R d(1,2) _ fuel] d k stop idle by (auto simp: idle_at_def)

theorem sched_run_returns_witness:
  "\<exists>w'. sched_run 3 ref_ops (unit_run ref_ops (ref_thread demo_arg)) 41 (demo [11, 12]) = Inr w'"
  by (rule sched_run_returns [OF ref_stop.stop_runtime_axioms, where k = 1 and
        d = "\<lparr>bd_event_freq = 3, bd_num_pools = 1, bd_pools = [2], bd_tv_nsec = 100, bd_stream = Some (OwnStream 1)\<rparr>"])
    (simp_all add: demo_sys_views, simp add: demo_def)

text \<open>
  The pause of a stream's scheduler stays between 100 ns and 1.6384 ms: after \<open>n\<close> rounds
  without work since the last round with work it is 100 ns doubled \<open>min n 14\<close> times. A round
  without work adds the pause to the stream's sleep time, which wraps at 32 bits.
\<close>

theorem sched_pause_bounds:
  assumes d: "w_base w a = Some d" "bd_tv_nsec d = 100 * 2 ^ min n 14" and k: "k < n_streams (w_sys w)"
  shows "\<exists>w' d'. sched_pause a k c w = Inr w' \<and> w_base w' a = Some d' \<and>
    bd_tv_nsec d' = 100 * 2 ^ min (if c = 0 then Suc n else 0) 14 \<and> 100 \<le> bd_tv_nsec d' \<and> bd_tv_nsec d' \<le> 1638400 \<and>
    sleep_nsec (stat (stream_at (w_sys w') k)) =
      sleep_nsec (stat (stream_at (w_sys w) k)) + (if c = 0 then word_of_int (bd_tv_nsec d') else 0)"
proof -
  have next': "next_pause c (bd_tv_nsec d) = 100 * 2 ^ min (if c = 0 then Suc n else 0) 14"
    unfolding d(2) by (rule next_pause_doubles)
  then have "pause_ok (next_pause c (bd_tv_nsec d))" unfolding pause_ok_def by (metis min.cobounded2)
  from pause_ok_bounds [OF this] sched_pause_eq [OF d(1) k, of c] show ?thesis
    using next' k by (auto simp: abtst_stream_update_sleep_time_def)
qed

theorem sched_pause_bounds_witness:
  "\<exists>w' d'. sched_pause 41 1 0 (demo []) = Inr w' \<and> w_base w' 41 = Some d' \<and> bd_tv_nsec d' = 200"
  using sched_pause_bounds [of "demo []" 41 _ 0 1 0] by (auto simp: demo_def demo_sys_views)

text \<open>
  C30: work is lost at the end. Once the system is stopping, a load's unit is run once more and
  not put back: what one batch of sixteen threads leaves in the load's pool is not run any more,
  although \<^verbatim>\<open>main\<close> means to wait until all work is done.
\<close>

theorem stopping_drops_threads:
  assumes R: "app_runtime S v run exec ok" and k: "k < n_streams (w_sys w)" "\<not> blocking (stream_at (w_sys w) k)" "stopping (env (w_sys w))"
    and ps: "ps \<noteq> []" "ps ! 0 = stream_pool (stream_at (w_sys w) k)"
    and pool: "rv_pools (v (w_rt w)) (stream_pool (stream_at (w_sys w) k)) = [u]" and su: "sub_unit v ok w u l"
    and d: "w_sub w (rv_ptr (v (w_rt w)) (rv_sched (v (w_rt w)) u)) = Some d" "sb_pools d = [q]"
    and stay: "curr_rank (load_at (w_sys w) l) = dest_rank (load_at (w_sys w) l)" and busy: "rv_pools (v (w_rt w)) q \<noteq> []"
    and fuel: "0 < fuel"
  shows "\<exists>w'. sched_inner fuel S (unit_run S run) k ps 0 0 w = Inr (1, 1, w') \<and>
    rv_pools (v (w_rt w')) = (rv_pools (v (w_rt w)))(stream_pool (stream_at (w_sys w) k) := [], q := drop 16 (rv_pools (v (w_rt w)) q))"
proof -
  obtain f where "fuel = Suc f" using fuel gr0_implies_Suc by blast
  then show ?thesis
    using app_runtime.stopping_drop [OF R k ps pool su d stay busy, of f] by (auto simp: MAX_BATCH_COUNT_def)
qed

theorem stopping_drops_threads_witness:
  "\<exists>w'. sched_inner 1 ref_ops (unit_run ref_ops (ref_thread demo_arg)) 0 [1] 0 0
       ((demo [11])\<lparr>w_sys := demo_sys\<lparr>env := (env demo_sys)\<lparr>stopping := True\<rparr>\<rparr>\<rparr>) = Inr (1, 1, w') \<and>
     rv_pools (rr_view (w_rt w')) 1 = [] \<and> rv_pools (rr_view (w_rt w')) 31 = [117]"
proof -
  let ?s = "demo_sys\<lparr>env := (env demo_sys)\<lparr>stopping := True\<rparr>\<rparr>"
  let ?w = "(demo [11])\<lparr>w_sys := ?s\<rparr>"
  have s: "n_streams ?s = 4" "stream_at ?s = stream_at demo_sys" "load_at ?s = load_at demo_sys" "valid_load ?s = valid_load demo_sys"
    "stream_pools ?s = stream_pools demo_sys"
    using demo_sys_views(1)
    by (simp_all add: n_streams_def stream_at_def load_at_def valid_load_def stream_pools_def fun_eq_iff)
  have "sub_unit rr_view (ref_ok demo_arg) ?w 11 (0, 0)"
    using demo_sub(1) [of "[11]"] by (simp add: sub_unit_def s app_of_def ref_ok_def)
  moreover have "w_sub ?w 21 = Some \<lparr>sb_event_freq = 50, sb_num_pools = 1, sb_pools = [31], sb_load = Some (OwnLoad (0, 0))\<rparr>"
    "rv_sched (rr_view (demo_rt [11])) 11 = 21" by (simp_all add: demo_def demo_rt_def)
  ultimately show ?thesis
    using stopping_drops_threads [OF ref.app_runtime_axioms, of 0 ?w "[1]" 11 demo_arg "(0, 0)"
        "\<lparr>sb_event_freq = 50, sb_num_pools = 1, sb_pools = [31], sb_load = Some (OwnLoad (0, 0))\<rparr>" 31 1]
    by (auto simp: s demo_sys_views sample_load_def)
qed

end
