(* ===== verification/Drivers.thy ===== *)
theory Drivers
  imports App Display
begin

text \<open>
  The test programs \<^verbatim>\<open>src/test/rebalance_test*.c\<close>. Each sets the system up, blocks the
  streams so that I/Os pile up, issues \<open>IOS_PER_LOAD\<close> I/Os for each load of the first stream,
  lets the rebalancer work for some seconds, and unblocks the streams again.
  \<^verbatim>\<open>rebalance_test.c\<close> and \<^verbatim>\<open>rebalance_test_l2.c\<close> are the same program. What the other
  threads do during a second of sleep is a parameter, as in \<open>App\<close>.
\<close>

declare split_paired_All [simp del] split_paired_Ex [simp del]

definition IOS_PER_LOAD :: nat where "IOS_PER_LOAD = 128"

definition TOTAL_LOADS :: nat where "TOTAL_LOADS = 16"

subsection \<open>Parts\<close>

definition cparams :: create_params where
  "cparams = \<lparr>cp_nr_partitions = 1, cp_init_partitions =
     [\<lparr>partition_id = 0, part_nr_cores = 16, partition_cores = [2, 3, 4, 5, 6, 7, 8, 9, 34, 35, 36, 37, 38, 39, 40, 41]\<rparr>]\<rparr>"

text \<open>
  The set-up: \<open>second\<close> tells whether the program creates the random mapping, too. The result has
  the mapping created last, or \<open>None\<close> for a jump to the exit.
\<close>

definition test_setup ::
    "'r argobots \<Rightarrow> machine \<Rightarrow> int \<Rightarrow> create_params option \<Rightarrow> bool \<Rightarrow> sys \<Rightarrow> 'r \<Rightarrow> (nat option \<times> sys \<times> 'r) res" where
  "test_setup A M thr cp second s r =
     rbind (abtst_init A M thr cp s r) (\<lambda>(ret, s, r).
     if ret \<noteq> 0 then Inr (None, s, r)
     else
       rbind (abtst_create_mapping A s r 0 (Some (set_hash_info zero_hash HASH_TABLE_BUCKETS HASH_BLOCK_SIZE abtst_hash_func)) 0) (\<lambda>(ret, s, r).
       if ret < 0 then Inr (None, s, r)
       else
         rbind (if second then abtst_create_mapping A s r 1 None 1 else Inr (ret, s, r)) (\<lambda>(ret, s, r).
         if ret < 0 \<or> st_init \<noteq> 0 then Inr (None, s, r) else Inr (Some (nat ret), s, r))))"

text \<open>The loop that blocks or unblocks all streams in use; \<open>first\<close> is the first of them, or -1.\<close>

definition block_streams :: "bool \<Rightarrow> sys \<Rightarrow> (int \<times> sys) res" where
  "block_streams b s =
     for_each (\<lambda>i (first, s).
       rbind (get_stream s i) (\<lambda>st.
       if \<not> used st then Inr (first, s)
       else rbind (upd_stream s i (abtst_stream_set_blocking b)) (\<lambda>s. Inr (if first < 0 then int i else first, s))))
     [0..<unat (nr_cores (env s))] (-1, s)"

text \<open>One I/O for load \<open>l\<close>, in block \<open>j\<close> of an array that ends at \<open>mx\<close>.\<close>

definition test_io :: "'r thread_create \<Rightarrow> nat \<Rightarrow> lptr \<Rightarrow> nat \<times> u64 \<times> 'r world \<Rightarrow> (int \<times> nat \<times> u64 \<times> 'r world) res" where
  "test_io C mx l x = (case x of (j, lb, w) \<Rightarrow>
     if mx \<le> j then Inl OutOfBounds
     else rbind (idx (w_io w) j) (\<lambda>p.
       rbind (get_load (w_sys w) l) (\<lambda>ld.
       case C (load_pool ld) j (w_rt w) of (ret, r) \<Rightarrow>
       let w = w\<lparr>w_io := (w_io w)[j := p\<lparr>io_used := True, io_key := \<lparr>lba = lb, volumeId = 1\<rparr>, io_load := l\<rparr>], w_rt := r\<rparr> in
       if ret \<noteq> 0 then Inr (ret, j, lb, w)
       else rbind (issue_count l w) (\<lambda>w. Inr (0, j + 1, lb + ucast HASH_BLOCK_SIZE, w)))))"

fun test_load :: "'r thread_create \<Rightarrow> nat \<Rightarrow> lptr \<Rightarrow> nat \<Rightarrow> nat \<times> u64 \<times> 'r world \<Rightarrow> (int \<times> nat \<times> u64 \<times> 'r world) res" where
  "test_load C mx l 0 x = Inr (0, x)"
| "test_load C mx l (Suc n) x =
     rbind (test_io C mx l x) (\<lambda>(ret, x). if ret \<noteq> 0 then Inr (ret, x) else test_load C mx l n x)"

fun test_queue :: "'r thread_create \<Rightarrow> nat \<Rightarrow> node list \<Rightarrow> nat \<times> u64 \<times> 'r world \<Rightarrow> (int \<times> nat \<times> u64 \<times> 'r world) res" where
  "test_queue C mx [] x = Inr (0, x)"
| "test_queue C mx (pos # ps) x =
     rbind (list_entry_load pos) (\<lambda>l.
     rbind (test_load C mx l IOS_PER_LOAD x) (\<lambda>(ret, x).
     if ret \<noteq> 0 then Inr (ret, x) else if fst x \<ge> mx then Inr (0, x) else test_queue C mx ps x))"

definition test_first :: "'r thread_create \<Rightarrow> nat \<Rightarrow> int \<Rightarrow> 'r world \<Rightarrow> (int \<times> nat \<times> u64 \<times> 'r world) res" where
  "test_first C mx first w =
     rbind (idx_int (stream_array (streams (w_sys w))) first) (\<lambda>_.
     rbind (list_for_each (links (w_sys w)) (LoadQ (nat first))) (\<lambda>ps. test_queue C mx ps (0, 0, w)))"

text \<open>
  The 2048 I/Os of the second mapping. Its blocks are an array of their own, here the positions
  from \<open>mx\<close> on. \<open>rnd i\<close> is the value of \<^verbatim>\<open>rand\<close> for I/O \<open>i\<close>.
\<close>

fun test_random :: "'r thread_create \<Rightarrow> (nat \<Rightarrow> u32) \<Rightarrow> nat \<Rightarrow> nat \<Rightarrow> nat list \<Rightarrow> nat \<times> u64 \<times> 'r world \<Rightarrow> (int \<times> nat \<times> u64 \<times> 'r world) res" where
  "test_random C rnd mid mx [] x = Inr (0, x)"
| "test_random C rnd mid mx (i # is) x =
     rbind (map_key_to_load (rnd i) (w_sys (snd (snd x))) (int mid) \<lparr>lba = fst (snd x), volumeId = 1\<rparr>) (\<lambda>l.
     rbind (test_io C mx (mid, unat l) x) (\<lambda>(ret, x).
     if ret \<noteq> 0 then Inr (ret, x) else test_random C rnd mid mx is x))"

text \<open>Seconds of sleep, with the list of streams after each.\<close>

definition test_wait :: "(nat \<Rightarrow> 'r world \<Rightarrow> 'r world res) \<Rightarrow> nat list \<Rightarrow> 'r world \<Rightarrow> 'r world res" where
  "test_wait others is w =
     for_each (\<lambda>i w. rbind (others i w) (\<lambda>w. rbind (print_streams (w_sys w)) (\<lambda>_. Inr w))) is w"

text \<open>The end of a test: the streams are unblocked, and the threads have two more seconds.\<close>

definition test_unblock :: "(nat \<Rightarrow> 'r world \<Rightarrow> 'r world res) \<Rightarrow> nat \<Rightarrow> 'r world \<Rightarrow> 'r world res" where
  "test_unblock others n w = rbind (block_streams False (w_sys w)) (\<lambda>(_, s). others n (w\<lparr>w_sys := s\<rparr>))"

subsection \<open>The tests\<close>

definition reb_test_l1 :: "'r thread_create \<Rightarrow> (nat \<Rightarrow> 'r world \<Rightarrow> 'r world res) \<Rightarrow> 'r world \<Rightarrow> 'r world res" where
  "reb_test_l1 C others w =
     rbind (block_streams True (w_sys w)) (\<lambda>(first, s).
     rbind (test_first C (IOS_PER_LOAD * 8) first (w\<lparr>w_sys := s\<rparr>)) (\<lambda>(ret, j, lb, w).
     if ret \<noteq> 0 then Inr w
     else
       rbind (print_streams (w_sys w)) (\<lambda>_.
       rbind (test_wait others [0..<10] w) (\<lambda>w.
       test_unblock others 10 w))))"

definition reb_test_l2 ::
    "'r thread_create \<Rightarrow> (nat \<Rightarrow> u32) \<Rightarrow> nat \<Rightarrow> (nat \<Rightarrow> 'r world \<Rightarrow> 'r world res) \<Rightarrow> 'r world \<Rightarrow> 'r world res" where
  "reb_test_l2 C rnd mid others w =
     (let mx = IOS_PER_LOAD * TOTAL_LOADS in
      rbind (block_streams True (w_sys w)) (\<lambda>(first, s).
      rbind (test_first C mx first (w\<lparr>w_sys := s\<rparr>)) (\<lambda>(ret, j, lb, w).
      if ret \<noteq> 0 then Inr w
      else
        rbind (test_wait others [0..<2] w) (\<lambda>w.
        let w = w\<lparr>w_sys := abtst_set_rebalance_verbose (abtst_set_rebalance_level (w_sys w) 2) 2\<rparr> in
        rbind (test_wait others [2..<12] w) (\<lambda>w.
        rbind (test_random C rnd mid (mx + 2048) [0..<2048] (mx, lb, w)) (\<lambda>(ret, j, lb, w).
        if ret \<noteq> 0 then Inr w
        else
          rbind (test_wait others [12..<22] w) (\<lambda>w.
          test_unblock others 22 w)))))))"

text \<open>The common part of the last two: level 2, then level 3.\<close>

definition test_levels :: "'r thread_create \<Rightarrow> (nat \<Rightarrow> 'r world \<Rightarrow> 'r world res) \<Rightarrow> 'r world \<Rightarrow> (int \<times> 'r world) res" where
  "test_levels C others w =
     rbind (block_streams True (w_sys w)) (\<lambda>(first, s).
     rbind (test_first C (IOS_PER_LOAD * TOTAL_LOADS) first (w\<lparr>w_sys := abtst_set_rebalance_level s 2\<rparr>)) (\<lambda>(ret, j, lb, w).
     if ret \<noteq> 0 then Inr (ret, w)
     else
       rbind (print_streams (w_sys w)) (\<lambda>_.
       rbind (test_wait others [0..<2] w) (\<lambda>w.
       rbind (test_wait others [2..<4] (w\<lparr>w_sys := abtst_set_rebalance_level (w_sys w) 3\<rparr>)) (\<lambda>w.
       Inr (0, w))))))"

definition reb_test_l3 :: "'r thread_create \<Rightarrow> (nat \<Rightarrow> 'r world \<Rightarrow> 'r world res) \<Rightarrow> 'r world \<Rightarrow> 'r world res" where
  "reb_test_l3 C others w =
     rbind (test_levels C others w) (\<lambda>(ret, w). if ret \<noteq> 0 then Inr w else test_unblock others 4 w)"

definition reb_test_ps :: "'r thread_create \<Rightarrow> (nat \<Rightarrow> 'r world \<Rightarrow> 'r world res) \<Rightarrow> 'r world \<Rightarrow> 'r world res" where
  "reb_test_ps C others w =
     rbind (test_levels C others w) (\<lambda>(ret, w).
     if ret \<noteq> 0 then Inr w
     else
       rbind (test_wait others [4..<8] (w\<lparr>w_sys := abtst_set_power_saving_enabled (w_sys w) True\<rparr>)) (\<lambda>w.
       test_unblock others 8 w))"

text \<open>
  The frame that the programs share: \<open>callocs\<close> arrays of blocks with \<open>n\<close> blocks in all, the
  set-up, the body, the exit.
\<close>

fun test_callocs :: "nat \<Rightarrow> sys \<Rightarrow> bool \<times> sys" where
  "test_callocs 0 s = (True, s)"
| "test_callocs (Suc n) s = (case alloc s of (ok, s) \<Rightarrow> if ok then test_callocs n s else (False, s))"

definition test_main ::
    "'r argobots \<Rightarrow> machine \<Rightarrow> int \<Rightarrow> create_params option \<Rightarrow> bool \<Rightarrow> nat \<Rightarrow> nat \<Rightarrow> (nat \<Rightarrow> 'r world \<Rightarrow> 'r world res) \<Rightarrow> int
     \<Rightarrow> (nat \<rightharpoonup> base_data) \<times> (nat \<rightharpoonup> sub_data) \<Rightarrow> sys \<Rightarrow> 'r \<Rightarrow> (int \<times> sys \<times> 'r) res" where
  "test_main A M thr cp second callocs n body abt_ret stores s r =
     (case test_callocs callocs s of (ok, s) \<Rightarrow>
      if \<not> ok then Inr (-1, s, r)
      else if abt_ret \<noteq> 0 then Inr (abt_ret, s, r)
      else
        rbind (test_setup A M thr cp second s r) (\<lambda>(mid, s, r).
        rbind (case mid of None \<Rightarrow> Inr (s, r)
          | Some m \<Rightarrow>
              rbind (body m \<lparr>w_sys = s, w_io = replicate n zero_io, w_base = fst stores, w_sub = snd stores, w_rt = r\<rparr>) (\<lambda>w.
              Inr (w_sys w, w_rt w))) (\<lambda>(s, r).
        rbind (main_exit A s r) (\<lambda>(s, r). Inr (0, s, r)))))"

text \<open>The programs.\<close>

definition rebalance_test_l1 ::
    "'r argobots \<Rightarrow> machine \<Rightarrow> int \<Rightarrow> 'r thread_create \<Rightarrow> (nat \<Rightarrow> 'r world \<Rightarrow> 'r world res) \<Rightarrow> int
     \<Rightarrow> (nat \<rightharpoonup> base_data) \<times> (nat \<rightharpoonup> sub_data) \<Rightarrow> sys \<Rightarrow> 'r \<Rightarrow> (int \<times> sys \<times> 'r) res" where
  "rebalance_test_l1 A M thr C others = test_main A M thr None False 1 (IOS_PER_LOAD * 8) (\<lambda>_. reb_test_l1 C others)"

definition rebalance_test_l2 ::
    "'r argobots \<Rightarrow> machine \<Rightarrow> int \<Rightarrow> 'r thread_create \<Rightarrow> (nat \<Rightarrow> u32) \<Rightarrow> (nat \<Rightarrow> 'r world \<Rightarrow> 'r world res) \<Rightarrow> int
     \<Rightarrow> (nat \<rightharpoonup> base_data) \<times> (nat \<rightharpoonup> sub_data) \<Rightarrow> sys \<Rightarrow> 'r \<Rightarrow> (int \<times> sys \<times> 'r) res" where
  "rebalance_test_l2 A M thr C rnd others =
     test_main A M thr None True 2 (IOS_PER_LOAD * TOTAL_LOADS + 2048) (\<lambda>mid. reb_test_l2 C rnd mid others)"

definition rebalance_test ::
    "'r argobots \<Rightarrow> machine \<Rightarrow> int \<Rightarrow> 'r thread_create \<Rightarrow> (nat \<Rightarrow> u32) \<Rightarrow> (nat \<Rightarrow> 'r world \<Rightarrow> 'r world res) \<Rightarrow> int
     \<Rightarrow> (nat \<rightharpoonup> base_data) \<times> (nat \<rightharpoonup> sub_data) \<Rightarrow> sys \<Rightarrow> 'r \<Rightarrow> (int \<times> sys \<times> 'r) res" where
  "rebalance_test = rebalance_test_l2"

definition rebalance_test_l3 ::
    "'r argobots \<Rightarrow> machine \<Rightarrow> int \<Rightarrow> 'r thread_create \<Rightarrow> (nat \<Rightarrow> 'r world \<Rightarrow> 'r world res) \<Rightarrow> int
     \<Rightarrow> (nat \<rightharpoonup> base_data) \<times> (nat \<rightharpoonup> sub_data) \<Rightarrow> sys \<Rightarrow> 'r \<Rightarrow> (int \<times> sys \<times> 'r) res" where
  "rebalance_test_l3 A M thr C others =
     test_main A M thr (Some cparams) False 1 (IOS_PER_LOAD * TOTAL_LOADS) (\<lambda>_. reb_test_l3 C others)"

definition rebalance_test_ps ::
    "'r argobots \<Rightarrow> machine \<Rightarrow> int \<Rightarrow> 'r thread_create \<Rightarrow> (nat \<Rightarrow> 'r world \<Rightarrow> 'r world res) \<Rightarrow> int
     \<Rightarrow> (nat \<rightharpoonup> base_data) \<times> (nat \<rightharpoonup> sub_data) \<Rightarrow> sys \<Rightarrow> 'r \<Rightarrow> (int \<times> sys \<times> 'r) res" where
  "rebalance_test_ps A M thr C others =
     test_main A M thr (Some cparams) False 1 (IOS_PER_LOAD * TOTAL_LOADS) (\<lambda>_. reb_test_ps C others)"

subsection \<open>Lemmas\<close>

text \<open>Blocking touches nothing but the flags of the streams in use, and finds the first of them.\<close>

definition blocked :: "bool \<Rightarrow> sys \<Rightarrow> nat list \<Rightarrow> int \<times> sys \<Rightarrow> bool" where
  "blocked b s ks x \<longleftrightarrow> n_streams (snd x) = n_streams s \<and> mappings (snd x) = mappings s \<and> links (snd x) = links s \<and>
     (\<forall>k < n_streams s. stream_at (snd x) k = (if k \<in> set ks \<and> used (stream_at s k) then (stream_at s k)\<lparr>blocking := b\<rparr> else stream_at s k)) \<and>
     fst x = (case filter (\<lambda>k. used (stream_at s k)) ks of [] \<Rightarrow> -1 | k # _ \<Rightarrow> int k)"

lemma block_streams_ok:
  assumes "unat (nr_cores (env s)) = n_streams s"
  shows "\<exists>x. block_streams b s = Inr x \<and> blocked b s [0..<n_streams s] x"
proof -
  have "sat {} (block_streams b s) (blocked b s [0..<n_streams s])"
    unfolding block_streams_def assms
  proof (rule for_each_sat_prefix)
    show "blocked b s [] (-1, s)" by (simp add: blocked_def)
    fix ks i zs x assume split: "[0..<n_streams s] = ks @ i # zs" and x: "blocked b s ks x"
    obtain first t where xt: "x = (first, t)" by (cases x)
    have i: "i < n_streams s" "i \<notin> set ks" using upt_splitD [OF split] by auto
    then have ti: "stream_at t i = stream_at s i" "n_streams t = n_streams s" using x by (auto simp: blocked_def xt)
    have t': "stream_at t k = (if k \<in> set ks \<and> used (stream_at s k) then (stream_at s k)\<lparr>blocking := b\<rparr> else stream_at s k)" if "k < n_streams s" for k
      using x that by (simp add: blocked_def xt)
    show "sat {} (case x of (first, s) \<Rightarrow> rbind (get_stream s i) (\<lambda>st. if \<not> used st then Inr (first, s)
        else rbind (upd_stream s i (abtst_stream_set_blocking b)) (\<lambda>s. Inr (if first < 0 then int i else first, s)))) (blocked b s (ks @ [i]))"
      using x i ti t' by (auto simp: xt blocked_def abtst_stream_set_blocking_def split: list.splits)
  qed
  then show ?thesis by (auto simp: sat_total)
qed

text \<open>The I/Os issued between two worlds: \<open>f l\<close> for load \<open>l\<close>.\<close>

definition issued :: "(lptr \<Rightarrow> nat) \<Rightarrow> 'r world \<Rightarrow> 'r world \<Rightarrow> bool" where
  "issued f w w' \<longleftrightarrow> length (w_io w') = length (w_io w) \<and> valid_load (w_sys w') = valid_load (w_sys w) \<and>
     (\<forall>l. valid_load (w_sys w) l \<longrightarrow> pkt_started (load_at (w_sys w') l) = pkt_started (load_at (w_sys w) l) + of_nat (f l) \<and>
        pkt_ended (load_at (w_sys w') l) = pkt_ended (load_at (w_sys w) l))"

lemma issued_trans: "issued f w w' \<Longrightarrow> issued g w' w'' \<Longrightarrow> issued (\<lambda>l. f l + g l) w w''"
  by (simp add: issued_def add.assoc)

lemma test_load_ok:
  assumes "\<And>p i r. fst (C p i r) = 0" and "valid_load (w_sys w) l" and "j + n \<le> mx" and "mx \<le> length (w_io w)"
  shows "\<exists>lb' w'. test_load C mx l n (j, lb, w) = Inr (0, j + n, lb', w') \<and> issued (\<lambda>l'. if l' = l then n else 0) w w'"
  using assms(2-4)
proof (induction n arbitrary: j lb w)
  case 0
  show ?case by (simp add: issued_def)
next
  case (Suc n)
  let ?r = "snd (C (load_pool (load_at (w_sys w) l)) j (w_rt w))"
  define w1 where "w1 = w\<lparr>w_io := (w_io w)[j := (w_io w ! j)\<lparr>io_used := True, io_key := \<lparr>lba = lb, volumeId = 1\<rparr>, io_load := l\<rparr>],
    w_rt := ?r, w_sys := set_load (w_sys w) l abtst_load_inc_started\<rparr>"
  have "test_io C mx l (j, lb, w) = Inr (0, Suc j, lb + ucast HASH_BLOCK_SIZE, w1)"
    using Suc.prems assms(1) [of "load_pool (load_at (w_sys w) l)" j "w_rt w"]
    by (auto simp: test_io_def issue_count_def w1_def Let_def split: prod.splits)
  moreover have one: "issued (\<lambda>l'. if l' = l then 1 else 0) w w1"
    using Suc.prems(1) by (simp add: issued_def w1_def abtst_load_inc_started_def)
  moreover have "valid_load (w_sys w1) l" "mx \<le> length (w_io w1)" using one Suc.prems by (simp_all add: issued_def)
  from Suc.IH [OF this(1) _ this(2), of "Suc j" "lb + ucast HASH_BLOCK_SIZE"] Suc.prems(2)
  obtain lb' w' where "test_load C mx l n (Suc j, lb + ucast HASH_BLOCK_SIZE, w1) = Inr (0, Suc j + n, lb', w')"
    "issued (\<lambda>l'. if l' = l then n else 0) w1 w'" by auto
  moreover have "(\<lambda>l'. (if l' = l then 1 else 0) + (if l' = l then n else 0)) = (\<lambda>l'. if l' = l then Suc n else 0)" by auto
  ultimately show ?case using issued_trans [OF one] by fastforce
qed

text \<open>
  The tests fill their blocks without leaving the array: the first \<open>m\<close> loads of the queue get
  \<open>IOS_PER_LOAD\<close> I/Os each, when the array has room for \<open>m\<close> loads.
\<close>

theorem test_queue_fills:
  assumes C: "\<And>p i r. fst (C p i r) = 0" and "\<forall>l \<in> set ls. valid_load (w_sys w) l" and "distinct ls"
    and "c < m" and "IOS_PER_LOAD * m \<le> length (w_io w)"
  shows "\<exists>lb' w'. test_queue C (IOS_PER_LOAD * m) (map LoadNode ls) (IOS_PER_LOAD * c, lb, w) =
      Inr (0, IOS_PER_LOAD * min m (c + length ls), lb', w') \<and>
    issued (\<lambda>l. if l \<in> set (take (m - c) ls) then IOS_PER_LOAD else 0) w w'"
  using assms(2-5)
proof (induction ls arbitrary: c lb w)
  case Nil
  then show ?case by (simp add: issued_def)
next
  case (Cons l ls)
  have room: "IOS_PER_LOAD * c + IOS_PER_LOAD \<le> IOS_PER_LOAD * m" using Cons.prems(3) by (simp add: IOS_PER_LOAD_def)
  obtain lb1 w1 where w1: "test_load C (IOS_PER_LOAD * m) l IOS_PER_LOAD (IOS_PER_LOAD * c, lb, w) = Inr (0, IOS_PER_LOAD * Suc c, lb1, w1)"
    "issued (\<lambda>l'. if l' = l then IOS_PER_LOAD else 0) w w1"
    using test_load_ok [of C w l "IOS_PER_LOAD * c" IOS_PER_LOAD "IOS_PER_LOAD * m" lb] C Cons.prems room by (auto simp: add.commute)
  show ?case
  proof (cases "Suc c = m")
    case True
    then have "take (m - c) (l # ls) = [l]" by auto
    then show ?thesis using w1 True by (simp add: list_entry_load_def)
  next
    case False
    then have c: "Suc c < m" using Cons.prems(3) by simp
    have "\<forall>l \<in> set ls. valid_load (w_sys w1) l" "distinct ls" "IOS_PER_LOAD * m \<le> length (w_io w1)"
      using Cons.prems w1(2) by (simp_all add: issued_def)
    from Cons.IH [OF this(1,2) c this(3), of lb1] obtain lb' w' where w':
      "test_queue C (IOS_PER_LOAD * m) (map LoadNode ls) (IOS_PER_LOAD * Suc c, lb1, w1) = Inr (0, IOS_PER_LOAD * min m (Suc c + length ls), lb', w')"
      "issued (\<lambda>l. if l \<in> set (take (m - Suc c) ls) then IOS_PER_LOAD else 0) w1 w'" by blast
    have "m - c = Suc (m - Suc c)" "l \<notin> set (take (m - Suc c) ls)" using c Cons.prems(2) by (auto dest: in_set_takeD)
    then have "(\<lambda>l'. (if l' = l then IOS_PER_LOAD else 0) + (if l' \<in> set (take (m - Suc c) ls) then IOS_PER_LOAD else 0)) =
        (\<lambda>l'. if l' \<in> set (take (m - c) (l # ls)) then IOS_PER_LOAD else 0)" by (auto simp: fun_eq_iff)
    with issued_trans [OF w1(2) w'(2)] have "issued (\<lambda>l'. if l' \<in> set (take (m - c) (l # ls)) then IOS_PER_LOAD else 0) w w'" by simp
    moreover have "\<not> IOS_PER_LOAD * m \<le> IOS_PER_LOAD * Suc c" using c by (simp add: IOS_PER_LOAD_def)
    ultimately show ?thesis using w1(1) w'(1) by (simp add: list_entry_load_def)
  qed
qed

end
