(* ===== verification/Spec2Isabelle.thy ===== *)
theory Spec2Isabelle
  imports Sample Req_Claims App_Claims Sched_Claims Drivers
begin

text \<open>
  \<^bold>\<open>A verification development for abtst\<close>, a storage stack on top of Argobots that
  spreads loads over execution streams, one per core, and moves them between streams while it
  runs. File names below are relative to \<^verbatim>\<open>src/\<close>.

  \<^bold>\<open>The program.\<close> The machine has NUMA nodes (\<^verbatim>\<open>src/arch/env.c\<close>), each a range of cores;
  every core has a stream (\<^verbatim>\<open>src/stream/stream.c\<close>). The streams in use belong to partitions
  (\<^verbatim>\<open>src/partition/partition.c\<close>). A mapping (\<^verbatim>\<open>src/mapping/\<close>) takes keys to its loads
  (\<^verbatim>\<open>src/load/load.c\<close>); a load is queued at a stream of the mapping's partition and has a pool and
  a sub-scheduler of its own. The application (\<^verbatim>\<open>src/app/main.c\<close>, \<^verbatim>\<open>st.c\<close>) creates a thread in
  the pool of a load for every I/O. The scheduler of a stream (\<^verbatim>\<open>src/sched/base.c\<close>) runs the
  sub-schedulers (\<^verbatim>\<open>sub.c\<close>) of the loads in its pool and carries out migrations. The rebalancer
  (\<^verbatim>\<open>src/rebalance/rebalance.c\<close>) is a thread that measures the queue depths every second, changes
  the destination of loads on three levels and sends nodes to sleep and wakes them
  (\<^verbatim>\<open>src/power/power.c\<close>). Requests to add or remove a core are queued
  (\<^verbatim>\<open>src/rebalance/reb_req.c\<close>) under a spin lock (\<^verbatim>\<open>include/spinlock.h\<close>).

  \<^bold>\<open>State and effects.\<close> \<open>sys\<close> (\<open>Abtst_State\<close>) is the memory of the program: the globals
  \<^verbatim>\<open>env\<close> and \<^verbatim>\<open>power\<close>, the fields of \<^verbatim>\<open>abtst_global\<close>, a store of list heads and the
  outcomes of the allocations still to come. An operation takes it and returns
  \<open>fault + result\<close>: an access through an invalid or null pointer, out of the bounds of an array or
  to a cell that was not written, and a division by zero are faults, a return code of the program
  is a result.
  \<open>world\<close> (\<open>Sched\<close>) adds what the schedulers and the application keep and the state \<open>'r\<close> of
  Argobots. Counters, depths and ranks are words of their C width and wrap. So do the sums and
  products that the code computes as \<^verbatim>\<open>int\<close> (the depth of a stream in \<^verbatim>\<open>get_stream_ios\<close>, the product
  of the interval in \<^verbatim>\<open>print_stream_sleeptime\<close>): signed overflow is wrap-around here, not a fault.

  \<^bold>\<open>Theories and sources.\<close>
  \<^item> \<open>Prelude\<close>: computations with faults, the rules of \<open>sat\<close>, loops, words.
  \<^item> \<open>List_Head\<close>: \<^verbatim>\<open>include/list.h\<close>; \<open>dlist\<close> says that a store holds a circular list, the
    lemmas give the list after each operation.
  \<^item> \<open>Streams\<close>, \<open>Stream_Inv\<close>: \<^verbatim>\<open>stream.c\<close> and \<^verbatim>\<open>load.h\<close>, moves of loads and queue depths;
    \<open>wf_queues\<close> is the invariant of the queues. \<open>Stream_Choice\<close>: which loads
    \<^verbatim>\<open>abtst_rebalance_streams\<close> moves, by comparison with a choice without loop variables.
  \<^item> \<open>Env\<close>, \<open>Partition\<close>, \<open>Power_Saving\<close>: topology, statistics and sleep states.
  \<^item> \<open>Display\<close>: the text that the program prints and the faults on the way, which a verbose pass of
    the rebalancer runs into.
  \<^item> \<open>Rebalance\<close>: all levels of \<^verbatim>\<open>rebalance.c\<close> and the loop of the thread. \<open>Qsort\<close>: the contract of
    \<^verbatim>\<open>qsort\<close> as a locale, met by an insertion sort. \<open>Reb_Sort\<close>, \<open>Reb_Inv\<close>, \<open>Reb_Levels\<close>,
    \<open>Reb_Nodes\<close>, \<open>Reb_Power\<close>, \<open>Reb_Pass\<close>: that each level keeps \<open>reb_inv\<close> and loses no load.
  \<^item> \<open>Argobots\<close>, \<open>Loads\<close>, \<open>Hash_Mapping\<close>, \<open>Init\<close>: creation of schedulers (\<^verbatim>\<open>sched.c\<close>), streams,
    loads and mappings, \<^verbatim>\<open>abtst_init\<close> and \<^verbatim>\<open>abtst_finalize\<close>; \<open>Setup_Env\<close>, \<open>Setup\<close>: that they
    establish the invariant.
  \<^item> \<open>Spinlock\<close>, \<open>Reb_Req\<close>, \<open>Reb_Req_Inv\<close>, \<open>Req_Claims\<close>: the lock as a step relation of
    interleaving threads, the request queue with calls of other threads while it is processed,
    and its handlers.
  \<^item> \<open>Sched\<close>: \<^verbatim>\<open>base.c\<close> and \<^verbatim>\<open>sub.c\<close>. \<open>Sched_Inv\<close>, \<open>Sched_Round\<close>, \<open>Sched_Stop\<close> hold the interfaces
    to Argobots as locales (\<open>pool_runtime\<close>, \<open>thread_runtime\<close>, \<open>unit_runtime\<close>, \<open>stop_runtime\<close>) and the
    lemmas on a batch, on a pass and on leaving the loop. \<open>Sched_Ref\<close> composes both schedulers
    (\<open>app_runtime\<close> is a sublocale of \<open>unit_runtime\<close>) and interprets the locales on a runtime with
    queues whose threads are \<^verbatim>\<open>st_thread_func\<close>; \<open>Sched_Claims\<close> has the properties.
  \<^item> \<open>App\<close>: \<^verbatim>\<open>main.c\<close> and \<^verbatim>\<open>st.c\<close>. \<open>App_Inv\<close>: the step relation of the issuing thread, whose calls
    of \<^verbatim>\<open>ABT_thread_create\<close> may fail, and the threads of the I/Os with its invariant; \<open>App_Claims\<close>: counters, queue depths, the race.
  \<^item> \<open>Drivers\<close>: the test programs of \<^verbatim>\<open>src/test/\<close>.
  \<^item> \<open>Sample\<close>: a small legal machine on which the properties are instantiated.

  \<^bold>\<open>What is shown.\<close> Each level of the rebalancer, and a whole pass, keeps the invariant, faults at
  most by an unchecked \<^verbatim>\<open>malloc\<close>, and loses or duplicates no load; its thread ends when told
  to. The set-up establishes the invariant. A scheduler pass moves the units of the loads to where
  the rebalancer wants them. The depth that the rebalancer measures is the number of I/Os in
  flight, as long as a block is not taken again too early, and a run is given in which it is.
  Requests are handled in order, the lock excludes, keys reach loads of their mapping.

  \<^bold>\<open>Bounds.\<close> A list traversal has a budget of \<open>list_bound\<close> = \<open>2 ^ 32\<close> steps, more than there are
  loads; the loops of the schedulers, of the rebalancer and of the request queue have a budget,
  too. Running out of it is the fault \<open>Diverge\<close>; the properties prove that it does not happen, for
  every budget from a bound on that the property gives (one more than the units in the pool, two
  rounds of a sub-scheduler, the event frequency, the number of passes until the stop).
  A budget is needed because a thread may create threads, and the loops of the program run
  until the outside tells them to stop.

  \<^bold>\<open>Parameters.\<close> Argobots (records of operations with the laws the properties use as hypotheses),
  \<^verbatim>\<open>qsort\<close>, \<^verbatim>\<open>rand\<close>, the files of the system under \<^verbatim>\<open>/sys\<close>, the result of \<^verbatim>\<open>pthread_create\<close>, the clock
  and what other threads do while a thread sleeps.

  \<^bold>\<open>Not modelled.\<close> Argobots itself and the contents of freed memory; error messages. Of
  \<^verbatim>\<open>abtst_free_rebalance\<close>, which only joins the thread, nothing is left. A pass of the
  rebalancer, a request handler and a round of a scheduler are each one step: the interleavings
  of their single accesses are modelled for the spin lock, the request queue and the counters of
  the I/Os only.
\<close>

section \<open>The rebalancer\<close>

lemma sample_reb_inv: "reb_inv sample"
  using sample_reb_base sample_part_cores sample_used [of 0] sample_used [of 1] sample_used [of 2] sample_used [of 3]
  by (simp add: reb_inv_def part_counts_def numa_counts_def sample_views less_2_cases' stats_shaped_def pstat_def
      used_in_def MAX_PARTITIONS_def MAX_NUMAS_def)
    (auto simp: sample_def)

text \<open>
  C1: One pass of the rebalancer thread (\<^verbatim>\<open>reb_func\<close>) on a legal state, with any
  \<^verbatim>\<open>qsort\<close> that meets its contract and with memory available, ends without a fault.
  The state after it is legal again: the load queues are well formed and counted, every
  partition still has a stream in use in every node, every load is queued at a stream of its
  own partition, a node in power-saving state holds no load and the counter of such nodes is
  right. No load is lost, duplicated or altered apart from its destination.
\<close>

theorem reb_pass_ok:
  assumes "qsort_contract qs" and "reb_base s" and "False \<notin> set (allocs s)"
  shows "\<exists>s'. reb_pass qs s = Inr s' \<and> reb_inv s' \<and> reb_frame s s'"
  using reb_sorter.reb_pass_sat [OF reb_sorterI [OF assms(1)] assms(2) no_failed_alloc [OF assms(3)]]
  by (auto simp: sat_total reb_post_def)

theorem reb_pass_ok_witness:
  "\<exists>s'. reb_pass qsort_by sample = Inr s' \<and> reb_inv s' \<and> reb_frame sample s'"
  by (rule reb_pass_ok [OF ins.qsort_contract_axioms sample_reb_base sample_allocs])

lemma reb_base_stopping: "reb_base (abtst_set_stopping s) \<longleftrightarrow> reb_base s"
proof -
  let ?t = "abtst_set_stopping s"
  have a: "n_streams ?t = n_streams s" "stream_at ?t = stream_at s" "load_queue ?t = load_queue s" "load_at ?t = load_at s"
    "valid_load ?t = valid_load s" "all_loads ?t = all_loads s" "load_partition ?t = load_partition s" "links ?t = links s"
    "n_numas ?t = n_numas s" "numa_at ?t = numa_at s" "n_partitions ?t = n_partitions s" "asleep ?t = asleep s"
    by (simp_all add: abtst_set_stopping_def n_streams_def stream_at_def load_queue_def load_at_def valid_load_def all_loads_def
        load_partition_def n_numas_def numa_at_def n_partitions_def asleep_def fun_eq_iff)
  have b: "numa_cores ?t = numa_cores s" by (simp add: numa_cores_def a fun_eq_iff)
  have c: "in_part ?t = in_part s" by (simp add: in_part_def a fun_eq_iff)
  have d: "part_cores ?t = part_cores s" by (simp add: part_cores_def a b c fun_eq_iff)
  have "wf_queues ?t = wf_queues s" by (simp add: wf_queues_def wf_queue_def a)
  moreover have "wf_topology ?t = wf_topology s" "wf_partitions ?t = wf_partitions s" "wf_power ?t = wf_power s"
    by (simp_all add: wf_topology_def wf_partitions_def wf_power_def a b, simp_all add: abtst_set_stopping_def)
  moreover have "covered ?t = covered s" "isolated ?t = isolated s" "ps_quiet ?t = ps_quiet s" "ps_counted ?t = ps_counted s"
    by (simp_all add: covered_def isolated_def ps_quiet_def ps_counted_def used_in_def a b d, simp add: abtst_set_stopping_def)
  ultimately show ?thesis by (simp add: reb_base_def)
qed

text \<open>
  C3: the thread of the rebalancer ends. When the other threads keep the state legal between
  two passes, and after pass \<open>N\<close> at the latest one of them tells the system to stop, then
  \<^verbatim>\<open>reb_func\<close> returns after at most \<open>N + 1\<close> passes, without a fault, in a legal state.
\<close>

theorem reb_func_ends:
  assumes qs: "qsort_contract qs" and base: "reb_base s" "False \<notin> set (allocs s)" and N: "n \<le> N" and fuel: "N < n + fuel"
    and others: "\<forall>n s. reb_inv s \<and> False \<notin> set (allocs s) \<longrightarrow> reb_base (others n s) \<and> False \<notin> set (allocs (others n s))"
    and stop: "\<forall>s. stopping (env (others N s))"
  shows "\<exists>s'. reb_func fuel qs others n s = Inr s' \<and> stopping (env s') \<and> reb_base s'"
  using base N fuel
proof (induction fuel arbitrary: n s)
  case (Suc fuel)
  show ?case
  proof (cases "stopping (env s)")
    case False
    obtain s1 where s1: "reb_pass qs s = Inr s1" "reb_inv s1" "reb_frame s s1"
      using reb_sorter.reb_pass_sat [OF reb_sorterI [OF qs] Suc.prems(1) no_failed_alloc [OF Suc.prems(2)]]
      by (auto simp: sat_total reb_post_def)
    then have next': "reb_base (others n s1)" "False \<notin> set (allocs (others n s1))"
      using others Suc.prems(2) unfolding reb_frame_def by blast+
    have run: "reb_func (Suc fuel) qs others n s = reb_func fuel qs others (Suc n) (others n s1)"
      using False s1(1) by (subst reb_func.simps) (simp add: abtst_is_system_stopping_def)
    show ?thesis
    proof (cases "n = N")
      case True
      then show ?thesis using run stop next'(1) by (subst run, subst reb_func.simps) (simp add: abtst_is_system_stopping_def)
    next
      case False
      then show ?thesis using Suc.IH [OF next', of "Suc n"] Suc.prems(3,4) run by simp
    qed
  qed (use Suc.prems(1) in \<open>simp add: reb_func.simps abtst_is_system_stopping_def\<close>)
qed simp

theorem reb_func_ends_witness:
  "\<exists>s'. reb_func 1 qsort_by (\<lambda>_ s. abtst_set_stopping s) 0 sample = Inr s' \<and> stopping (env s') \<and> reb_base s'"
  by (rule reb_func_ends [OF ins.qsort_contract_axioms sample_reb_base sample_allocs, of 0 0])
    (simp_all add: reb_inv_def reb_base_stopping, simp_all add: abtst_set_stopping_def)

text \<open>
  C2: Whatever allocations fail, the only fault of a pass on a legal state is the write
  through the result of an unchecked \<^verbatim>\<open>malloc\<close>: no invalid pointer, no access out of
  bounds, no division by zero, no read of an unset cell of \<^verbatim>\<open>to_cores\<close>, no endless
  list traversal. The pass prints its diagrams as its verbosity says; their reads and their
  division by the interval, which a legal state has between one and a million seconds, are
  included.
\<close>

theorem reb_pass_fault:
  assumes "qsort_contract qs" and "reb_base s" and "e \<noteq> OutOfMemory"
  shows "reb_pass qs s \<noteq> Inl e"
proof
  assume "reb_pass qs s = Inl e"
  moreover have "mem_ok {OutOfMemory} s" by (simp add: mem_ok_def)
  ultimately show False
    using reb_sorter.reb_pass_sat [OF reb_sorterI [OF assms(1)] assms(2), of "{OutOfMemory}"] assms(3) by simp
qed

theorem reb_pass_fault_witness: "reb_pass qsort_by sample \<noteq> Inl DivByZero"
  by (rule reb_pass_fault [OF ins.qsort_contract_axioms sample_reb_base]) simp

text \<open>
  C8: Level 1 (\<^verbatim>\<open>abtst_reb_in_partitions\<close>) is local: every partition keeps exactly its
  loads in every node. No load crosses a NUMA node or a partition, no stream changes
  partition, and the invariant is kept.
\<close>

theorem reb_in_partitions_local:
  assumes "qsort_contract qs" and "reb_inv s" and "False \<notin> set (allocs s)"
  shows "\<exists>s'. abtst_reb_in_partitions qs s = Inr s' \<and> reb_inv s' \<and> reb_frame s s' \<and> cells_kept s s'"
  using reb_sorter.abtst_reb_in_partitions_sat [OF reb_sorterI [OF assms(1)] assms(2) no_failed_alloc [OF assms(3)]]
  by (auto simp: sat_total reb_post_def)

theorem reb_in_partitions_local_witness:
  "\<exists>s'. abtst_reb_in_partitions qsort_by sample = Inr s' \<and> reb_inv s' \<and> reb_frame sample s' \<and> cells_kept sample s'"
  by (rule reb_in_partitions_local [OF ins.qsort_contract_axioms sample_reb_inv sample_allocs])

text \<open>
  C9: Level 2 (\<^verbatim>\<open>abtst_reb_in_numas\<close>) moves streams between partitions but no load
  between nodes: every node keeps exactly its loads, every partition keeps a stream in use in
  every node, and every load stays at a stream of its own partition.
\<close>

theorem reb_in_numas_local:
  assumes "qsort_contract qs" and "reb_inv s" and "False \<notin> set (allocs s)"
  shows "\<exists>s'. abtst_reb_in_numas qs s = Inr s' \<and> reb_inv s' \<and> reb_frame s s' \<and> nodes_kept s s'"
  using reb_sorter.abtst_reb_in_numas_sat [OF reb_sorterI [OF assms(1)] assms(2) no_failed_alloc [OF assms(3)]]
  by (auto simp: sat_total reb_post_def reb_post2_def)

theorem reb_in_numas_local_witness:
  "\<exists>s'. abtst_reb_in_numas qsort_by sample = Inr s' \<and> reb_inv s' \<and> reb_frame sample s' \<and> nodes_kept sample s'"
  by (rule reb_in_numas_local [OF ins.qsort_contract_axioms sample_reb_inv sample_allocs])

text \<open>
  C10: Level 3 (\<^verbatim>\<open>abtst_reb_between_numas\<close>) ends without a fault and keeps the invariant:
  in particular the loads it moves between nodes stay in their partition, and none goes to a
  node in power-saving state.
\<close>

theorem reb_between_numas_ok:
  assumes "qsort_contract qs" and "reb_inv s" and "False \<notin> set (allocs s)"
  shows "\<exists>s'. abtst_reb_between_numas qs s = Inr s' \<and> reb_inv s' \<and> reb_frame s s'"
  using reb_sorter.abtst_reb_between_numas_sat [OF reb_sorterI [OF assms(1)] assms(2) no_failed_alloc [OF assms(3)]]
  by (auto simp: sat_total reb_post_def)

theorem reb_between_numas_ok_witness:
  "\<exists>s'. abtst_reb_between_numas qsort_by sample = Inr s' \<and> reb_inv s' \<and> reb_frame sample s'"
  by (rule reb_between_numas_ok [OF ins.qsort_contract_axioms sample_reb_inv sample_allocs])

text \<open>
  C11: Emptying a node for power saving (\<^verbatim>\<open>reb_combine_numas\<close>): when it reports success,
  no stream in use of the node holds a load any more, all loads are still queued, each in its
  own partition, and the destination cells it reads were all written before.
\<close>

theorem reb_combine_numas_empties:
  assumes "reb_inv s" and "i < n_numas s" and "False \<notin> set (allocs s)"
  shows "\<exists>r s'. reb_combine_numas i s = Inr (r, s') \<and> reb_inv s' \<and> reb_frame s s' \<and>
    (r = 0 \<longrightarrow> (\<forall>k \<in> set (used_in s i). load_queue s' k = []))"
proof -
  obtain r s' where r: "reb_combine_numas i s = Inr (r, s')" "reb_post s s'" "same_shape s s'"
    "r = 0 \<longrightarrow> node_empty s' (numa_cores s i)"
    using reb_combine_numas_sat [OF assms(1,2) no_failed_alloc [OF assms(3)]] by (auto simp: sat_total)
  have "load_queue s' k = []" if "r = 0" "k \<in> set (used_in s i)" for k
    using r(3,4) that numa_cores_bound [OF reb_invD(2) [OF assms(1)] assms(2), of k] same_shape_stream(1) [OF r(3), of k]
    by (auto simp: node_empty_def used_in_def)
  then show ?thesis using r(1,2) by (auto simp: reb_post_def)
qed

theorem reb_combine_numas_empties_witness:
  "\<exists>r s'. reb_combine_numas 0 sample = Inr (r, s') \<and> reb_inv s' \<and> reb_frame sample s' \<and>
    (r = 0 \<longrightarrow> (\<forall>k \<in> set (used_in sample 0). load_queue s' k = []))"
  by (rule reb_combine_numas_empties [OF sample_reb_inv _ sample_allocs]) (simp add: sample_views)

text \<open>
  C12: The power-saving step (\<^verbatim>\<open>abtst_reb_power_saving\<close>) keeps the invariant: a node is
  marked as sleeping only after it has been emptied, node 0 never sleeps, and
  \<^verbatim>\<open>nr_ps_numas\<close> counts the sleeping nodes.
\<close>

theorem reb_power_saving_ok:
  assumes "qsort_contract qs" and "reb_inv s" and "False \<notin> set (allocs s)"
  shows "\<exists>s'. abtst_reb_power_saving qs s = Inr s' \<and> reb_inv s' \<and> reb_frame s s'"
  using reb_sorter.abtst_reb_power_saving_sat [OF reb_sorterI [OF assms(1)] assms(2) no_failed_alloc [OF assms(3)]]
  by (auto simp: sat_total reb_post_def)

theorem reb_power_saving_ok_witness:
  "\<exists>s'. abtst_reb_power_saving qsort_by sample = Inr s' \<and> reb_inv s' \<and> reb_frame sample s'"
  by (rule reb_power_saving_ok [OF ins.qsort_contract_axioms sample_reb_inv sample_allocs])

section \<open>Streams\<close>

text \<open>
  C13: \<^verbatim>\<open>abtst_combine_streams\<close> moves all loads of the source to the front of the
  destination's queue, in reverse order, and leaves every other queue alone; the queue depth
  goes with them (an empty source is left as it is). The queues stay well formed.
\<close>

theorem combine_streams_moves_all:
  assumes "wf_queues s" and "from < n_streams s" and "to < n_streams s" and "from \<noteq> to"
    and "False \<notin> set (allocs s)"
  shows "\<exists>s'. abtst_combine_streams s from to = Inr (0, s') \<and>
    requeued s from to (load_queue s from) s' \<and>
    depth_moved s from to (if load_queue s from = [] then 0 else abtst_stream_get_qdepth (stream_at s from)) s'"
  using abtst_combine_streams_sat [OF assms(1) no_failed_alloc [OF assms(5)] assms(2-4)] by (auto simp: sat_total)

theorem combine_streams_moves_all_witness:
  "\<exists>s'. abtst_combine_streams sample 0 2 = Inr (0, s') \<and>
    requeued sample 0 2 (load_queue sample 0) s' \<and>
    depth_moved sample 0 2 (if load_queue sample 0 = [] then 0 else abtst_stream_get_qdepth (stream_at sample 0)) s'"
  by (rule combine_streams_moves_all) (simp_all add: sample_wf_queues sample_views sample_allocs)

text \<open>
  C14: \<^verbatim>\<open>abtst_rebalance_streams\<close> moves exactly the loads of a reference choice that is written
  without the variables of its loops, and returns 0 if there are some and \<open>-1\<close> otherwise. No load
  is moved unless the depth of the destination is below and that of the source above the average,
  the source having at least one and a half times the depth of the destination. Then all loads
  away from their initial core are moved, whatever the average; if there are none, the loads of
  a first fit along the queue, each leaving the destination not above and the source not below
  the average, at most two of them when the destination has loads; if there are none of these
  either, the smallest load with requests in flight, provided that it leaves the destination
  below one and a half times the source. The two depths change by the size of the loads moved,
  which are put at the head of the destination's queue.
\<close>

theorem rebalance_streams_moves:
  assumes "wf_queues s" and "from < n_streams s" and "to < n_streams s" and "from \<noteq> to"
    and "False \<notin> set (allocs s)" and "ms = moved_loads s from to avg"
  shows "\<exists>s'. abtst_rebalance_streams s (stream_param s to) (stream_param s from) avg = Inr (if ms = [] then - 1 else 0, s') \<and>
    (ms = [] \<or> pick_result s (load_queue s from) (depth_at s to) (depth_at s from) avg ms) \<and>
    requeued s from to ms s' \<and> depth_moved s from to (loads_size s ms) s'"
  using abtst_rebalance_streams_sat [OF assms(1) no_failed_alloc [OF assms(5)] assms(2-4),
      of "stream_param s to" "stream_param s from" avg] assms(6) by (auto simp: sat_total rebalanced_def)

theorem rebalance_streams_moves_witness:
  "\<exists>s'. abtst_rebalance_streams busy_sample (stream_param busy_sample 2) (stream_param busy_sample 0) 2 = Inr (0, s') \<and>
    requeued busy_sample 0 2 [(0, 1)] s' \<and> depth_moved busy_sample 0 2 1 s'"
  using rebalance_streams_moves [OF busy_sample_queues(1), of 0 2 "[(0, 1)]" 2] busy_sample_moved
  by (auto simp: busy_sample_queues simp del: loads_size_simps)

text \<open>
  C15: After \<^verbatim>\<open>abtst_update_streams_stat\<close> the queue depth of every stream in use is the
  sum of the sizes of its loads; nothing else changes.
\<close>

theorem update_streams_stat_measures:
  assumes "wf_queues s" and "unat (nr_cores (env s)) = n_streams s"
  shows "\<exists>s'. abtst_update_streams_stat s = Inr s' \<and> depths_measured s [0..<n_streams s] s'"
  using abtst_update_streams_stat_sat [OF assms] by (auto simp: sat_total)

theorem update_streams_stat_measures_witness:
  "\<exists>s'. abtst_update_streams_stat sample = Inr s' \<and> depths_measured sample [0..<n_streams sample] s'"
  by (rule update_streams_stat_measures) (simp_all add: sample_wf_queues sample_views, simp add: sample_def)

section \<open>Statistics\<close>

text \<open>
  C16: \<^verbatim>\<open>abtst_update_partition_stats\<close> recomputes, for every partition and for every
  partition and node, the number of streams in use and the sum of their queue depths.
\<close>

theorem update_partition_stats_current:
  assumes "wf_topology s" and "wf_partitions s"
  shows "\<exists>ps. abtst_update_partition_stats s = Inr (s\<lparr>partitions := ps\<rparr>) \<and> stats_current s ps"
  using abtst_update_partition_stats_sat [OF assms] by (auto simp: sat_total)

theorem update_partition_stats_current_witness:
  "\<exists>ps. abtst_update_partition_stats sample = Inr (sample\<lparr>partitions := ps\<rparr>) \<and> stats_current sample ps"
  using sample_reb_base by (intro update_partition_stats_current) (simp_all add: reb_base_def)

text \<open>
  C17: \<^verbatim>\<open>abtst_update_numa_stats\<close> divides by zero when some node has no stream in use;
  otherwise it sets every node's number of streams in use and average queue depth.
\<close>

theorem update_numa_stats_behaviour:
  assumes "wf_topology s"
  shows "if \<exists>i < n_numas s. used_in s i = [] then abtst_update_numa_stats s = Inl DivByZero
    else \<exists>x. abtst_update_numa_stats s = Inr (s\<lparr>env := (env s)\<lparr>numa_stat := x\<rparr>\<rparr>) \<and>
      length x = length (numa_stat (env s)) \<and> (\<forall>i < n_numas s. x ! i = numa_stat_of s i)"
  using abtst_update_numa_stats_fault [OF assms] abtst_update_numa_stats_sat [OF assms]
  by (auto simp: sat_total numa_stats_upto_def)

theorem update_numa_stats_behaviour_witness:
  "if \<exists>i < n_numas sample. used_in sample i = [] then abtst_update_numa_stats sample = Inl DivByZero
    else \<exists>x. abtst_update_numa_stats sample = Inr (sample\<lparr>env := (env sample)\<lparr>numa_stat := x\<rparr>\<rparr>) \<and>
      length x = length (numa_stat (env sample)) \<and> (\<forall>i < n_numas sample. x ! i = numa_stat_of sample i)"
  by (rule update_numa_stats_behaviour [OF sample_wf_topology])

text \<open>
  C18: \<^verbatim>\<open>abtst_update_power_stats\<close> sets the sleep percentage of every node to the
  percentage of the interval that its streams in use slept on average, at most 100, and to 100
  for a node without streams in use.
\<close>

theorem update_power_stats_pct:
  assumes "wf_topology s" and "wf_power s"
  shows "\<exists>x. abtst_update_power_stats s = Inr (s\<lparr>power := (power s)\<lparr>ps_pct := x\<rparr>\<rparr>) \<and>
    (\<forall>i < n_numas s. x ! i = ps_pct_of s i \<and> x ! i \<le> 100)"
  using abtst_update_power_stats_sat [OF assms] ps_pct_of_le [OF assms(2)] by (auto simp: sat_total ps_pct_upto_def)

theorem update_power_stats_pct_witness:
  "\<exists>x. abtst_update_power_stats sample = Inr (sample\<lparr>power := (power sample)\<lparr>ps_pct := x\<rparr>\<rparr>) \<and>
    (\<forall>i < n_numas sample. x ! i = ps_pct_of sample i \<and> x ! i \<le> 100)"
  using sample_reb_base by (intro update_power_stats_pct) (simp_all add: reb_base_def)

text \<open>
  C19: \<^verbatim>\<open>abtst_estimate_ps_numas\<close> returns the largest number of nodes that may sleep such
  that the work done by all nodes in the last interval loads the remaining nodes by less than
  one half, or 0.
\<close>

theorem estimate_ps_numas_largest:
  assumes "wf_topology s" and "wf_power s" and "pct_bounded s"
  shows "\<exists>r. abtst_estimate_ps_numas s = Inr (int r) \<and> (r = 0 \<or> may_sleep s r) \<and>
    (\<forall>r' > r. \<not> may_sleep s r')"
  using abtst_estimate_ps_numas_eq [OF assms] by metis

theorem estimate_ps_numas_largest_witness:
  "\<exists>r. abtst_estimate_ps_numas sample = Inr (int r) \<and> (r = 0 \<or> may_sleep sample r) \<and>
    (\<forall>r' > r. \<not> may_sleep sample r')"
  using sample_reb_base
  by (intro estimate_ps_numas_largest)
    (simp_all add: reb_base_def pct_bounded_def sample_views less_2_cases', simp add: sample_def)

section \<open>Start of the program\<close>

text \<open>
  C20: \<^verbatim>\<open>abtst_init\<close>, with memory and Argobots calls that succeed, on a machine whose
  nodes are disjoint and a configuration with distinct existing cores that gives every
  partition a core in every node, ends in a legal state: exactly the configured cores have a
  stream in use, in their configured partition, no load is queued, no node sleeps, and the
  rebalancer starts at level 1.
\<close>

theorem abtst_init_legal:
  assumes "abt_succeeds A" and "abtst_init_env M s = Inr s1" and "legal_machine (env s1)" and "legal_config (env s1) cp"
    and "length (ps_state (power s1)) = MAX_NUMAS" and "length (ps_pct (power s1)) = MAX_NUMAS"
    and "length (all_loads s1) < 2 ^ 32" and "False \<notin> set (allocs s1)"
  shows "\<exists>s' r'. abtst_init A M thr (Some cp) s r = Inr (0, s', r') \<and> reb_base s' \<and> env s' = env s1 \<and> mappings s' = mappings s1 \<and>
    (\<forall>k < n_streams s'. load_queue s' k = []) \<and> (\<forall>i < n_numas s'. \<not> asleep s' i) \<and>
    (\<forall>k < n_streams s'. \<forall>p. used (stream_at s' k) \<and> part_id (stream_at s' k) = p \<longleftrightarrow>
      (p, int k) \<in> set (config_pairs (cp_nr_partitions cp) (cp_init_partitions cp))) \<and>
    abtst_get_rebalance_level s' = REBALANCE_LEVEL_IN_PARTITION \<and> dlist (links s') ReqQ [] \<and>
    partition_array (partitions s') = cp_init_partitions cp \<and> False \<notin> set (allocs s')"
  by (rule abtst_init_reb_base [OF assms])

text \<open>Two partitions with a core in each node of the machine \<open>two_nodes\<close>.\<close>

definition two_params :: create_params where
  "two_params = \<lparr>cp_nr_partitions = 2, cp_init_partitions =
     [\<lparr>partition_id = 0, part_nr_cores = 2, partition_cores = [2, 9]\<rparr>,
      \<lparr>partition_id = 1, part_nr_cores = 2, partition_cores = [4, 11]\<rparr>]\<rparr>"

definition two_env :: abtst_env where
  "two_env = \<lparr>nr_cores = 16, nr_numas = 2,
     numa_info = [\<lparr>start_core = 0, end_core = 7\<rparr>, \<lparr>start_core = 8, end_core = 15\<rparr>] @
       replicate 6 \<lparr>start_core = 0, end_core = 0\<rparr>,
     numa_stat = replicate MAX_NUMAS \<lparr>numa_used_cores = 0, avg_qdepth = 0\<rparr>, rebalance_enabled = False, stopping = False\<rparr>"

lemma two_nodes_init: "abtst_init_env two_nodes sys0 = Inr (sys0\<lparr>env := two_env\<rparr>)"
proof -
  have "scan_int ''0-7'' = Some (0, ''-7'')" "scan_int ''7'' = Some (7, [])"
    "scan_int ''8-15'' = Some (8, ''-15'')" "scan_int ''15'' = Some (15, [])" by (simp_all add: scan_simps)
  then have cpus: "get_node_cpus two_nodes 0 n = (0, n\<lparr>start_core := 0, end_core := 7\<rparr>)"
    "get_node_cpus two_nodes (Suc 0) n = (0, n\<lparr>start_core := 8, end_core := 15\<rparr>)" for n
    by (simp_all add: get_node_cpus_def two_nodes_def)
  have "[0..<2] = [0, Suc 0]" by (simp add: upt_rec)
  moreover have "replicate MAX_NUMAS x = [x, x, x, x, x, x, x, x]" "replicate 6 x = [x, x, x, x, x, x]" for x :: abtst_numa
    by (simp_all add: MAX_NUMAS_def numeral_eq_Suc)
  ultimately show ?thesis
    by (simp add: abtst_init_env_def Let_def two_nodes_eval one_node_def sys0_def cpus two_env_def)
      (simp add: two_nodes_def)
qed

lemma two_legal: "legal_machine two_env" "legal_config two_env two_params"
proof -
  have r: "core_range 0 7 = [0, 1, 2, 3, 4, 5, 6, 7]" "core_range 8 15 = [8, 9, 10, 11, 12, 13, 14, 15]"
    by (simp_all add: core_range_def upt_rec)
  have upt: "[0..<2] = [0, Suc 0]" by (simp add: upt_rec)
  show "legal_machine two_env"
    unfolding legal_machine_def by (simp add: two_env_def less_2_cases_iff all_conj_distrib MAX_NUMAS_def r)
  have pairs: "config_pairs 2 (cp_init_partitions two_params) = [(0, 2), (0, 9), (1, 4), (1, 11)]"
    by (simp add: config_pairs_def two_params_def upt)
  have nums: "cp_nr_partitions two_params = 2" "length (cp_init_partitions two_params) = 2" by (simp_all add: two_params_def)
  have "config_ok 16 2 (cp_init_partitions two_params)"
    by (simp add: config_ok_def two_params_def less_2_cases_iff all_conj_distrib)
  then show "legal_config two_env two_params"
    unfolding legal_config_def Let_def nums pairs
    by (simp add: two_env_def less_2_cases_iff all_conj_distrib MAX_PARTITIONS_def r) (simp add: two_params_def)
qed

lemma sys0_loads: "all_loads sys0 = []"
  by (auto simp: all_loads_def sys0_def)

theorem abtst_init_legal_witness:
  "\<exists>s' r'. abtst_init counting_argobots two_nodes 0 (Some two_params) sys0 0 = Inr (0, s', r') \<and> reb_base s' \<and>
    env s' = env (sys0\<lparr>env := two_env\<rparr>) \<and> mappings s' = mappings (sys0\<lparr>env := two_env\<rparr>) \<and>
    (\<forall>k < n_streams s'. load_queue s' k = []) \<and> (\<forall>i < n_numas s'. \<not> asleep s' i) \<and>
    (\<forall>k < n_streams s'. \<forall>p. used (stream_at s' k) \<and> part_id (stream_at s' k) = p \<longleftrightarrow>
      (p, int k) \<in> set (config_pairs (cp_nr_partitions two_params) (cp_init_partitions two_params))) \<and>
    abtst_get_rebalance_level s' = REBALANCE_LEVEL_IN_PARTITION \<and> dlist (links s') ReqQ [] \<and>
    partition_array (partitions s') = cp_init_partitions two_params \<and> False \<notin> set (allocs s')"
  by (rule abtst_init_legal [OF counting_succeeds two_nodes_init])
    (simp_all add: two_legal sys0_loads, simp_all add: sys0_def)

text \<open>
  C21: \<^verbatim>\<open>abtst_create_mapping\<close> on a legal state in which no node sleeps, with a free slot
  and memory and Argobots calls that succeed, returns the slot and keeps the state legal. The
  new loads are dealt round-robin to the streams in use of the partition: load \<open>i\<close> is queued
  at stream \<open>cs ! (i mod length cs)\<close> and starts there, empty; all other queues are kept.
\<close>

theorem create_mapping_deals:
  assumes "abt_succeeds A" and "reb_base s" and "\<forall>i < n_numas s. \<not> asleep s i" and "0 < n_numas s" and "free_slot s m"
    and "kind = 0 \<or> kind = 1" and "0 \<le> pid" and "pid < nr_partitions (partitions s)"
    and "nat pid < length (partition_array (partitions s))" and "False \<notin> set (allocs s)"
    and "length (all_loads s) + unat (new_loads s kind pid) < 2 ^ 32"
  shows "\<exists>s' r'. abtst_create_mapping A s r kind params pid = Inr (int m, s', r') \<and> reb_base s' \<and>
    mapping_ready s' m kind params pid (unat (new_loads s kind pid)) \<and> part_streams s pid \<noteq> [] \<and>
    (\<forall>i < unat (new_loads s kind pid). placed_load (load_at s' (m, i)) i (part_streams s pid ! (i mod length (part_streams s pid)))) \<and>
    (\<forall>k < n_streams s. load_queue s' k = dealt_to m (part_streams s pid) (unat (new_loads s kind pid)) k @ load_queue s k) \<and>
    (\<forall>k < n_streams s. used (stream_at s' k) = used (stream_at s k) \<and> part_id (stream_at s' k) = part_id (stream_at s k)) \<and> n_streams s' = n_streams s"
  by (rule create_mapping_dealt [OF assms])

lemma sample_slot: "free_slot sample 2"
  unfolding free_slot_def
  by (auto simp: sample_views less_4_cases sample_load_queue sample_queue_def) (simp_all add: sample_def MAX_MAPPINGS_def)

lemma sample_awake: "\<forall>i < n_numas sample. \<not> asleep sample i"
  unfolding sample_views less_2_cases' by (auto simp: asleep_def sample_def)

lemma sample_new_loads: "new_loads sample 0 0 = 64"
  by (simp add: new_loads_def sample_def LOADS_PER_XSTREAM_def)

theorem create_mapping_deals_witness:
  "\<exists>s' r'. abtst_create_mapping counting_argobots sample 0 0 (Some sample_hash) 0 = Inr (int 2, s', r') \<and> reb_base s' \<and>
    mapping_ready s' 2 0 (Some sample_hash) 0 (unat (new_loads sample 0 0)) \<and> part_streams sample 0 \<noteq> [] \<and>
    (\<forall>i < unat (new_loads sample 0 0). placed_load (load_at s' (2, i)) i (part_streams sample 0 ! (i mod length (part_streams sample 0)))) \<and>
    (\<forall>k < n_streams sample. load_queue s' k = dealt_to 2 (part_streams sample 0) (unat (new_loads sample 0 0)) k @ load_queue sample k) \<and>
    (\<forall>k < n_streams sample. used (stream_at s' k) = used (stream_at sample k) \<and> part_id (stream_at s' k) = part_id (stream_at sample k)) \<and> n_streams s' = n_streams sample"
  by (rule create_mapping_deals [OF counting_succeeds sample_reb_base sample_awake _ sample_slot _ _ _ _ sample_allocs])
    (simp_all add: sample_views sample_new_loads sample_loads, simp_all add: sample_def)

text \<open>
  C22: From key to stream, over all the components involved: after the creation of a hash
  mapping with legal parameters, every key is mapped to a load of the mapping, and that load
  runs on the stream it was dealt to, a stream in use of the mapping's partition.
\<close>

theorem new_mapping_routes_keys:
  assumes "abt_succeeds A" and "reb_base s" and "\<forall>i < n_numas s. \<not> asleep s i" and "0 < n_numas s" and "free_slot s m"
    and "0 \<le> pid" and "pid < nr_partitions (partitions s)" and "nat pid < length (partition_array (partitions s))"
    and "False \<notin> set (allocs s)" and "length (all_loads s) + unat (new_loads s 0 pid) < 2 ^ 32"
    and "new_loads s 0 pid \<noteq> 0" and "block_size hi \<noteq> 0" and "total_buckets hi \<noteq> 0"
    and "unat (total_buckets hi) + unat (new_loads s 0 pid) \<le> 2 ^ 32"
  shows "\<exists>s' r'. abtst_create_mapping A s r 0 (Some hi) pid = Inr (int m, s', r') \<and>
    (\<forall>key rnd. \<exists>load. map_key_to_load rnd s' (int m) key = Inr load \<and> load < new_loads s 0 pid \<and>
      (\<exists>k < n_streams s'. map_key_to_xstream rnd s' (int m) key = Inr (of_nat k) \<and>
        (m, unat load) \<in> set (load_queue s' k) \<and> used (stream_at s' k) \<and> part_id (stream_at s' k) = pid))"
proof -
  let ?N = "new_loads s 0 pid" and ?cs = "part_streams s pid"
  obtain s' r' where s': "abtst_create_mapping A s r 0 (Some hi) pid = Inr (int m, s', r')" and base: "reb_base s'"
    and ready: "mapping_ready s' m 0 (Some hi) pid (unat ?N)" and ne: "?cs \<noteq> []"
    and placed: "\<forall>i < unat ?N. placed_load (load_at s' (m, i)) i (?cs ! (i mod length ?cs))"
    and q: "\<forall>k < n_streams s. load_queue s' k = dealt_to m ?cs (unat ?N) k @ load_queue s k"
    and st: "\<forall>k < n_streams s. used (stream_at s' k) = used (stream_at s k) \<and> part_id (stream_at s' k) = part_id (stream_at s k)"
    and n: "n_streams s' = n_streams s"
    using create_mapping_dealt [OF assms(1-5) _ assms(6-10), of r "Some hi"] by auto
  let ?mp = "mapping_array (mappings s') ! m"
  have mp: "m < length (mapping_array (mappings s'))" "mapping_ops ?mp = Some MAPPING_TYPE_HASHING" "param ?mp = Some hi"
    "loads_nr (mapping_loads ?mp) = ?N" "length (load_array (mapping_loads ?mp)) = unat ?N"
    using ready by (auto simp: mapping_ready_def Let_def word_unat_eq_iff)
  have "\<exists>load. map_key_to_load rnd s' (int m) key = Inr load \<and> load < ?N \<and>
      (\<exists>k < n_streams s'. map_key_to_xstream rnd s' (int m) key = Inr (of_nat k) \<and> (m, unat load) \<in> set (load_queue s' k) \<and>
        used (stream_at s' k) \<and> part_id (stream_at s' k) = pid)" for key rnd
  proof -
    obtain load where load: "hash_mapping_to_load ?mp (mapping_loads ?mp) key = Inr load" "load < ?N"
      using hash_mapping_to_load_ok [OF mp(3) assms(12,13), of "mapping_loads ?mp" key] mp(4) assms(11,14) by auto
    let ?k = "?cs ! (unat load mod length ?cs)"
    have l: "unat load < unat ?N" using load(2) by (simp add: word_less_nat_alt)
    have "?k \<in> set ?cs" using ne by simp
    then have k: "?k < n_streams s" "used (stream_at s ?k)" "part_id (stream_at s ?k) = pid" by (simp_all add: part_streams_def)
    have "curr_rank (load_array (mapping_loads ?mp) ! unat load) = of_nat ?k"
      using placed l by (auto simp: placed_load_def load_at_def)
    then have "map_key_to_xstream rnd s' (int m) key = Inr (of_nat ?k)" "map_key_to_load rnd s' (int m) key = Inr load"
      using mp load(1) l by (simp_all add: map_key_to_xstream_def map_key_to_load_def mapping_to_load_def map_load_to_stream_def)
    then show ?thesis using load(2) k st q n l by (intro exI [of _ load] conjI exI [of _ ?k]) (auto simp: dealt_to_mem)
  qed
  then show ?thesis using s' by blast
qed

theorem new_mapping_routes_keys_witness:
  "\<exists>s' r'. abtst_create_mapping counting_argobots sample 0 0 (Some sample_hash) 0 = Inr (int 2, s', r') \<and>
    (\<forall>key rnd. \<exists>load. map_key_to_load rnd s' (int 2) key = Inr load \<and> load < new_loads sample 0 0 \<and>
      (\<exists>k < n_streams s'. map_key_to_xstream rnd s' (int 2) key = Inr (of_nat k) \<and>
        (2, unat load) \<in> set (load_queue s' k) \<and> used (stream_at s' k) \<and> part_id (stream_at s' k) = 0))"
  by (rule new_mapping_routes_keys [OF counting_succeeds sample_reb_base sample_awake _ sample_slot _ _ _ sample_allocs])
    (simp_all add: sample_views sample_new_loads sample_loads, simp_all add: sample_def sample_hash_def)

section \<open>The display\<close>

definition display_sample :: sys where
  "display_sample = (set_stream sample 0 (abtst_stream_update_sleep_time 100))\<lparr>rebalance :=
     (rebalance sample)\<lparr>rebalance_interval := 0, verbose := 2\<rparr>\<rparr>"

text \<open>
  C38: a verbose rebalancer with an interval of zero seconds, which the setter accepts, divides by
  zero as soon as some stream in use has slept, when it prints the sleep times.
\<close>

theorem reb_update_output_div0:
  assumes top: "wf_topology s" and v: "2 \<le> verbose (rebalance s)" "rebalance_interval (rebalance s) = 0"
    and k: "i < n_numas s" "k \<in> set (used_in s i)" "sleep_nsec (stat (stream_at s k)) \<noteq> 0"
  shows "reb_update_output s = Inl DivByZero"
  by (rule reb_update_output_zero [OF assms])

theorem reb_update_output_div0_witness: "reb_update_output display_sample = Inl DivByZero"
proof -
  have v: "n_streams display_sample = 4" "n_numas display_sample = 2" "numa_at display_sample = numa_at sample"
    "stream_at display_sample 0 = abtst_stream_update_sleep_time 100 (stream_at sample 0)"
    using sample_views(1,2)
    by (simp_all add: display_sample_def n_streams_def n_numas_def numa_at_def stream_at_def set_stream_def fun_eq_iff)
  have cores: "numa_cores display_sample = numa_cores sample" by (simp add: numa_cores_def v fun_eq_iff)
  have "wf_topology display_sample"
    using sample_wf_topology unfolding wf_topology_def v cores sample_views(1,2)
    by (simp add: display_sample_def set_stream_def)
  then show ?thesis
  proof (rule reb_update_output_div0)
    show "0 \<in> set (used_in display_sample 0)"
      using sample_used [of 0] by (simp add: used_in_def cores sample_views v abtst_stream_update_sleep_time_def)
    show "sleep_nsec (stat (stream_at display_sample 0)) \<noteq> 0"
      unfolding v(4) by (simp add: abtst_stream_update_sleep_time_def stream_at_def sample_parts)
  qed (simp_all add: v, simp_all add: display_sample_def)
qed

end
